(* ===== verification/VP_Prelude.thy ===== *)
theory VP_Prelude
  imports Main "HOL-Library.Word"
begin

unbundle bit_operations_syntax

text \<open>
  The shared base of the vpoline development: names for the C integer types the library
  uses, the little-endian byte memory of RISC-V with its 8-, 16-, 32- and 64-bit accesses,
  address ranges, page arithmetic, and the result type that turns every \<open>exit\<close>,
  \<open>assert\<close> and fatal signal of the C code into a value.

  The four access widths share one contract, the locale \<open>word_access\<close>; it is
  interpreted on the four pairs of load and store below, and the lemmas about spilling
  registers to a stack frame and reading them back are proved once inside it.
\<close>

section \<open>Types\<close>

type_synonym u8 = "8 word"
type_synonym u16 = "16 word"
type_synonym u32 = "32 word"
type_synonym u64 = "64 word"
type_synonym memory = "u64 \<Rightarrow> u8"

text \<open>Rules for the state of the machine.\<close>

named_theorems machine_simps

section \<open>How the C code can stop\<close>

text \<open>
  \<open>Exit c\<close> is \<open>exit(c)\<close>, \<open>Abort\<close> a failed \<open>assert\<close>, \<open>Segv a\<close> an access of the
  library's own C code to the address \<open>a\<close> without the permission it needs,
  \<open>Default_signal n\<close> the default action of signal \<open>n\<close>, and \<open>Out_of_bounds\<close> a read past the
  end of a local array, which C leaves undefined.
\<close>

datatype halt = Exit int | Abort | Segv u64 | Default_signal nat | Out_of_bounds

type_synonym 'a result = "halt + 'a"

definition rbind :: "'a result \<Rightarrow> ('a \<Rightarrow> 'b result) \<Rightarrow> 'b result" where
  "rbind r f = (case r of Inl e \<Rightarrow> Inl e | Inr x \<Rightarrow> f x)"

lemma rbind_simps [simp]:
  "rbind (Inl e) f = Inl e"
  "rbind (Inr x) f = f x"
  by (simp_all add: rbind_def)

lemma rbind_eq_Inr: "rbind r f = Inr y \<longleftrightarrow> (\<exists>x. r = Inr x \<and> f x = Inr y)"
  by (cases r) auto

lemma rbind_assoc: "rbind (rbind r f) g = rbind r (\<lambda>x. rbind (f x) g)"
  by (cases r) auto

section \<open>Address ranges\<close>

text \<open>\<open>in_range a n x\<close>: the byte \<open>x\<close> is one of the \<open>n\<close> bytes from \<open>a\<close> on, the
  addresses taken modulo \<open>2^64\<close> as the hardware does. \<open>separate a n b k\<close>: the \<open>n\<close> bytes from
  \<open>a\<close> and the \<open>k\<close> bytes from \<open>b\<close> do not overlap.\<close>

definition in_range :: "u64 \<Rightarrow> nat \<Rightarrow> u64 \<Rightarrow> bool" where
  "in_range a n x \<longleftrightarrow> unat (x - a) < n"

definition separate :: "u64 \<Rightarrow> nat \<Rightarrow> u64 \<Rightarrow> nat \<Rightarrow> bool" where
  "separate a n b k \<longleftrightarrow> n \<le> unat (b - a) \<and> k \<le> unat (a - b)"

lemma separate_sym: "separate a n b k \<longleftrightarrow> separate b k a n"
  by (auto simp: separate_def)

lemma in_range_base [simp]: "in_range a n a \<longleftrightarrow> 0 < n"
  by (simp add: in_range_def)

lemma in_range_offset: "in_range a n (a + x) \<longleftrightarrow> unat x < n"
  by (simp add: in_range_def)

lemma unat_diff_cases:
  fixes a b :: u64
  shows "unat (a - b) = (if unat b \<le> unat a then unat a - unat b else unat a + 2 ^ 64 - unat b)"
  by (auto simp: unat_sub_if' )

lemma unat_lt_64: "unat (x :: u64) < 2 ^ 64"
  using unsigned_less [of x] by simp

lemma separate_disjoint:
  assumes "separate a n b k" and "in_range a n x"
  shows "\<not> in_range b k x"
  using assms unat_lt_64 [of a] unat_lt_64 [of b] unat_lt_64 [of x]
  by (auto simp: separate_def in_range_def unat_diff_cases split: if_splits)

lemma in_range_sub:
  assumes "in_range a n x" and "unat (x - a) + k \<le> n" and "in_range x k y"
  shows "in_range a n y"
  using assms unat_lt_64 [of a] unat_lt_64 [of x] unat_lt_64 [of y]
  by (auto simp: in_range_def unat_diff_cases split: if_splits)

lemma in_range_inner:
  assumes "unat d + k \<le> n" and "in_range (a + d) k x"
  shows "in_range a n x"
proof -
  have "0 < k" using assms(2) by (auto simp: in_range_def)
  then show ?thesis
    using assms in_range_sub [of a n "a + d" k x] by (simp add: in_range_offset)
qed

lemma separate_sub:
  assumes "separate a n b k" and "unat (c - a) + m \<le> n" and "0 < m" and "0 < k"
  shows "separate c m b k"
  using assms unat_lt_64 [of a] unat_lt_64 [of b] unat_lt_64 [of c]
  by (auto simp: separate_def unat_diff_cases split: if_splits)

section \<open>Byte memory\<close>

text \<open>RISC-V is little-endian: the low byte is at the low address.\<close>

definition load8 :: "memory \<Rightarrow> u64 \<Rightarrow> u8" where
  "load8 m a = m a"

definition load16 :: "memory \<Rightarrow> u64 \<Rightarrow> u16" where
  "load16 m a = word_cat (load8 m (a + 1)) (load8 m a)"

definition load32 :: "memory \<Rightarrow> u64 \<Rightarrow> u32" where
  "load32 m a = word_cat (load16 m (a + 2)) (load16 m a)"

definition load64 :: "memory \<Rightarrow> u64 \<Rightarrow> u64" where
  "load64 m a = word_cat (load32 m (a + 4)) (load32 m a)"

definition store8 :: "memory \<Rightarrow> u64 \<Rightarrow> u8 \<Rightarrow> memory" where
  "store8 m a v = m(a := v)"

definition store16 :: "memory \<Rightarrow> u64 \<Rightarrow> u16 \<Rightarrow> memory" where
  "store16 m a v = store8 (store8 m a (ucast v)) (a + 1) (ucast (drop_bit 8 v))"

definition store32 :: "memory \<Rightarrow> u64 \<Rightarrow> u32 \<Rightarrow> memory" where
  "store32 m a v = store16 (store16 m a (ucast v)) (a + 2) (ucast (drop_bit 16 v))"

definition store64 :: "memory \<Rightarrow> u64 \<Rightarrow> u64 \<Rightarrow> memory" where
  "store64 m a v = store32 (store32 m a (ucast v)) (a + 4) (ucast (drop_bit 32 v))"

text \<open>The contract of one access width of \<open>n\<close> bytes.\<close>

locale word_access =
  fixes ld :: "memory \<Rightarrow> u64 \<Rightarrow> 'w"
    and st :: "memory \<Rightarrow> u64 \<Rightarrow> 'w \<Rightarrow> memory"
    and n :: nat
  assumes n_pos: "0 < n"
    and ld_st: "ld (st m a v) a = v"
    and st_frame: "\<not> in_range a n x \<Longrightarrow> st m a v x = m x"
    and st_cong: "m x = m' x \<Longrightarrow> st m a v x = st m' a v x"
    and ld_cong: "(\<And>x. in_range a n x \<Longrightarrow> m x = m' x) \<Longrightarrow> ld m a = ld m' a"
begin

lemma ld_frame:
  assumes "\<And>x. in_range a n x \<Longrightarrow> \<not> in_range b k x"
    and "\<And>x. \<not> in_range b k x \<Longrightarrow> m' x = m x"
  shows "ld m' a = ld m a"
  using assms by (intro ld_cong) auto

lemma ld_st_separate: "separate a n b n \<Longrightarrow> ld (st m b v) a = ld m a"
  by (rule ld_frame [where b = b and k = n]) (auto dest: separate_disjoint simp: st_frame)

text \<open>Spilling a list of values to offsets from a base address, one after the other.\<close>

fun spill :: "u64 \<Rightarrow> (u64 \<times> 'w) list \<Rightarrow> memory \<Rightarrow> memory" where
  "spill base [] m = m"
| "spill base ((off, v) # xs) m = spill base xs (st m (base + off) v)"

fun slots_ok :: "u64 list \<Rightarrow> bool" where
  "slots_ok [] = True"
| "slots_ok (off # offs) = (list_all (\<lambda>o'. separate off n o' n) offs \<and> slots_ok offs)"

lemma separate_shift: "separate (base + x) k (base + y) l \<longleftrightarrow> separate x k y l"
  by (simp add: separate_def)

lemma spill_frame:
  "(\<And>off v. (off, v) \<in> set xs \<Longrightarrow> \<not> in_range (base + off) n x) \<Longrightarrow> spill base xs m x = m x"
proof (induction xs arbitrary: m)
  case Nil
  then show ?case by simp
next
  case (Cons p xs)
  obtain off v where p: "p = (off, v)" by (cases p)
  with Cons.prems have "\<not> in_range (base + off) n x" by auto
  moreover have "spill base xs (st m (base + off) v) x = st m (base + off) v x"
    using Cons.prems p by (intro Cons.IH) auto
  ultimately show ?case by (simp add: p st_frame)
qed

lemma spill_other:
  "list_all (\<lambda>o'. separate off n o' n) (map fst xs) \<Longrightarrow>
   ld (spill base xs m) (base + off) = ld m (base + off)"
  by (induction xs arbitrary: m) (auto simp: ld_st_separate separate_shift)

lemma ld_spill:
  "slots_ok (map fst xs) \<Longrightarrow> (off, v) \<in> set xs \<Longrightarrow> ld (spill base xs m) (base + off) = v"
proof (induction xs arbitrary: m)
  case Nil
  then show ?case by simp
next
  case (Cons p xs)
  show ?case
  proof (cases "(off, v) = p")
    case True
    with Cons.prems have "list_all (\<lambda>o'. separate off n o' n) (map fst xs)" by auto
    with True show ?thesis by (auto simp: spill_other ld_st)
  next
    case False
    with Cons show ?thesis by (cases p) auto
  qed
qed

end

text \<open>
  An access of twice the width made of two half accesses, the low half at the low address,
  keeps the contract: the 16-, 32- and 64-bit accesses are built this way from the byte.
\<close>

lemma in_range_1: "in_range a (Suc 0) x \<longleftrightarrow> x = a"
  by (simp add: in_range_def unat_eq_0)

lemma in_range_add:
  assumes "k + l < 2 ^ 64"
  shows "in_range a (k + l) x \<longleftrightarrow> in_range a k x \<or> in_range (a + of_nat k) l x"
proof -
  have k: "unat (of_nat k :: u64) = k"
    using assms by (simp add: unat_of_nat take_bit_eq_mod)
  have eq: "x - (a + of_nat k) = (x - a) - of_nat k" by simp
  show ?thesis
    unfolding in_range_def eq unat_diff_cases [of "x - a" "of_nat k"] k
    using assms unat_lt_64 [of "x - a"] by auto
qed

lemma separate_next:
  assumes "0 < k" and "0 < l" and "k + l \<le> 2 ^ 64 - 1"
  shows "separate a k (a + of_nat k) l"
proof -
  have "unat (of_nat k :: u64) = k"
    using assms by (simp add: unat_of_nat take_bit_eq_mod)
  moreover have "unat (- of_nat k :: u64) = 2 ^ 64 - k"
    using assms calculation unat_diff_cases [of 0 "of_nat k"] by simp
  ultimately show ?thesis
    using assms by (simp add: separate_def)
qed

lemma ucast_halves:
  fixes v :: "'a::len word"
  assumes "LENGTH('b::len) + LENGTH('c::len) = LENGTH('a)"
  shows "word_cat (ucast (drop_bit LENGTH('c) v) :: 'b word) (ucast v :: 'c word) = v"
  using assms by (intro bit_word_eqI) (auto simp: bit_simps)

locale double_access = half: word_access ld st n
  for ld :: "memory \<Rightarrow> u64 \<Rightarrow> 'h::len word" and st and n +
  fixes ldw :: "memory \<Rightarrow> u64 \<Rightarrow> 'w::len word"
    and stw :: "memory \<Rightarrow> u64 \<Rightarrow> 'w word \<Rightarrow> memory"
  assumes n_small: "n \<le> 2 ^ 32"
    and len: "LENGTH('h) + LENGTH('h) = LENGTH('w)"
    and ldw: "ldw m a = word_cat (ld m (a + of_nat n)) (ld m a)"
    and stw: "stw m a v =
      st (st m a (ucast v)) (a + of_nat n) (ucast (drop_bit LENGTH('h) v))"
begin

lemma halves_separate: "separate a n (a + of_nat n) n"
  using half.n_pos n_small by (intro separate_next) auto

lemma in_range_halves: "in_range a (2 * n) x \<longleftrightarrow> in_range a n x \<or> in_range (a + of_nat n) n x"
  using in_range_add [of n n a x] n_small by (simp add: mult_2)

end

sublocale double_access \<subseteq> wide: word_access ldw stw "2 * n"
proof unfold_locales
  show "0 < 2 * n" using half.n_pos by simp
next
  fix m a v
  show "ldw (stw m a v) a = v"
    using ucast_halves [where ?'b = 'h and ?'c = 'h, of v] len halves_separate [of a]
    by (simp add: ldw stw half.ld_st half.ld_st_separate)
next
  fix m a v x
  assume "\<not> in_range a (2 * n) x"
  then show "stw m a v x = m x" by (simp add: stw in_range_halves half.st_frame)
next
  fix m m' :: memory and a v x
  assume "m x = m' x"
  then show "stw m a v x = stw m' a v x" unfolding stw by (intro half.st_cong)
next
  fix m m' :: memory and a :: u64
  assume "\<And>x. in_range a (2 * n) x \<Longrightarrow> m x = m' x"
  then have "ld m a = ld m' a" and "ld m (a + of_nat n) = ld m' (a + of_nat n)"
    by (auto simp: in_range_halves intro!: half.ld_cong)
  then show "ldw m a = ldw m' a" by (simp add: ldw)
qed

interpretation mem8: word_access load8 store8 1
  by unfold_locales (auto simp: load8_def store8_def in_range_1)

interpretation pair16: double_access load8 store8 1 load16 store16
  by unfold_locales (auto simp: load16_def store16_def)

interpretation mem16: word_access load16 store16 2
  using pair16.wide.word_access_axioms by simp

interpretation pair32: double_access load16 store16 2 load32 store32
  by unfold_locales (auto simp: load32_def store32_def)

interpretation mem32: word_access load32 store32 4
  using pair32.wide.word_access_axioms by simp

interpretation pair64: double_access load32 store32 4 load64 store64
  by unfold_locales (auto simp: load64_def store64_def)

interpretation mem64: word_access load64 store64 8
  using pair64.wide.word_access_axioms by simp

section \<open>Page arithmetic\<close>

text \<open>For a page size \<open>2 ^ k\<close> the C idioms \<open>a & ~(page_size - 1)\<close> and
  \<open>a % page_size\<close> split an address into the start of its page and the offset in it.\<close>

lemma pow2_minus_1: "(2 :: 'a::len word) ^ k - 1 = mask k"
  by (simp add: mask_eq_exp_minus_1)

lemma and_page_mask:
  fixes a :: "'a::len word"
  shows "a AND NOT (2 ^ k - 1) = a - a mod 2 ^ k"
proof -
  have "a mod 2 ^ k = a AND mask k"
    by (simp flip: take_bit_eq_mod add: take_bit_eq_mask)
  moreover have "a = (a AND NOT (mask k)) + (a AND mask k)"
    by (subst disjunctive_add) (auto simp: bit_simps intro!: bit_word_eqI)
  ultimately show ?thesis
    by (metis add_diff_cancel_right' pow2_minus_1)
qed

lemma unat_mod_pow2: "unat (a mod 2 ^ k :: 'a::len word) = unat a mod 2 ^ k"
  by (simp add: unsigned_take_bit_eq flip: take_bit_eq_mod)

section \<open>Memory protection\<close>

definition PROT_READ :: u32 where "PROT_READ = 1"
definition PROT_WRITE :: u32 where "PROT_WRITE = 2"
definition PROT_EXEC :: u32 where "PROT_EXEC = 4"

lemmas prot_defs = PROT_READ_def PROT_WRITE_def PROT_EXEC_def

type_synonym protection = "u64 \<Rightarrow> u32"

definition allowed :: "protection \<Rightarrow> u32 \<Rightarrow> u64 \<Rightarrow> nat \<Rightarrow> bool" where
  "allowed p want a n \<longleftrightarrow> list_all (\<lambda>i. p (a + of_nat i) AND want = want) [0..<n]"

lemma allowed_iff: "allowed p want a n \<longleftrightarrow> (\<forall>i < n. p (a + of_nat i) AND want = want)"
  by (auto simp: allowed_def list_all_iff)

lemma allowed_cong:
  assumes "\<And>x. in_range a n x \<Longrightarrow> p x = q x"
  shows "allowed p w a n = allowed q w a n"
proof -
  have "in_range a n (a + of_nat i)" if "i < n" for i
    using that by (simp add: in_range_offset unat_of_nat order.strict_trans1 [OF mod_less_eq_dividend])
  then show ?thesis using assms by (simp add: allowed_iff)
qed

lemma allowed_add: "allowed p w a (k + n) \<longleftrightarrow> allowed p w a k \<and> allowed p w (a + of_nat k) n"
proof -
  have "i < k + n \<Longrightarrow> (i < k \<or> (\<exists>j < n. i = k + j))" for i
    using less_diff_conv2 by (metis add.commute le_add_diff_inverse linorder_not_less)
  then show ?thesis
    unfolding allowed_iff
    by (auto simp: add.assoc simp flip: of_nat_add)
qed

lemma allowed_inner:
  assumes "allowed p w a n" and "unat off + k \<le> n"
  shows "allowed p w (a + off) k"
  unfolding allowed_iff
proof (intro allI impI)
  fix i assume "i < k"
  with assms(2) have "unat off + i < n" by simp
  with assms(1) have "p (a + of_nat (unat off + i)) AND w = w" unfolding allowed_iff by blast
  then show "p (a + off + of_nat i) AND w = w" by (simp add: algebra_simps)
qed

section \<open>Transition systems\<close>

text \<open>A step relation with an invariant its steps keep, and one whose steps run out: an invariant
  holds in every state reached, and some final state is reached.\<close>

locale invariant_system =
  fixes step :: "'s \<Rightarrow> 's \<Rightarrow> bool" and inv :: "'s \<Rightarrow> bool"
  assumes step_inv: "inv s \<Longrightarrow> step s t \<Longrightarrow> inv t"
begin

lemma reaches_inv: "step\<^sup>*\<^sup>* s t \<Longrightarrow> inv s \<Longrightarrow> inv t"
  by (induction rule: rtranclp_induct) (auto intro: step_inv)

end

locale terminating_system = invariant_system step inv
  for step :: "'s \<Rightarrow> 's \<Rightarrow> bool" and inv :: "'s \<Rightarrow> bool" +
  fixes rank :: "'s \<Rightarrow> nat" and final :: "'s \<Rightarrow> bool"
  assumes step_rank: "inv s \<Longrightarrow> step s t \<Longrightarrow> rank t < rank s"
    and progress: "inv s \<Longrightarrow> \<not> final s \<Longrightarrow> \<exists>t. step s t"
begin

lemma reaches_final: "inv s \<Longrightarrow> \<exists>t. step\<^sup>*\<^sup>* s t \<and> inv t \<and> final t"
proof (induction "rank s" arbitrary: s rule: less_induct)
  case less
  show ?case
  proof (cases "final s")
    case False
    then obtain t where t: "step s t" using progress less.prems by blast
    then obtain u where "step\<^sup>*\<^sup>* t u" "inv u" "final u"
      using less step_rank step_inv by blast
    with t show ?thesis by (blast intro: converse_rtranclp_into_rtranclp)
  qed (use less.prems in blast)
qed

end

text \<open>
  A forward simulation of labelled systems, as far as a guard allows steps. The relation is indexed: \<open>h\<close>
  goes with every step, the implementation's included. Runs of the specification whose steps the
  guard allows are runs of the implementation, finite ones and those that never end.
\<close>

locale guarded_simulation =
  fixes spec :: "'n \<Rightarrow> 'e \<Rightarrow> 'n \<Rightarrow> bool" and impl :: "'h \<Rightarrow> 's \<Rightarrow> 'e \<Rightarrow> 's \<Rightarrow> bool"
    and rel :: "'h \<Rightarrow> 'n \<Rightarrow> 's \<Rightarrow> bool" and guard :: "'h \<Rightarrow> 'h \<Rightarrow> 'n \<Rightarrow> 's \<Rightarrow> 'e \<Rightarrow> bool"
  assumes simulates: "rel h n s \<Longrightarrow> spec n e n' \<Longrightarrow> guard h h' n s e \<Longrightarrow> \<exists>s'. impl h' s e s' \<and> rel h' n' s'"
begin

lemma run_simulated:
  assumes "rel (h 0) (n 0) s" and "\<And>k. k < m \<Longrightarrow> spec (n k) (e k) (n (Suc k))"
    and "\<And>k s. k < m \<Longrightarrow> rel (h k) (n k) s \<Longrightarrow> guard (h k) (h (Suc k)) (n k) s (e k)"
  shows "\<exists>r. r 0 = s \<and> (\<forall>k < m. impl (h (Suc k)) (r k) (e k) (r (Suc k))) \<and> (\<forall>k \<le> m. rel (h k) (n k) (r k))"
  using assms(2,3)
proof (induction m)
  case 0
  then show ?case using assms(1) by (intro exI [of _ "\<lambda>_. s"]) simp
next
  case (Suc m)
  then obtain r where r: "r 0 = s" "\<forall>k < m. impl (h (Suc k)) (r k) (e k) (r (Suc k))" "\<forall>k \<le> m. rel (h k) (n k) (r k)"
    by auto
  obtain t where t: "impl (h (Suc m)) (r m) (e m) t" "rel (h (Suc m)) (n (Suc m)) t"
    using simulates [of "h m" "n m" "r m" "e m" "n (Suc m)" "h (Suc m)"] Suc.prems r(3) by auto
  show ?case
    using r t by (intro exI [of _ "r(Suc m := t)"]) (auto simp: less_Suc_eq le_Suc_eq)
qed

lemma forever_simulated:
  assumes "rel (h 0) (n 0) s" and "\<And>k. spec (n k) (e k) (n (Suc k))"
    and "\<And>k s. rel (h k) (n k) s \<Longrightarrow> guard (h k) (h (Suc k)) (n k) s (e k)"
  shows "\<exists>r. r 0 = s \<and> (\<forall>k. impl (h (Suc k)) (r k) (e k) (r (Suc k)) \<and> rel (h k) (n k) (r k))"
proof -
  have "\<exists>r. \<forall>k. (rel (h k) (n k) (r k) \<and> (k = 0 \<longrightarrow> r k = s)) \<and> impl (h (Suc k)) (r k) (e k) (r (Suc k))"
    by (rule dependent_nat_choice) (use assms simulates in blast)+
  then show ?thesis by blast
qed

end

end
