(* ===== verification/RV_Isa.thy ===== *)
theory RV_Isa
  imports VP_Prelude "HOL-Library.Signed_Division"
begin

text \<open>
  The RISC-V unprivileged ISA as far as the library and the programs under it need it: RV64I, the
  multiplications and divisions of M, the loads and stores of F and D, and the compressed encodings of
  all of these. It is the semantics of the assembly language the sources are written in, of the
  instructions the library emits and emulates, and of the intercepted program. The encodings are
  those of the ISA manual; nothing here comes from the library's own decoder, which is modelled
  separately in \<open>Sigsegv_Handler\<close> and compared with this one.
\<close>

section \<open>Registers\<close>

abbreviation (input) "RA \<equiv> 1 :: nat"
abbreviation (input) "SP \<equiv> 2 :: nat"
abbreviation (input) "GP \<equiv> 3 :: nat"
abbreviation (input) "T0 \<equiv> 5 :: nat"
abbreviation (input) "T1 \<equiv> 6 :: nat"
abbreviation (input) "T2 \<equiv> 7 :: nat"
abbreviation (input) "A0 \<equiv> 10 :: nat"
abbreviation (input) "A1 \<equiv> 11 :: nat"
abbreviation (input) "A2 \<equiv> 12 :: nat"
abbreviation (input) "A3 \<equiv> 13 :: nat"
abbreviation (input) "A4 \<equiv> 14 :: nat"
abbreviation (input) "A5 \<equiv> 15 :: nat"
abbreviation (input) "A6 \<equiv> 16 :: nat"
abbreviation (input) "A7 \<equiv> 17 :: nat"
abbreviation (input) "T3 \<equiv> 28 :: nat"
abbreviation (input) "T4 \<equiv> 29 :: nat"
abbreviation (input) "T5 \<equiv> 30 :: nat"
abbreviation (input) "T6 \<equiv> 31 :: nat"

record machine =
  gregs :: "nat \<Rightarrow> u64"
  fregs :: "nat \<Rightarrow> u64"
  pc :: u64
  mem :: memory
  perm :: protection

definition rreg :: "machine \<Rightarrow> nat \<Rightarrow> u64" where
  "rreg s r = (if r = 0 then 0 else gregs s r)"

definition wreg :: "nat \<Rightarrow> u64 \<Rightarrow> machine \<Rightarrow> machine" where
  "wreg r v s = (if r = 0 then s else s\<lparr>gregs := (gregs s)(r := v)\<rparr>)"

definition wfreg :: "nat \<Rightarrow> u64 \<Rightarrow> machine \<Rightarrow> machine" where
  "wfreg r v s = s\<lparr>fregs := (fregs s)(r := v)\<rparr>"

lemma wreg_sel [simp, machine_simps]:
  "pc (wreg r v s) = pc s" "mem (wreg r v s) = mem s" "perm (wreg r v s) = perm s"
  "fregs (wreg r v s) = fregs s"
  by (simp_all add: wreg_def)

lemma rreg_0 [simp, machine_simps]: "rreg s 0 = 0"
  by (simp add: rreg_def)

lemma rreg_wreg [machine_simps]:
  "rreg (wreg r v s) q = (if q = r \<and> r \<noteq> 0 then v else rreg s q)"
  by (simp add: wreg_def rreg_def)

lemma wreg_wreg: "wreg r v (wreg r w s) = wreg r v s"
  by (simp add: wreg_def)

lemma wfreg_sel [simp, machine_simps]:
  "pc (wfreg r v s) = pc s" "mem (wfreg r v s) = mem s" "perm (wfreg r v s) = perm s"
  "gregs (wfreg r v s) = gregs s" "fregs (wfreg r v s) = (fregs s)(r := v)"
  by (simp_all add: wfreg_def)

section \<open>Instructions\<close>

datatype load_kind = LB | LH | LW | LD | LBU | LHU | LWU
datatype fload_kind = FLW | FLD
datatype store_kind = SB | SH | SW | SD
datatype fstore_kind = FSW | FSD

datatype alu_op =
    Add | Sub | Sll | Slt | Sltu | Xor | Srl | Sra | Or | And | Addw | Subw | Sllw | Srlw | Sraw
  | Mul | Mulh | Mulhsu | Mulhu | Div | Divu | Rem | Remu | Mulw | Divw | Divuw | Remw | Remuw

datatype cond = BEQ | BNE | BLT | BGE | BLTU | BGEU

text \<open>The instructions of the library's own code have constructors of their own; the other register
  instructions are \<open>OPI\<close> (with an immediate) and \<open>OPR\<close> (with two source registers).\<close>

datatype instr =
    LUI nat u64
  | ADDI nat nat u64
  | SLLI nat nat nat
  | SRLI nat nat nat
  | ORI nat nat u64
  | ORR nat nat nat
  | ANDR nat nat nat
  | LOAD load_kind nat nat u64
  | FLOAD fload_kind nat nat u64
  | STORE store_kind nat nat u64
  | FSTORE fstore_kind nat nat u64
  | JAL nat u64
  | JALR nat nat u64
  | ECALL
  | EBREAK
  | AUIPC nat u64
  | OPI alu_op nat nat u64
  | OPR alu_op nat nat nat
  | BRANCH cond nat nat u64
  | FENCE

text \<open>Register arithmetic. Shifts take the low bits of their second operand; the \<open>w\<close> operations compute
  on 32 bits and sign-extend; division rounds towards zero, by zero gives all ones and leaves the
  dividend as the remainder.\<close>

definition sx :: "u32 \<Rightarrow> u64" where
  "sx x = scast x"

definition sh_bits :: "nat \<Rightarrow> u64 \<Rightarrow> nat" where
  "sh_bits k b = unat (take_bit k b)"

definition divs :: "'a::len word \<Rightarrow> 'a word \<Rightarrow> 'a word" where
  "divs a b = (if b = 0 then - 1 else word_of_int (sint a sdiv sint b))"

definition divu :: "'a::len word \<Rightarrow> 'a word \<Rightarrow> 'a word" where
  "divu a b = (if b = 0 then - 1 else a div b)"

definition rems :: "'a::len word \<Rightarrow> 'a word \<Rightarrow> 'a word" where
  "rems a b = (if b = 0 then a else word_of_int (sint a smod sint b))"

fun alu_value :: "alu_op \<Rightarrow> u64 \<Rightarrow> u64 \<Rightarrow> u64" where
  "alu_value Add a b = a + b"
| "alu_value Sub a b = a - b"
| "alu_value Sll a b = push_bit (sh_bits 6 b) a"
| "alu_value Slt a b = (if sint a < sint b then 1 else 0)"
| "alu_value Sltu a b = (if a < b then 1 else 0)"
| "alu_value Xor a b = a XOR b"
| "alu_value Srl a b = drop_bit (sh_bits 6 b) a"
| "alu_value Sra a b = signed_drop_bit (sh_bits 6 b) a"
| "alu_value Or a b = a OR b"
| "alu_value And a b = a AND b"
| "alu_value Addw a b = sx (ucast a + ucast b)"
| "alu_value Subw a b = sx (ucast a - ucast b)"
| "alu_value Sllw a b = sx (push_bit (sh_bits 5 b) (ucast a))"
| "alu_value Srlw a b = sx (drop_bit (sh_bits 5 b) (ucast a))"
| "alu_value Sraw a b = sx (signed_drop_bit (sh_bits 5 b) (ucast a))"
| "alu_value Mul a b = a * b"
| "alu_value Mulh a b = word_of_int ((sint a * sint b) div 2 ^ 64)"
| "alu_value Mulhsu a b = word_of_int ((sint a * uint b) div 2 ^ 64)"
| "alu_value Mulhu a b = word_of_int ((uint a * uint b) div 2 ^ 64)"
| "alu_value Div a b = divs a b"
| "alu_value Divu a b = divu a b"
| "alu_value Rem a b = rems a b"
| "alu_value Remu a b = a mod b"
| "alu_value Mulw a b = sx (ucast a * ucast b)"
| "alu_value Divw a b = sx (divs (ucast a) (ucast b))"
| "alu_value Divuw a b = sx (divu (ucast a) (ucast b))"
| "alu_value Remw a b = sx (rems (ucast a) (ucast b))"
| "alu_value Remuw a b = sx (ucast a mod ucast b)"

fun cond_holds :: "cond \<Rightarrow> u64 \<Rightarrow> u64 \<Rightarrow> bool" where
  "cond_holds BEQ a b \<longleftrightarrow> a = b"
| "cond_holds BNE a b \<longleftrightarrow> a \<noteq> b"
| "cond_holds BLT a b \<longleftrightarrow> sint a < sint b"
| "cond_holds BGE a b \<longleftrightarrow> sint b \<le> sint a"
| "cond_holds BLTU a b \<longleftrightarrow> a < b"
| "cond_holds BGEU a b \<longleftrightarrow> b \<le> a"

text \<open>Loads sign- or zero-extend to 64 bits; \<open>FLW\<close> NaN-boxes. The register that a store
  reads is its first argument, the base register the second.\<close>

fun load_value :: "load_kind \<Rightarrow> memory \<Rightarrow> u64 \<Rightarrow> u64" where
  "load_value LB m a = scast (load8 m a)"
| "load_value LH m a = scast (load16 m a)"
| "load_value LW m a = scast (load32 m a)"
| "load_value LD m a = load64 m a"
| "load_value LBU m a = ucast (load8 m a)"
| "load_value LHU m a = ucast (load16 m a)"
| "load_value LWU m a = ucast (load32 m a)"

fun fload_value :: "fload_kind \<Rightarrow> memory \<Rightarrow> u64 \<Rightarrow> u64" where
  "fload_value FLW m a = word_cat (- 1 :: u32) (load32 m a)"
| "fload_value FLD m a = load64 m a"

fun store_value :: "store_kind \<Rightarrow> memory \<Rightarrow> u64 \<Rightarrow> u64 \<Rightarrow> memory" where
  "store_value SB m a v = store8 m a (ucast v)"
| "store_value SH m a v = store16 m a (ucast v)"
| "store_value SW m a v = store32 m a (ucast v)"
| "store_value SD m a v = store64 m a v"

fun fstore_value :: "fstore_kind \<Rightarrow> memory \<Rightarrow> u64 \<Rightarrow> u64 \<Rightarrow> memory" where
  "fstore_value FSW m a v = store32 m a (ucast v)"
| "fstore_value FSD m a v = store64 m a v"

text \<open>The effect of a memory instruction performed at address \<open>a\<close>, the address it computes,
  the number of bytes it accesses and the permission it needs.\<close>

fun access_at :: "instr \<Rightarrow> u64 \<Rightarrow> machine \<Rightarrow> machine" where
  "access_at (LOAD k rd rs1 off) a s = wreg rd (load_value k (mem s) a) s"
| "access_at (FLOAD k rd rs1 off) a s = wfreg rd (fload_value k (mem s) a) s"
| "access_at (STORE k rs2 rs1 off) a s = s\<lparr>mem := store_value k (mem s) a (rreg s rs2)\<rparr>"
| "access_at (FSTORE k rs2 rs1 off) a s = s\<lparr>mem := fstore_value k (mem s) a (fregs s rs2)\<rparr>"
| "access_at i a s = s"

fun eff_addr :: "instr \<Rightarrow> machine \<Rightarrow> u64" where
  "eff_addr (LOAD k rd rs1 off) s = rreg s rs1 + off"
| "eff_addr (FLOAD k rd rs1 off) s = rreg s rs1 + off"
| "eff_addr (STORE k rs2 rs1 off) s = rreg s rs1 + off"
| "eff_addr (FSTORE k rs2 rs1 off) s = rreg s rs1 + off"
| "eff_addr i s = 0"

fun access_width :: "instr \<Rightarrow> nat" where
  "access_width (LOAD k rd rs1 off) =
     (case k of LB \<Rightarrow> 1 | LBU \<Rightarrow> 1 | LH \<Rightarrow> 2 | LHU \<Rightarrow> 2 | LW \<Rightarrow> 4 | LWU \<Rightarrow> 4 | LD \<Rightarrow> 8)"
| "access_width (FLOAD k rd rs1 off) = (case k of FLW \<Rightarrow> 4 | FLD \<Rightarrow> 8)"
| "access_width (STORE k rs2 rs1 off) = (case k of SB \<Rightarrow> 1 | SH \<Rightarrow> 2 | SW \<Rightarrow> 4 | SD \<Rightarrow> 8)"
| "access_width (FSTORE k rs2 rs1 off) = (case k of FSW \<Rightarrow> 4 | FSD \<Rightarrow> 8)"
| "access_width i = 0"

fun access_prot :: "instr \<Rightarrow> u32" where
  "access_prot (LOAD k rd rs1 off) = PROT_READ"
| "access_prot (FLOAD k rd rs1 off) = PROT_READ"
| "access_prot (STORE k rs2 rs1 off) = PROT_WRITE"
| "access_prot (FSTORE k rs2 rs1 off) = PROT_WRITE"
| "access_prot i = 0"

fun is_access :: "instr \<Rightarrow> bool" where
  "is_access (LOAD k rd rs1 off) = True"
| "is_access (FLOAD k rd rs1 off) = True"
| "is_access (STORE k rs2 rs1 off) = True"
| "is_access (FSTORE k rs2 rs1 off) = True"
| "is_access i = False"

section \<open>Execution\<close>

text \<open>
  \<open>Next s\<close>: the instruction completed. \<open>Ecall s\<close>, \<open>Break s\<close>: an environment call or a
  breakpoint in state \<open>s\<close>, the program counter still at the instruction. \<open>Fault a s\<close>: an access
  to \<open>a\<close> without permission. \<open>Illegal s\<close>: an encoding outside the subset.
\<close>

datatype outcome = Next machine | Ecall machine | Break machine | Fault u64 machine | Illegal machine

definition advance :: "u64 \<Rightarrow> machine \<Rightarrow> machine" where
  "advance n s = s\<lparr>pc := pc s + n\<rparr>"

fun exec :: "instr \<Rightarrow> u64 \<Rightarrow> machine \<Rightarrow> outcome" where
  "exec (LUI rd imm) n s = Next (advance n (wreg rd imm s))"
| "exec (ADDI rd rs imm) n s = Next (advance n (wreg rd (rreg s rs + imm) s))"
| "exec (SLLI rd rs sh) n s = Next (advance n (wreg rd (push_bit sh (rreg s rs)) s))"
| "exec (SRLI rd rs sh) n s = Next (advance n (wreg rd (drop_bit sh (rreg s rs)) s))"
| "exec (ORI rd rs imm) n s = Next (advance n (wreg rd (rreg s rs OR imm) s))"
| "exec (ORR rd rs1 rs2) n s = Next (advance n (wreg rd (rreg s rs1 OR rreg s rs2) s))"
| "exec (ANDR rd rs1 rs2) n s = Next (advance n (wreg rd (rreg s rs1 AND rreg s rs2) s))"
| "exec (JAL rd off) n s = Next ((wreg rd (pc s + n) s)\<lparr>pc := pc s + off\<rparr>)"
| "exec (JALR rd rs off) n s =
     Next ((wreg rd (pc s + n) s)\<lparr>pc := (rreg s rs + off) AND NOT 1\<rparr>)"
| "exec ECALL n s = Ecall s"
| "exec EBREAK n s = Break s"
| "exec (AUIPC rd imm) n s = Next (advance n (wreg rd (pc s + imm) s))"
| "exec (OPI k rd rs imm) n s = Next (advance n (wreg rd (alu_value k (rreg s rs) imm) s))"
| "exec (OPR k rd rs1 rs2) n s = Next (advance n (wreg rd (alu_value k (rreg s rs1) (rreg s rs2)) s))"
| "exec (BRANCH c rs1 rs2 off) n s =
     Next (if cond_holds c (rreg s rs1) (rreg s rs2) then s\<lparr>pc := pc s + off\<rparr> else advance n s)"
| "exec FENCE n s = Next (advance n s)"
| "exec i n s =
     (let a = eff_addr i s in
      if allowed (perm s) (access_prot i) a (access_width i) then Next (advance n (access_at i a s))
      else Fault a s)"

lemma exec_access:
  "is_access i \<Longrightarrow> exec i n s =
     (let a = eff_addr i s in
      if allowed (perm s) (access_prot i) a (access_width i) then Next (advance n (access_at i a s))
      else Fault a s)"
  by (cases i) auto

section \<open>Decoding 32-bit instructions\<close>

definition fld :: "nat \<Rightarrow> nat \<Rightarrow> u32 \<Rightarrow> nat" where
  "fld lo n w = unat (take_bit n (drop_bit lo w))"

definition imm_i :: "u32 \<Rightarrow> u64" where
  "imm_i w = scast (ucast (drop_bit 20 w) :: 12 word)"

definition imm_s :: "u32 \<Rightarrow> u64" where
  "imm_s w = scast (word_cat (ucast (drop_bit 25 w) :: 7 word) (ucast (drop_bit 7 w) :: 5 word) :: 12 word)"

definition imm_u :: "u32 \<Rightarrow> u64" where
  "imm_u w = scast (w AND 0xfffff000)"

definition imm_j :: "u32 \<Rightarrow> u64" where
  "imm_j w = push_bit 1 (scast
     (word_cat (ucast (drop_bit 31 w) :: 1 word)
       (word_cat (ucast (drop_bit 12 w) :: 8 word)
         (word_cat (ucast (drop_bit 20 w) :: 1 word) (ucast (drop_bit 21 w) :: 10 word) :: 11 word)
         :: 19 word) :: 20 word))"

definition imm_b :: "u32 \<Rightarrow> u64" where
  "imm_b w = push_bit 1 (scast
     (word_cat (ucast (drop_bit 31 w) :: 1 word)
       (word_cat (ucast (drop_bit 7 w) :: 1 word)
         (word_cat (ucast (drop_bit 25 w) :: 6 word) (ucast (drop_bit 8 w) :: 4 word) :: 10 word)
         :: 11 word) :: 12 word))"

definition load_kinds :: "nat \<Rightarrow> load_kind option" where
  "load_kinds f = map_of [(0, LB), (1, LH), (2, LW), (3, LD), (4, LBU), (5, LHU), (6, LWU)] f"

definition fload_kinds :: "nat \<Rightarrow> fload_kind option" where
  "fload_kinds f = map_of [(2, FLW), (3, FLD)] f"

definition store_kinds :: "nat \<Rightarrow> store_kind option" where
  "store_kinds f = map_of [(0, SB), (1, SH), (2, SW), (3, SD)] f"

definition fstore_kinds :: "nat \<Rightarrow> fstore_kind option" where
  "fstore_kinds f = map_of [(2, FSW), (3, FSD)] f"

definition conds :: "nat \<Rightarrow> cond option" where
  "conds f = map_of [(0, BEQ), (1, BNE), (4, BLT), (5, BGE), (6, BLTU), (7, BGEU)] f"

text \<open>The operations selected by \<open>funct3\<close>, and by \<open>funct7\<close> and \<open>funct3\<close>.\<close>

definition opi_ops :: "nat \<Rightarrow> alu_op option" where
  "opi_ops f = map_of [(2, Slt), (3, Sltu), (4, Xor), (7, And)] f"

definition op_ops :: "nat \<Rightarrow> nat \<Rightarrow> alu_op option" where
  "op_ops f7 f3 =
     (if f7 = 0 then map_of [(0, Add), (1, Sll), (2, Slt), (3, Sltu), (4, Xor), (5, Srl)] f3
      else if f7 = 0x20 then map_of [(0, Sub), (5, Sra)] f3
      else if f7 = 1 then
        map_of [(0, Mul), (1, Mulh), (2, Mulhsu), (3, Mulhu), (4, Div), (5, Divu), (6, Rem), (7, Remu)] f3
      else None)"

definition opw_ops :: "nat \<Rightarrow> nat \<Rightarrow> alu_op option" where
  "opw_ops f7 f3 =
     (if f7 = 0 then map_of [(0, Addw), (1, Sllw), (5, Srlw)] f3
      else if f7 = 0x20 then map_of [(0, Subw), (5, Sraw)] f3
      else if f7 = 1 then map_of [(0, Mulw), (4, Divw), (5, Divuw), (6, Remw), (7, Remuw)] f3
      else None)"

definition decode_imm :: "u32 \<Rightarrow> instr option" where
  "decode_imm w =
     (let rd = fld 7 5 w; f3 = fld 12 3 w; rs1 = fld 15 5 w; sh = fld 20 6 w; f6 = fld 26 6 w
      in if f3 = 0 then Some (ADDI rd rs1 (imm_i w))
         else if f3 = 1 then (if f6 = 0 then Some (SLLI rd rs1 sh) else None)
         else if f3 = 5 then
           (if f6 = 0 then Some (SRLI rd rs1 sh) else if f6 = 0x10 then Some (OPI Sra rd rs1 (of_nat sh)) else None)
         else if f3 = 6 then Some (ORI rd rs1 (imm_i w))
         else map_option (\<lambda>k. OPI k rd rs1 (imm_i w)) (opi_ops f3))"

definition decode_imm32 :: "u32 \<Rightarrow> instr option" where
  "decode_imm32 w =
     (let rd = fld 7 5 w; f3 = fld 12 3 w; rs1 = fld 15 5 w; sh = of_nat (fld 20 5 w); f7 = fld 25 7 w
      in if f3 = 0 then Some (OPI Addw rd rs1 (imm_i w))
         else if f3 = 1 \<or> f3 = 5 then map_option (\<lambda>k. OPI k rd rs1 sh) (if f7 = 1 then None else opw_ops f7 f3)
         else None)"

definition decode_op :: "u32 \<Rightarrow> instr option" where
  "decode_op w =
     (let rd = fld 7 5 w; f3 = fld 12 3 w; rs1 = fld 15 5 w; rs2 = fld 20 5 w; f7 = fld 25 7 w
      in if f3 = 6 \<and> f7 = 0 then Some (ORR rd rs1 rs2)
         else if f3 = 7 \<and> f7 = 0 then Some (ANDR rd rs1 rs2)
         else map_option (\<lambda>k. OPR k rd rs1 rs2) (op_ops f7 f3))"

definition decode32 :: "u32 \<Rightarrow> instr option" where
  "decode32 w =
     (let opc = fld 0 7 w; rd = fld 7 5 w; f3 = fld 12 3 w; rs1 = fld 15 5 w; rs2 = fld 20 5 w
      in if opc = 0x37 then Some (LUI rd (imm_u w))
         else if opc = 0x13 then decode_imm w
         else if opc = 0x33 then decode_op w
         else if opc = 0x03 then map_option (\<lambda>k. LOAD k rd rs1 (imm_i w)) (load_kinds f3)
         else if opc = 0x07 then map_option (\<lambda>k. FLOAD k rd rs1 (imm_i w)) (fload_kinds f3)
         else if opc = 0x23 then map_option (\<lambda>k. STORE k rs2 rs1 (imm_s w)) (store_kinds f3)
         else if opc = 0x27 then map_option (\<lambda>k. FSTORE k rs2 rs1 (imm_s w)) (fstore_kinds f3)
         else if opc = 0x6f then Some (JAL rd (imm_j w))
         else if opc = 0x67 then (if f3 = 0 then Some (JALR rd rs1 (imm_i w)) else None)
         else if opc = 0x63 then map_option (\<lambda>c. BRANCH c rs1 rs2 (imm_b w)) (conds f3)
         else if opc = 0x17 then Some (AUIPC rd (imm_u w))
         else if opc = 0x1b then decode_imm32 w
         else if opc = 0x3b then map_option (\<lambda>k. OPR k rd rs1 rs2) (opw_ops (fld 25 7 w) f3)
         else if opc = 0x0f then (if f3 = 0 \<or> f3 = 1 then Some FENCE else None)
         else if w = 0x73 then Some ECALL
         else if w = 0x00100073 then Some EBREAK
         else None)"

lemmas decode_defs =
  decode32_def decode_imm_def decode_op_def fld_def imm_i_def imm_s_def imm_u_def imm_j_def
  load_kinds_def fload_kinds_def store_kinds_def fstore_kinds_def

section \<open>Decoding compressed instructions\<close>

text \<open>The C extension for RV64 with D: quadrants 0 and 1, whose three-bit register fields name
  \<open>x8\<close>-\<open>x15\<close>, and quadrant 2. Reserved encodings are \<open>None\<close>.\<close>

definition cbits :: "nat \<Rightarrow> nat \<Rightarrow> u16 \<Rightarrow> u64" where
  "cbits lo n c = ucast (take_bit n (drop_bit lo c))"

definition uimm_w :: "u16 \<Rightarrow> u64" where
  "uimm_w c = push_bit 3 (cbits 10 3 c) OR push_bit 2 (cbits 6 1 c) OR push_bit 6 (cbits 5 1 c)"

definition uimm_d :: "u16 \<Rightarrow> u64" where
  "uimm_d c = push_bit 3 (cbits 10 3 c) OR push_bit 6 (cbits 5 2 c)"

definition uimm_lwsp :: "u16 \<Rightarrow> u64" where
  "uimm_lwsp c = push_bit 5 (cbits 12 1 c) OR push_bit 2 (cbits 4 3 c) OR push_bit 6 (cbits 2 2 c)"

definition uimm_ldsp :: "u16 \<Rightarrow> u64" where
  "uimm_ldsp c = push_bit 5 (cbits 12 1 c) OR push_bit 3 (cbits 5 2 c) OR push_bit 6 (cbits 2 3 c)"

definition uimm_swsp :: "u16 \<Rightarrow> u64" where
  "uimm_swsp c = push_bit 2 (cbits 9 4 c) OR push_bit 6 (cbits 7 2 c)"

definition uimm_sdsp :: "u16 \<Rightarrow> u64" where
  "uimm_sdsp c = push_bit 3 (cbits 10 3 c) OR push_bit 6 (cbits 7 3 c)"

definition uimm_4spn :: "u16 \<Rightarrow> u64" where
  "uimm_4spn c = push_bit 4 (cbits 11 2 c) OR push_bit 6 (cbits 7 4 c) OR push_bit 2 (cbits 6 1 c) OR
     push_bit 3 (cbits 5 1 c)"

definition uimm_6 :: "u16 \<Rightarrow> u64" where
  "uimm_6 c = push_bit 5 (cbits 12 1 c) OR cbits 2 5 c"

definition imm_6 :: "u16 \<Rightarrow> u64" where
  "imm_6 c = scast (ucast (uimm_6 c) :: 6 word)"

definition imm_16sp :: "u16 \<Rightarrow> u64" where
  "imm_16sp c = scast (ucast
     (push_bit 9 (cbits 12 1 c) OR push_bit 4 (cbits 6 1 c) OR push_bit 6 (cbits 5 1 c) OR
      push_bit 7 (cbits 3 2 c) OR push_bit 5 (cbits 2 1 c)) :: 10 word)"

definition imm_cj :: "u16 \<Rightarrow> u64" where
  "imm_cj c = scast (ucast
     (push_bit 11 (cbits 12 1 c) OR push_bit 4 (cbits 11 1 c) OR push_bit 8 (cbits 9 2 c) OR
      push_bit 10 (cbits 8 1 c) OR push_bit 6 (cbits 7 1 c) OR push_bit 7 (cbits 6 1 c) OR
      push_bit 1 (cbits 3 3 c) OR push_bit 5 (cbits 2 1 c)) :: 12 word)"

definition imm_cb :: "u16 \<Rightarrow> u64" where
  "imm_cb c = scast (ucast
     (push_bit 8 (cbits 12 1 c) OR push_bit 3 (cbits 10 2 c) OR push_bit 6 (cbits 5 2 c) OR
      push_bit 1 (cbits 3 2 c) OR push_bit 5 (cbits 2 1 c)) :: 9 word)"

definition decode_c0 :: "u16 \<Rightarrow> instr option" where
  "decode_c0 c =
     (let w = ucast c; f3 = fld 13 3 w; r1' = 8 + fld 7 3 w; r2' = 8 + fld 2 3 w
      in if f3 = 0 then (if uimm_4spn c = 0 then None else Some (ADDI r2' SP (uimm_4spn c)))
         else if f3 = 1 then Some (FLOAD FLD r2' r1' (uimm_d c))
         else if f3 = 2 then Some (LOAD LW r2' r1' (uimm_w c))
         else if f3 = 3 then Some (LOAD LD r2' r1' (uimm_d c))
         else if f3 = 5 then Some (FSTORE FSD r2' r1' (uimm_d c))
         else if f3 = 6 then Some (STORE SW r2' r1' (uimm_w c))
         else if f3 = 7 then Some (STORE SD r2' r1' (uimm_d c))
         else None)"

definition decode_ca :: "u16 \<Rightarrow> instr option" where
  "decode_ca c =
     (let w = ucast c; r1' = 8 + fld 7 3 w; r2' = 8 + fld 2 3 w; f2 = fld 10 2 w
      in if f2 = 0 then Some (SRLI r1' r1' (unat (uimm_6 c)))
         else if f2 = 1 then Some (OPI Sra r1' r1' (uimm_6 c))
         else if f2 = 2 then Some (OPI And r1' r1' (imm_6 c))
         else if fld 12 1 w = 0 then Some (OPR ([Sub, Xor, Or, And] ! fld 5 2 w) r1' r1' r2')
         else if fld 5 2 w = 0 then Some (OPR Subw r1' r1' r2')
         else if fld 5 2 w = 1 then Some (OPR Addw r1' r1' r2')
         else None)"

definition decode_c1 :: "u16 \<Rightarrow> instr option" where
  "decode_c1 c =
     (let w = ucast c; f3 = fld 13 3 w; rd = fld 7 5 w; r1' = 8 + fld 7 3 w
      in if f3 = 0 then Some (ADDI rd rd (imm_6 c))
         else if f3 = 1 then (if rd = 0 then None else Some (OPI Addw rd rd (imm_6 c)))
         else if f3 = 2 then Some (ADDI rd 0 (imm_6 c))
         else if f3 = 3 then
           (if imm_6 c = 0 then None
            else if rd = SP then Some (ADDI SP SP (imm_16sp c))
            else Some (LUI rd (push_bit 12 (imm_6 c))))
         else if f3 = 4 then decode_ca c
         else if f3 = 5 then Some (JAL 0 (imm_cj c))
         else if f3 = 6 then Some (BRANCH BEQ r1' 0 (imm_cb c))
         else Some (BRANCH BNE r1' 0 (imm_cb c)))"

definition decode_cr :: "u16 \<Rightarrow> instr option" where
  "decode_cr c =
     (let w = ucast c; rd = fld 7 5 w; rs2 = fld 2 5 w
      in if fld 12 1 w = 0 then
           (if rs2 \<noteq> 0 then Some (OPR Add rd 0 rs2) else if rd \<noteq> 0 then Some (JALR 0 rd 0) else None)
         else if rs2 \<noteq> 0 then Some (OPR Add rd rd rs2)
         else if rd \<noteq> 0 then Some (JALR RA rd 0)
         else Some EBREAK)"

definition decode_c2 :: "u16 \<Rightarrow> instr option" where
  "decode_c2 c =
     (let w = ucast c; f3 = fld 13 3 w; rd = fld 7 5 w; rs2 = fld 2 5 w
      in if f3 = 0 then Some (SLLI rd rd (unat (uimm_6 c)))
         else if f3 = 1 then Some (FLOAD FLD rd SP (uimm_ldsp c))
         else if f3 = 2 then (if rd = 0 then None else Some (LOAD LW rd SP (uimm_lwsp c)))
         else if f3 = 3 then (if rd = 0 then None else Some (LOAD LD rd SP (uimm_ldsp c)))
         else if f3 = 4 then decode_cr c
         else if f3 = 5 then Some (FSTORE FSD rs2 SP (uimm_sdsp c))
         else if f3 = 6 then Some (STORE SW rs2 SP (uimm_swsp c))
         else if f3 = 7 then Some (STORE SD rs2 SP (uimm_sdsp c))
         else None)"

definition decode16 :: "u16 \<Rightarrow> instr option" where
  "decode16 c =
     (let op = fld 0 2 (ucast c)
      in if op = 0 then decode_c0 c else if op = 1 then decode_c1 c else if op = 2 then decode_c2 c else None)"

lemmas decode16_defs = decode16_def decode_c0_def decode_ca_def decode_c1_def decode_cr_def decode_c2_def

text \<open>Accesses come from the opcodes of loads and stores only.\<close>

lemma decode_no_access:
  "decode_imm w = Some i \<Longrightarrow> \<not> is_access i" "decode_imm32 w = Some i \<Longrightarrow> \<not> is_access i"
  "decode_op w = Some i \<Longrightarrow> \<not> is_access i" "decode_c1 c = Some i \<Longrightarrow> \<not> is_access i"
  "decode_cr c = Some i \<Longrightarrow> \<not> is_access i"
  by (auto simp: decode_imm_def decode_imm32_def decode_op_def decode_c1_def decode_ca_def decode_cr_def Let_def
      split: if_splits)

text \<open>The instruction at the program counter and its length: 32-bit encodings have both low bits set.\<close>

definition fetch :: "machine \<Rightarrow> instr option \<times> u64" where
  "fetch s =
     (let c = load16 (mem s) (pc s) in
      if c AND 3 = 3 then (decode32 (load32 (mem s) (pc s)), 4) else (decode16 c, 2))"

end
