(* ===== verification/Lib_State.thy ===== *)
theory Lib_State
  imports RV_Isa
begin

text \<open>
  The state the components of the library share: the global \<open>rsi\<close> structure of
  \<open>src/main.h\<close>, the other globals of \<open>src/main.c\<close>, the symbols the linker resolves, the
  operating-system calls the set-up code makes, and the library's own writes to memory.

  The global \<open>relocated_global_pointer\<close> is kept in the byte memory, at the address of its
  symbol, because the inline assembly reads it from there with \<open>la\<close> and \<open>ld\<close>.
\<close>

section \<open>Globals\<close>

record ReturnSequenceInfo =
  start_addr :: u64
  end_addr :: u64
  start_addr_page :: u64
  end_addr_page :: u64
  gp_offset :: u64
  relocated_gp :: u64
  start_offset :: u32
  protection_size :: u64
  ret_sequence_page_addr :: u64

record lib =
  cpu :: machine
  page_size :: u64
  virtual_global_pointer :: u64
  rsi :: ReturnSequenceInfo
  hook_fn :: u64
  trap_handler :: bool

text \<open>Addresses of the symbols the code refers to.\<close>

record link =
  sym_asm_syscall_hook :: u64
  sym_relocated_global_pointer :: u64
  sym_syscall_no_intercept :: u64

section \<open>The operating system\<close>

text \<open>
  What \<open>sysconf\<close>, \<open>mmap\<close>, \<open>mprotect\<close> and \<open>sigaction\<close> answer is the kernel's choice, so the
  answers are parameters: \<open>os_mmap\<close> maps a length to the address of the new mapping
  (\<open>MAP_FAILED\<close> on failure), the other two return 0 or \<open>-1\<close>. What a successful call does to
  the protection of the pages is what the calls are documented to do.
\<close>

record os =
  os_page_size :: u64
  os_mmap :: "u64 \<Rightarrow> u64"
  os_mprotect :: "u64 \<Rightarrow> u64 \<Rightarrow> u32 \<Rightarrow> int"
  os_sigaction :: int

definition MAP_FAILED :: u64 where
  "MAP_FAILED = - 1"

definition round_up :: "nat \<Rightarrow> nat \<Rightarrow> nat" where
  "round_up pg n = (n + (pg - 1)) div pg * pg"

definition set_prot :: "u64 \<Rightarrow> nat \<Rightarrow> u32 \<Rightarrow> protection \<Rightarrow> protection" where
  "set_prot a n w p = (\<lambda>x. if in_range a n x then w else p x)"

definition map_anonymous :: "u64 \<Rightarrow> nat \<Rightarrow> u32 \<Rightarrow> machine \<Rightarrow> machine" where
  "map_anonymous a n w s =
     s\<lparr>mem := (\<lambda>x. if in_range a n x then 0 else mem s x), perm := set_prot a n w (perm s)\<rparr>"

definition protect_pages :: "u64 \<Rightarrow> u64 \<Rightarrow> u64 \<Rightarrow> u32 \<Rightarrow> machine \<Rightarrow> machine" where
  "protect_pages pg a n w s = s\<lparr>perm := set_prot a (round_up (unat pg) (unat n)) w (perm s)\<rparr>"

lemma protect_pages_sel [simp]:
  "mem (protect_pages pg a n w s) = mem s" "gregs (protect_pages pg a n w s) = gregs s"
  "fregs (protect_pages pg a n w s) = fregs s" "pc (protect_pages pg a n w s) = pc s"
  by (simp_all add: protect_pages_def)

lemma round_up_le: "0 < pg \<Longrightarrow> n \<le> round_up pg n"
  using dividend_less_times_div [of pg "n + (pg - 1)"] by (simp add: round_up_def mult.commute)

lemma round_up_one: "0 < n \<Longrightarrow> n \<le> pg \<Longrightarrow> round_up pg n = pg"
  using div_nat_eqI [of pg 1 "n + (pg - 1)"] by (simp add: round_up_def)

section \<open>The library's own stores\<close>

text \<open>A 32-bit store of the C code, and a run of them to consecutive words.\<close>

definition poke32 :: "u64 \<Rightarrow> u32 \<Rightarrow> machine \<Rightarrow> machine result" where
  "poke32 a v s =
     (if allowed (perm s) PROT_WRITE a 4 then Inr (s\<lparr>mem := store32 (mem s) a v\<rparr>) else Inl (Segv a))"

fun poke_words :: "u64 \<Rightarrow> u32 list \<Rightarrow> machine \<Rightarrow> machine result" where
  "poke_words a [] s = Inr s"
| "poke_words a (w # ws) s = rbind (poke32 a w s) (poke_words (a + 4) ws)"

text \<open>The words of a code sequence stand in memory from \<open>a\<close> on.\<close>

fun code_at :: "memory \<Rightarrow> u64 \<Rightarrow> u32 list \<Rightarrow> bool" where
  "code_at m a [] = True"
| "code_at m a (w # ws) = (load32 m a = w \<and> code_at m (a + 4) ws)"

fun words_memory :: "u64 \<Rightarrow> u32 list \<Rightarrow> memory \<Rightarrow> memory" where
  "words_memory a [] m = m"
| "words_memory a (w # ws) m = words_memory (a + 4) ws (store32 m a w)"

lemma code_at_append:
  "code_at m a (ws @ vs) \<longleftrightarrow> code_at m a ws \<and> code_at m (a + 4 * of_nat (length ws)) vs"
  by (induction ws arbitrary: a) (auto simp: algebra_simps)

lemma code_at_cong:
  assumes "\<And>x. in_range a (4 * length ws) x \<Longrightarrow> m x = m' x" and "length ws < 2 ^ 32"
  shows "code_at m a ws = code_at m' a ws"
  using assms
proof (induction ws arbitrary: a)
  case Nil
  then show ?case by simp
next
  case (Cons w ws)
  have split: "in_range a (4 * length (w # ws)) x \<longleftrightarrow> in_range a 4 x \<or> in_range (a + 4) (4 * length ws) x"
    for x using in_range_add [of 4 "4 * length ws" a x] Cons.prems(2) by simp
  have "load32 m a = load32 m' a"
    using Cons.prems(1) split by (intro mem32.ld_cong) auto
  moreover have "code_at m (a + 4) ws = code_at m' (a + 4) ws"
    using Cons.prems split by (intro Cons.IH) auto
  ultimately show ?case by simp
qed

lemma words_memory_frame:
  "\<not> in_range a (4 * length ws) x \<Longrightarrow> length ws < 2 ^ 32 \<Longrightarrow> words_memory a ws m x = m x"
proof (induction ws arbitrary: a m)
  case Nil
  then show ?case by simp
next
  case (Cons w ws)
  have "in_range a (4 * length (w # ws)) x \<longleftrightarrow> in_range a 4 x \<or> in_range (a + 4) (4 * length ws) x"
    using in_range_add [of 4 "4 * length ws" a x] Cons.prems(2) by simp
  with Cons show ?case by (simp add: mem32.st_frame)
qed

text \<open>A run of stores leaves exactly the words it wrote.\<close>

lemma code_at_words_memory:
  "length ws < 2 ^ 32 \<Longrightarrow> code_at (words_memory a ws m) a ws"
proof (induction ws arbitrary: a m)
  case Nil
  then show ?case by simp
next
  case (Cons w ws)
  have "separate a 4 (a + of_nat 4) (4 * length ws)" if "ws \<noteq> []"
    using Cons.prems that by (intro separate_next) auto
  then have "load32 (words_memory (a + 4) ws (store32 m a w)) a = load32 (store32 m a w) a"
    using Cons.prems
    by (cases "ws = []") (auto intro!: mem32.ld_cong words_memory_frame dest: separate_disjoint)
  with Cons show ?case by (simp add: mem32.ld_st)
qed

lemma poke_words_ok:
  "allowed (perm s) PROT_WRITE a (4 * length ws) \<Longrightarrow>
   poke_words a ws s = Inr (s\<lparr>mem := words_memory a ws (mem s)\<rparr>)"
proof (induction ws arbitrary: a s)
  case Nil
  then show ?case by simp
next
  case (Cons w ws)
  then have "allowed (perm s) PROT_WRITE a (4 + 4 * length ws)" by simp
  then have "allowed (perm s) PROT_WRITE a 4" and
    "allowed (perm s) PROT_WRITE (a + of_nat 4) (4 * length ws)"
    by (simp_all add: allowed_add)
  with Cons.IH show ?case by (simp add: poke32_def)
qed

end
