(* ===== verification/Utils.thy ===== *)
theory Utils
  imports Lib_State
begin

text \<open>
  \<open>src/utils.c\<close>: the layout of the page that will hold the trampoline and the return
  sequences. \<open>define_ret_sequence_info\<close> computes it around the original global pointer,
  \<open>allocate_ret_sequence_page\<close> moves it to a fresh mapping.
\<close>

section \<open>Definitions\<close>

definition RET_SEQUENCE_SIZE :: u64 where
  "RET_SEQUENCE_SIZE = 56"

definition define_ret_sequence_info :: "os \<Rightarrow> lib \<Rightarrow> lib" where
  "define_ret_sequence_info os g =
     (let pg = os_page_size os;
          page_mask = NOT (pg - 1);
          vgp = virtual_global_pointer g;
          sa = vgp - RET_SEQUENCE_SIZE;
          ea = vgp - 1;
          sap = sa AND page_mask;
          eap = ea AND page_mask
      in g\<lparr>page_size := pg,
           rsi := (rsi g)\<lparr>gp_offset := vgp mod pg, start_addr := sa, end_addr := ea,
                          start_addr_page := sap, end_addr_page := eap,
                          protection_size := eap - sap + pg\<rparr>\<rparr>)"

definition allocate_ret_sequence_page :: "os \<Rightarrow> link \<Rightarrow> lib \<Rightarrow> lib result" where
  "allocate_ret_sequence_page os lk g =
     (let r = rsi g;
          page = os_mmap os (protection_size r)
      in if page = MAP_FAILED then Inl (Exit 1)
         else
           let c = map_anonymous page (unat (protection_size r)) (PROT_READ OR PROT_WRITE) (cpu g);
               rgp = page + gp_offset r;
               c' = c\<lparr>mem := store64 (mem c) (sym_relocated_global_pointer lk) rgp\<rparr>;
               sa = rgp - RET_SEQUENCE_SIZE
           in Inr (g\<lparr>cpu := c',
                     rsi := r\<lparr>ret_sequence_page_addr := page, relocated_gp := rgp,
                              start_addr := sa, end_addr := rgp - 1,
                              start_offset := ucast (sa mod page_size g)\<rparr>\<rparr>))"

section \<open>Page arithmetic of the layout\<close>

lemma mod_sub_nat:
  fixes a b p :: nat
  shows "b \<le> a mod p \<Longrightarrow> (a - b) mod p = a mod p - b"
    and "a mod p < b \<Longrightarrow> b \<le> p \<Longrightarrow> b \<le> a \<Longrightarrow> (a - b) mod p = a mod p + p - b"
proof -
  define q where "q = a div p"
  have a: "a = q * p + a mod p" by (simp add: q_def)
  show "(a - b) mod p = a mod p - b" if b: "b \<le> a mod p"
  proof (cases "p = 0")
    case True
    then show ?thesis by simp
  next
    case False
    then have "a mod p - b < p" using mod_less_divisor [of p a] by linarith
    moreover have "a - b = q * p + (a mod p - b)" using a b by linarith
    ultimately show ?thesis by (metis mod_less mod_mult_self3)
  qed
  show "(a - b) mod p = a mod p + p - b" if b: "a mod p < b" "b \<le> p" "b \<le> a"
  proof -
    obtain q' where q': "q = Suc q'" using a b by (cases q) auto
    have "a - b = q' * p + (a mod p + p - b)" using a b q' by simp
    moreover have "a mod p + p - b < p" using b by linarith
    ultimately show ?thesis by (metis mod_less mod_mult_self3)
  qed
qed

lemma page_sub:
  fixes a b :: u64
  assumes "unat b \<le> unat a mod 2 ^ k"
  shows "(a - b) mod 2 ^ k = a mod 2 ^ k - b"
proof (rule word_unat_eq_iff [THEN iffD2])
  have le: "unat b \<le> unat a" using assms mod_less_eq_dividend order_trans by blast
  have "unat (a mod 2 ^ k - b) = unat a mod 2 ^ k - unat b"
    using assms by (simp add: unat_diff_cases unat_mod_pow2)
  then show "unat ((a - b) mod 2 ^ k) = unat (a mod 2 ^ k - b)"
    using assms le by (simp add: unat_diff_cases unat_mod_pow2 mod_sub_nat)
qed

lemma unat_pow2: "k < 64 \<Longrightarrow> unat (2 ^ k :: u64) = 2 ^ k"
  using unat_of_nat [of "2 ^ k", where ?'a = 64] power_strict_increasing [of k 64 "2 :: nat"]
  by (simp add: take_bit_eq_mod)

lemma unat_sub_mod:
  fixes a b :: u64
  assumes "k < 64"
  shows "unat (a - b) mod 2 ^ k = (unat a + 2 ^ 64 - unat b) mod 2 ^ k"
proof (cases "unat b \<le> unat a")
  case True
  have "(2 :: nat) ^ 64 = 2 ^ (64 - k) * 2 ^ k"
    using assms by (simp flip: power_add)
  moreover have "unat a + 2 ^ 64 - unat b = (unat a - unat b) + 2 ^ 64" using True by simp
  ultimately show ?thesis using True by (simp only: unat_diff_cases mod_mult_self1 if_True)
next
  case False
  then show ?thesis by (simp only: unat_diff_cases if_False)
qed

lemma page_sub_borrow:
  fixes a b :: u64
  assumes "unat a mod 2 ^ k < unat b" and "unat b \<le> 2 ^ k" and "k < 64"
  shows "(a - b) mod 2 ^ k = a mod 2 ^ k + 2 ^ k - b"
proof (rule word_unat_eq_iff [THEN iffD2])
  define r where "r = unat a mod 2 ^ k"
  have r: "r < 2 ^ k" by (simp add: r_def)
  have "(2 :: nat) ^ 64 = 2 ^ (64 - k) * 2 ^ k"
    using assms by (simp flip: power_add)
  then have m: "(unat a + 2 ^ 64) mod 2 ^ k = r" by (simp only: r_def mod_mult_self1)
  have "2 * (2 :: nat) ^ k \<le> 2 ^ 64"
    using assms(3) power_increasing [of "Suc k" 64 "2 :: nat"] by simp
  then have "unat (a mod 2 ^ k + 2 ^ k) = r + 2 ^ k"
    using r assms(3) by (simp add: unat_plus_if' unat_mod_pow2 unat_pow2 flip: r_def)
  then have rhs: "unat (a mod 2 ^ k + 2 ^ k - b) = r + 2 ^ k - unat b"
    using assms by (simp add: unat_diff_cases)
  have "unat ((a - b) mod 2 ^ k) = (unat a + 2 ^ 64 - unat b) mod 2 ^ k"
    using assms(3) by (simp only: unat_mod_pow2 unat_sub_mod)
  also have "\<dots> = r + 2 ^ k - unat b"
    using mod_sub_nat(2) [of "unat a + 2 ^ 64" "2 ^ k" "unat b"] m assms(1,2) unat_lt_64 [of b]
    by (simp only: r_def)
  finally show "unat ((a - b) mod 2 ^ k) = unat (a mod 2 ^ k + 2 ^ k - b)"
    using rhs by simp
qed

section \<open>The layout\<close>

text \<open>What the documentation of \<open>sysconf(_SC_PAGESIZE)\<close> and \<open>mmap\<close> promises: pages are a
  power of two of at least 4 KiB, and a new mapping starts on a page boundary.\<close>

definition page_size_ok :: "os \<Rightarrow> bool" where
  "page_size_ok os \<longleftrightarrow> (\<exists>k \<in> {12..<32}. os_page_size os = 2 ^ k)"

definition mmap_ok :: "os \<Rightarrow> bool" where
  "mmap_ok os \<longleftrightarrow> (\<forall>n. os_mmap os n \<noteq> MAP_FAILED \<longrightarrow> os_mmap os n mod os_page_size os = 0)"

lemma page_size_okE:
  assumes "page_size_ok os"
  obtains k where "12 \<le> k" "k < 32" "os_page_size os = 2 ^ k" "unat (os_page_size os) = 2 ^ k"
  using assms unat_pow2 by (force simp: page_size_ok_def)

lemma page_offset_cases:
  fixes v :: u64 and n :: u64
  assumes "k < 64" and "unat n \<le> 2 ^ k"
  shows "(v - n) AND NOT (2 ^ k - 1) =
    (if unat n \<le> unat v mod 2 ^ k then v - v mod 2 ^ k else v - v mod 2 ^ k - 2 ^ k)"
  using assms page_sub [of n v k] page_sub_borrow [of v k n]
  by (auto simp: and_page_mask algebra_simps)

lemma define_ret_sequence_info_sel [simp]:
  "page_size (define_ret_sequence_info os g) = os_page_size os"
  "cpu (define_ret_sequence_info os g) = cpu g"
  "virtual_global_pointer (define_ret_sequence_info os g) = virtual_global_pointer g"
  "gp_offset (rsi (define_ret_sequence_info os g)) = virtual_global_pointer g mod os_page_size os"
  "start_addr (rsi (define_ret_sequence_info os g)) = virtual_global_pointer g - 56"
  "end_addr (rsi (define_ret_sequence_info os g)) = virtual_global_pointer g - 1"
  by (simp_all add: define_ret_sequence_info_def Let_def RET_SEQUENCE_SIZE_def)

text \<open>The three places the return sequence can have relative to a page boundary.\<close>

lemma ret_info_pages:
  fixes os :: os and g :: lib
  assumes "page_size_ok os"
  defines "g' \<equiv> define_ret_sequence_info os g"
  defines "off \<equiv> unat (gp_offset (rsi g'))"
    and "base \<equiv> virtual_global_pointer g - gp_offset (rsi g')"
  shows "56 \<le> off \<Longrightarrow> start_addr_page (rsi g') = base \<and> end_addr_page (rsi g') = base \<and>
           protection_size (rsi g') = os_page_size os"
    and "0 < off \<Longrightarrow> off < 56 \<Longrightarrow> start_addr_page (rsi g') = base - os_page_size os \<and>
           end_addr_page (rsi g') = base \<and> protection_size (rsi g') = 2 * os_page_size os"
    and "off = 0 \<Longrightarrow> start_addr_page (rsi g') = base - os_page_size os \<and>
           end_addr_page (rsi g') = base - os_page_size os \<and> protection_size (rsi g') = os_page_size os"
proof -
  obtain k where k: "12 \<le> k" "k < 32" "os_page_size os = 2 ^ k"
    using assms(1) by (rule page_size_okE)
  have "(2 :: nat) ^ 12 \<le> 2 ^ k" using k(1) by (rule power_increasing) simp
  then have big: "56 \<le> (2 :: nat) ^ k" "1 \<le> (2 :: nat) ^ k" by simp_all
  have off: "off = unat (virtual_global_pointer g) mod 2 ^ k"
    by (simp add: off_def g'_def k unat_mod_pow2)
  have sp: "start_addr_page (rsi g') = (if 56 \<le> off then base else base - 2 ^ k)"
    using page_offset_cases [of k 56 "virtual_global_pointer g"] big k off
    by (simp add: g'_def base_def define_ret_sequence_info_def Let_def RET_SEQUENCE_SIZE_def)
  have ep: "end_addr_page (rsi g') = (if 1 \<le> off then base else base - 2 ^ k)"
    using page_offset_cases [of k 1 "virtual_global_pointer g"] big k off
    by (simp add: g'_def base_def define_ret_sequence_info_def Let_def RET_SEQUENCE_SIZE_def)
  have ps: "protection_size (rsi g') = end_addr_page (rsi g') - start_addr_page (rsi g') + 2 ^ k"
    by (simp add: g'_def define_ret_sequence_info_def Let_def k)
  show "56 \<le> off \<Longrightarrow> start_addr_page (rsi g') = base \<and> end_addr_page (rsi g') = base \<and>
           protection_size (rsi g') = os_page_size os"
    using sp ep ps k by simp
  show "0 < off \<Longrightarrow> off < 56 \<Longrightarrow> start_addr_page (rsi g') = base - os_page_size os \<and>
           end_addr_page (rsi g') = base \<and> protection_size (rsi g') = 2 * os_page_size os"
    using sp ep ps k by simp
  show "off = 0 \<Longrightarrow> start_addr_page (rsi g') = base - os_page_size os \<and>
           end_addr_page (rsi g') = base - os_page_size os \<and> protection_size (rsi g') = os_page_size os"
    using sp ep ps k by simp
qed

lemma page_plus_offset:
  fixes p v :: "'a::len word"
  assumes "p mod 2 ^ k = 0"
  shows "(p + v mod 2 ^ k) mod 2 ^ k = v mod 2 ^ k"
  using assms mask_eqs(1) [of p k "v AND mask k"]
  by (simp flip: take_bit_eq_mod add: take_bit_eq_mask and.assoc)

lemma allocate_ret_sequence_page_ok:
  "allocate_ret_sequence_page os lk g = Inr g' \<longleftrightarrow>
     os_mmap os (protection_size (rsi g)) \<noteq> MAP_FAILED \<and>
     (let page = os_mmap os (protection_size (rsi g)); rgp = page + gp_offset (rsi g);
          c = map_anonymous page (unat (protection_size (rsi g))) (PROT_READ OR PROT_WRITE) (cpu g)
      in g' = g\<lparr>cpu := c\<lparr>mem := store64 (mem c) (sym_relocated_global_pointer lk) rgp\<rparr>,
                rsi := (rsi g)\<lparr>ret_sequence_page_addr := page, relocated_gp := rgp,
                  start_addr := rgp - 56, end_addr := rgp - 1,
                  start_offset := ucast ((rgp - 56) mod page_size g)\<rparr>\<rparr>)"
  by (auto simp: allocate_ret_sequence_page_def Let_def RET_SEQUENCE_SIZE_def)

lemma protection_size_cases:
  assumes "page_size_ok os"
  shows "protection_size (rsi (define_ret_sequence_info os g)) =
    (let off = unat (virtual_global_pointer g) mod unat (os_page_size os) in
     if 0 < off \<and> off < 56 then 2 * os_page_size os else os_page_size os)"
proof -
  obtain k where k: "os_page_size os = 2 ^ k" "unat (os_page_size os) = 2 ^ k"
    using assms by (rule page_size_okE)
  then have "unat (gp_offset (rsi (define_ret_sequence_info os g))) =
      unat (virtual_global_pointer g) mod unat (os_page_size os)"
    by (simp add: unat_mod_pow2)
  then show ?thesis
    using ret_info_pages [OF assms, of g] by (auto simp: Let_def)
qed

text \<open>
  The fields of the structure once the page is allocated for the global pointer \<open>v\<close>: a page-aligned
  mapping of one page, or two when the 56 bytes before \<open>v\<close> cross a page boundary; the relocated global
  pointer at the offset of \<open>v\<close> in it; the return sequence in the 56 bytes before that; and the pages of
  the original 56 bytes.
\<close>

definition layout_ok :: "os \<Rightarrow> u64 \<Rightarrow> lib \<Rightarrow> bool" where
  "layout_ok os v g \<longleftrightarrow>
     (let r = rsi g; pg = page_size g; off = unat v mod unat pg in
      pg = os_page_size os \<and> virtual_global_pointer g = v \<and> gp_offset r = v mod pg \<and>
      ret_sequence_page_addr r mod pg = 0 \<and> protection_size r = (if 0 < off \<and> off < 56 then 2 * pg else pg) \<and>
      relocated_gp r = ret_sequence_page_addr r + gp_offset r \<and> relocated_gp r mod pg = v mod pg \<and>
      start_addr r = relocated_gp r - 56 \<and> end_addr r = relocated_gp r - 1 \<and>
      unat (start_offset r) = unat (start_addr r) mod unat pg \<and>
      start_addr_page r = (v - 56) AND NOT (pg - 1) \<and> end_addr_page r = (v - 1) AND NOT (pg - 1))"

lemma allocate_layout_ok:
  assumes "page_size_ok os" and "mmap_ok os" and "rsi g = rsi (define_ret_sequence_info os h)"
    and "page_size g = os_page_size os" and "virtual_global_pointer g = v" "virtual_global_pointer h = v"
    and "allocate_ret_sequence_page os lk g = Inr g'"
  shows "layout_ok os v g'"
proof -
  obtain k where k: "k < 32" "os_page_size os = 2 ^ k" "unat (os_page_size os) = 2 ^ k"
    using assms(1) by (rule page_size_okE)
  let ?page = "os_mmap os (protection_size (rsi g))"
  have "?page mod 2 ^ k = 0" using assms(2,7) k by (auto simp: allocate_ret_sequence_page_ok mmap_ok_def Let_def)
  then have "(?page + v mod 2 ^ k) mod 2 ^ k = v mod 2 ^ k" by (rule page_plus_offset)
  moreover have "unat (ucast (a mod 2 ^ k) :: u32) = unat a mod 2 ^ k" for a :: u64
  proof -
    have "(2 :: nat) ^ k \<le> 2 ^ 32" using k(1) by (intro power_increasing) simp_all
    then have "unat a mod 2 ^ k < 2 ^ 32" by (rule less_le_trans [rotated]) simp
    then show ?thesis using k(1) by (simp add: unsigned_ucast_eq unat_mod_pow2 take_bit_eq_mod)
  qed
  ultimately show ?thesis
    using assms(3-7) protection_size_cases [OF assms(1), of h] \<open>?page mod 2 ^ k = 0\<close> k
    by (auto simp: layout_ok_def allocate_ret_sequence_page_ok Let_def define_ret_sequence_info_def RET_SEQUENCE_SIZE_def)
qed

lemma protection_size_bound:
  assumes "page_size_ok os"
  shows "unat (protection_size (rsi (define_ret_sequence_info os g))) \<le> 2 ^ 32"
proof -
  obtain k where k: "k < 32" "os_page_size os = 2 ^ k" "unat (os_page_size os) = 2 ^ k"
    using assms by (rule page_size_okE)
  have le: "(2 :: nat) ^ k \<le> 2 ^ 31" using k(1) by (intro power_increasing) auto
  have "unat (2 * os_page_size os) = 2 * 2 ^ k mod 2 ^ 64"
    using k(3) by (simp add: unat_word_ariths)
  with le have "unat (2 * os_page_size os) \<le> 2 ^ 32" by simp
  moreover have "unat (os_page_size os) \<le> 2 ^ 32" using le k(3) by simp
  ultimately show ?thesis
    unfolding protection_size_cases [OF assms] Let_def by (simp only: split: if_split) blast
qed

lemma allowed_range:
  assumes "n < 2 ^ 64" and "\<And>x. in_range a n x \<Longrightarrow> p x AND w = w"
  shows "allowed p w a n"
  unfolding allowed_iff
proof (intro allI impI)
  fix i assume "i < n"
  then have "in_range a n (a + of_nat i)"
    using assms(1) by (simp add: in_range_offset unat_of_nat take_bit_eq_mod)
  then show "p (a + of_nat i) AND w = w" by (rule assms(2))
qed

lemma ret_sequence_inside:
  assumes "page_size_ok os"
    and "56 \<le> unat (virtual_global_pointer g) mod unat (os_page_size os)"
    and "unat (virtual_global_pointer g) mod unat (os_page_size os) + 80 \<le> unat (os_page_size os)"
    and "allocate_ret_sequence_page os lk (define_ret_sequence_info os g) = Inr g'"
  shows "protection_size (rsi g') = os_page_size os"
    and "perm (cpu g') = set_prot (ret_sequence_page_addr (rsi g')) (unat (os_page_size os))
      (PROT_READ OR PROT_WRITE) (perm (cpu g))"
    and "in_range (start_addr (rsi g')) 136 x \<Longrightarrow>
      in_range (ret_sequence_page_addr (rsi g')) (unat (os_page_size os)) x"
proof -
  obtain k where k: "12 \<le> k" "k < 32" "os_page_size os = 2 ^ k" "unat (os_page_size os) = 2 ^ k"
    using assms(1) by (rule page_size_okE)
  let ?page = "ret_sequence_page_addr (rsi g')"
  define off where "off = virtual_global_pointer g mod os_page_size os"
  have off: "unat off = unat (virtual_global_pointer g) mod unat (os_page_size os)"
    using k(2) by (simp add: off_def k(3) unat_mod_pow2 unat_pow2)
  have ps: "protection_size (rsi (define_ret_sequence_info os g)) = os_page_size os"
    using ret_info_pages(1) [OF assms(1), of g] assms(2) off by (simp add: off_def)
  have g': "start_addr (rsi g') = ?page + off - 56" "protection_size (rsi g') = os_page_size os"
    "perm (cpu g') = set_prot ?page (unat (os_page_size os)) (PROT_READ OR PROT_WRITE) (perm (cpu g))"
    using assms(4) ps
    by (auto simp: allocate_ret_sequence_page_ok Let_def map_anonymous_def off_def)
  then show "protection_size (rsi g') = os_page_size os"
    "perm (cpu g') = set_prot ?page (unat (os_page_size os)) (PROT_READ OR PROT_WRITE) (perm (cpu g))"
    by simp_all
  have "unat (off - 56) = unat off - 56"
    using assms(2) off by (simp add: unat_diff_cases)
  moreover have "start_addr (rsi g') - ?page = off - 56" using g'(1) by simp
  ultimately have "unat (start_addr (rsi g') - ?page) = unat off - 56" by simp
  then have le: "unat (start_addr (rsi g') - ?page) + 136 \<le> 2 ^ k"
    using assms(2,3) off unfolding k(4) by linarith
  show "in_range ?page (unat (os_page_size os)) x" if "in_range (start_addr (rsi g')) 136 x"
    unfolding k(4) by (rule in_range_sub [OF _ le that]) (use le in \<open>simp add: in_range_def\<close>)
qed

text \<open>The relocated global pointer has the same offset in its page as the original one, and the assembly
  reads it back from the global \<open>relocated_global_pointer\<close>.\<close>

lemma relocated_gp_keeps_offset:
  assumes "page_size_ok os" and "mmap_ok os"
    and "allocate_ret_sequence_page os lk (define_ret_sequence_info os g) = Inr g'"
  shows "relocated_gp (rsi g') mod os_page_size os = virtual_global_pointer g mod os_page_size os \<and>
    load64 (mem (cpu g')) (sym_relocated_global_pointer lk) = relocated_gp (rsi g')"
proof (rule conjI)
  obtain k where k: "os_page_size os = 2 ^ k" using assms(1) by (rule page_size_okE)
  let ?page = "os_mmap os (protection_size (rsi (define_ret_sequence_info os g)))"
  have "?page mod 2 ^ k = 0" and g': "relocated_gp (rsi g') = ?page + virtual_global_pointer g mod 2 ^ k"
    using assms(2,3) k by (auto simp: allocate_ret_sequence_page_ok mmap_ok_def Let_def)
  then show "relocated_gp (rsi g') mod os_page_size os = virtual_global_pointer g mod os_page_size os"
    using page_plus_offset k by simp
  show "load64 (mem (cpu g')) (sym_relocated_global_pointer lk) = relocated_gp (rsi g')"
    using assms(3) by (auto simp: allocate_ret_sequence_page_ok Let_def mem64.ld_st)
qed

section \<open>Properties\<close>

text \<open>C19: with the global pointer at least 56 bytes into its page and at least 80 bytes before the
  page's end, the return sequences and the trampoline lie inside the new mapping, which is
  writable.\<close>

theorem ret_sequence_fits:
  assumes "page_size_ok os"
    and "56 \<le> unat (virtual_global_pointer g) mod unat (os_page_size os)"
    and "unat (virtual_global_pointer g) mod unat (os_page_size os) + 80 \<le> unat (os_page_size os)"
    and "allocate_ret_sequence_page os lk (define_ret_sequence_info os g) = Inr g'"
  shows "(\<forall>x. in_range (start_addr (rsi g')) 136 x \<longrightarrow>
      in_range (ret_sequence_page_addr (rsi g')) (unat (protection_size (rsi g'))) x) \<and>
    allowed (perm (cpu g')) PROT_WRITE (start_addr (rsi g')) 136"
proof (rule conjI)
  note inside = ret_sequence_inside [OF assms]
  show "\<forall>x. in_range (start_addr (rsi g')) 136 x \<longrightarrow>
      in_range (ret_sequence_page_addr (rsi g')) (unat (protection_size (rsi g'))) x"
    using inside(1,3) by simp
  show "allowed (perm (cpu g')) PROT_WRITE (start_addr (rsi g')) 136"
    using inside(2,3) by (intro allowed_range) (auto simp: set_prot_def prot_defs)
qed

text \<open>C38: with the global pointer fewer than 56 bytes into its page, the return sequence starts
  before the new mapping, outside the area that was allocated for it.\<close>

theorem ret_sequence_outside:
  assumes "page_size_ok os"
    and "unat (virtual_global_pointer g) mod unat (os_page_size os) < 56"
    and "allocate_ret_sequence_page os lk (define_ret_sequence_info os g) = Inr g'"
  shows "\<not> in_range (ret_sequence_page_addr (rsi g')) (unat (protection_size (rsi g'))) (start_addr (rsi g'))"
proof -
  obtain k where k: "12 \<le> k" "k < 32" "os_page_size os = 2 ^ k" "unat (os_page_size os) = 2 ^ k"
    using assms(1) by (rule page_size_okE)
  define off where "off = virtual_global_pointer g mod os_page_size os"
  have off: "unat off < 56" using assms(2) k(2) by (simp add: off_def k(3) unat_mod_pow2 unat_pow2)
  have start: "start_addr (rsi g') - ret_sequence_page_addr (rsi g') = off - 56"
    and ps: "protection_size (rsi g') = protection_size (rsi (define_ret_sequence_info os g))"
    using assms(3) by (auto simp: allocate_ret_sequence_page_ok Let_def off_def)
  have "unat (protection_size (rsi g')) \<le> 2 ^ 32"
    using protection_size_bound [OF assms(1)] ps by simp
  moreover have "2 ^ 63 \<le> unat (off - 56)"
    using off by (simp add: unat_diff_cases)
  ultimately show ?thesis by (simp add: in_range_def start)
qed

section \<open>Instances\<close>

text \<open>A kernel with 4 KiB pages whose calls all succeed, and a library about to be set up with its
  global pointer at \<open>v\<close>. Nothing is mapped but the 64 KiB from address 0.\<close>

definition sample_os :: os where
  "sample_os = \<lparr>os_page_size = 4096, os_mmap = (\<lambda>_. 0x40000000), os_mprotect = (\<lambda>_ _ _. 0), os_sigaction = 0\<rparr>"

definition sample_cpu :: machine where
  "sample_cpu = \<lparr>gregs = (\<lambda>r. of_nat r), fregs = of_nat, pc = 0, mem = (\<lambda>_. 0),
     perm = (\<lambda>x. if in_range 0 0x10000 x then 7 else 0)\<rparr>"

definition sample_lib :: "u64 \<Rightarrow> lib" where
  "sample_lib v = \<lparr>cpu = sample_cpu, page_size = 0, virtual_global_pointer = v,
     rsi = \<lparr>start_addr = 0, end_addr = 0, start_addr_page = 0, end_addr_page = 0, gp_offset = 0,
       relocated_gp = 0, start_offset = 0, protection_size = 0, ret_sequence_page_addr = 0\<rparr>,
     hook_fn = 0, trap_handler = False\<rparr>"

definition sample_link :: link where
  "sample_link = \<lparr>sym_asm_syscall_hook = 0x123456789abc, sym_relocated_global_pointer = 0x1000,
     sym_syscall_no_intercept = 0x3000\<rparr>"

definition sample_allocated :: "u64 \<Rightarrow> lib" where
  "sample_allocated v =
     projr (allocate_ret_sequence_page sample_os sample_link (define_ret_sequence_info sample_os (sample_lib v)))"

lemma sample_os_ok: "page_size_ok sample_os" "mmap_ok sample_os"
proof -
  have "os_page_size sample_os = 2 ^ 12" by (simp add: sample_os_def)
  then show "page_size_ok sample_os" unfolding page_size_ok_def by (intro bexI [of _ 12]) auto
  show "mmap_ok sample_os" by (simp add: mmap_ok_def sample_os_def)
qed

lemma sample_allocated:
  "allocate_ret_sequence_page sample_os sample_link (define_ret_sequence_info sample_os (sample_lib v)) =
     Inr (sample_allocated v)"
  by (simp add: sample_allocated_def allocate_ret_sequence_page_def Let_def sample_os_def MAP_FAILED_def)

lemma allowed_all: "w \<in> {PROT_READ, PROT_WRITE, PROT_EXEC} \<Longrightarrow> allowed (\<lambda>_. 7) w a n"
  by (auto simp: allowed_iff prot_defs)

theorem ret_sequence_fits_witness:
  "allowed (perm (cpu (sample_allocated 0x50800))) PROT_WRITE (start_addr (rsi (sample_allocated 0x50800))) 136"
  using ret_sequence_fits [OF sample_os_ok(1) _ _ sample_allocated, of "0x50800"]
  by (simp add: sample_lib_def) (simp add: sample_os_def)

theorem ret_sequence_outside_witness:
  "\<not> in_range (ret_sequence_page_addr (rsi (sample_allocated 0x50010)))
     (unat (protection_size (rsi (sample_allocated 0x50010)))) (start_addr (rsi (sample_allocated 0x50010)))"
  using ret_sequence_outside [OF sample_os_ok(1) _ sample_allocated, of "0x50010"]
  by (simp add: sample_lib_def) (simp add: sample_os_def)

end
