(* ===== verification/Patcher.thy ===== *)
theory Patcher
  imports Utils
begin

text \<open>
  \<open>src/patcher.c\<close>: the machine code the library writes by hand. The trampoline at the
  relocated global pointer saves \<open>t0\<close>-\<open>t3\<close> on the stack and jumps to \<open>asm_syscall_hook\<close>,
  whose 64-bit address it builds from two 32-bit halves; the three return paths stand in the 56
  bytes before it. Both are lists of instruction words, decoded by the ISA model.
\<close>

section \<open>Definitions\<close>

text \<open>The split of a 32-bit constant into the immediates of a \<open>lui\<close>/\<open>addi\<close> pair: the C code
  writes it out once for the upper and once for the lower half of the address.\<close>

definition split_imm :: "u32 \<Rightarrow> u32 \<times> u32" where
  "split_imm v =
     (let lui_imm_field = v AND 0xfffff000 in
      if v mod 4096 \<noteq> 0 then
        let addi_imm_field = v - lui_imm_field in
        if addi_imm_field > 2047 then (lui_imm_field + 4096, - (4096 - addi_imm_field))
        else (lui_imm_field, addi_imm_field)
      else (lui_imm_field, 0))"

definition trampoline_words :: "u64 \<Rightarrow> u32 list" where
  "trampoline_words dst =
     (let upper_32 = ucast (drop_bit 32 (dst AND 0xffffffff00000000)) :: u32;
          lower_32 = ucast dst :: u32;
          (lui_hi, addi_hi) = split_imm upper_32;
          (lui_lo, addi_lo) = split_imm lower_32
      in [0xed010113, 0x00513023, 0x00613423, 0x00713823, 0x01c13c23,
          0x000002b7 OR lui_hi, 0x00028293 OR push_bit 20 addi_hi, 0x02029293,
          0x00000e37 OR lui_lo, 0x000e0e13 OR push_bit 20 addi_lo,
          0x7ffff337, 0x7ff06393, 0x00139393, 0x0013e393, 0x00736333, 0x00131313, 0x00136313,
          0x006e7e33, 0x01c2e2b3, 0x00028067])"

definition setup_shadow_page_trampoline :: "link \<Rightarrow> lib \<Rightarrow> lib result" where
  "setup_shadow_page_trampoline lk g =
     rbind (poke_words (relocated_gp (rsi g)) (trampoline_words (sym_asm_syscall_hook lk)) (cpu g))
       (\<lambda>c. Inr (g\<lparr>cpu := c\<rparr>))"

definition return_words :: "u32 list" where
  "return_words =
     [0x12013183, 0x00013283, 0x13010113, 0x0280006f,
      0x00000073, 0x12013183, 0x00013283, 0x13010113, 0x0140006f,
      0x12013183, 0x00013283, 0x13010113, 0x00000073, 0x000181e7]"

definition setup_return :: "os \<Rightarrow> lib \<Rightarrow> lib result" where
  "setup_return os g =
     (let r = rsi g in
      if ret_sequence_page_addr r mod page_size g \<noteq> 0 then Inl Abort
      else rbind (poke_words (start_addr r) return_words (cpu g))
        (\<lambda>c. let len = ucast (56 + start_offset r) :: u64 in
             if os_mprotect os (ret_sequence_page_addr r) len PROT_EXEC = -1 then Inl (Exit 1)
             else Inr (g\<lparr>cpu := protect_pages (page_size g) (ret_sequence_page_addr r) len PROT_EXEC c\<rparr>)))"

section \<open>Decoding the words with a computed immediate\<close>

lemma take_bit_12_iff: "take_bit 12 (h :: u32) = 0 \<longleftrightarrow> (\<forall>n < 12. \<not> bit h n)"
  by (auto simp: bit_eq_iff bit_simps)

lemma fld_or:
  fixes c h :: u32
  assumes "\<And>n. n < lo + k \<Longrightarrow> \<not> bit h n"
  shows "fld lo k (c OR h) = fld lo k c"
proof -
  have "take_bit k (drop_bit lo (c OR h)) = take_bit k (drop_bit lo c)"
    using assms by (intro bit_word_eqI) (auto simp: bit_simps)
  then show ?thesis by (simp add: fld_def)
qed

lemma fld_or_lui:
  "take_bit 12 h = 0 \<Longrightarrow> lo + k \<le> 12 \<Longrightarrow> fld lo k (c OR h) = fld lo k c"
  by (rule fld_or) (auto simp: take_bit_12_iff)

lemma fld_or_shifted: "lo + k \<le> 20 \<Longrightarrow> fld lo k (c OR push_bit 20 a) = fld lo k c"
  by (rule fld_or) (auto simp: bit_simps)

lemma imm_u_or:
  assumes "take_bit 12 (h :: u32) = 0" and "c AND 0xfffff000 = 0"
  shows "imm_u (c OR h) = scast h"
proof -
  have "0xfffff000 = (NOT (mask 12) :: u32)" by (simp add: mask_eq_exp_minus_1)
  moreover have "h AND NOT (mask 12) = h"
    using assms(1) by (intro bit_word_eqI) (auto simp: bit_simps take_bit_12_iff)
  ultimately have "h AND 0xfffff000 = h" by simp
  then show ?thesis
    using assms(2) by (simp add: imm_u_def bit.conj_disj_distrib2)
qed

lemma imm_i_or:
  fixes a c :: u32
  assumes "drop_bit 20 c = 0"
  shows "imm_i (c OR push_bit 20 a) = scast (ucast a :: 12 word)"
proof -
  have "(ucast (drop_bit 20 (c OR push_bit 20 a)) :: 12 word) = ucast a"
    using assms by (intro bit_word_eqI) (auto simp: bit_simps bit_eq_iff)
  then show ?thesis by (simp add: imm_i_def)
qed

lemma decode32_opc:
  "fld 0 7 w = 0x37 \<Longrightarrow> decode32 w = Some (LUI (fld 7 5 w) (imm_u w))"
  "fld 0 7 w = 0x13 \<Longrightarrow> fld 12 3 w = 0 \<Longrightarrow>
     decode32 w = Some (ADDI (fld 7 5 w) (fld 15 5 w) (imm_i w))"
  by (simp_all add: decode32_def decode_imm_def)

lemma decode_lui:
  assumes "take_bit 12 h = 0"
  shows "decode32 (0x2b7 OR h) = Some (LUI 5 (scast h))"
    and "decode32 (0xe37 OR h) = Some (LUI 28 (scast h))"
proof -
  have "fld 0 7 (c OR h) = fld 0 7 c" "fld 7 5 (c OR h) = fld 7 5 c" for c
    using assms by (simp_all add: fld_or_lui)
  note fields = this imm_u_or [OF assms]
  show "decode32 (0x2b7 OR h) = Some (LUI 5 (scast h))"
    using fields [of "0x2b7"] by (subst decode32_opc(1)) (simp_all add: fld_def)
  show "decode32 (0xe37 OR h) = Some (LUI 28 (scast h))"
    using fields [of "0xe37"] by (subst decode32_opc(1)) (simp_all add: fld_def)
qed

lemma decode_addi:
  "decode32 (0x28293 OR push_bit 20 a) = Some (ADDI 5 5 (scast (ucast a :: 12 word)))"
  "decode32 (0xe0e13 OR push_bit 20 a) = Some (ADDI 28 28 (scast (ucast a :: 12 word)))"
proof -
  have fields: "fld 0 7 (c OR push_bit 20 a) = fld 0 7 c" "fld 7 5 (c OR push_bit 20 a) = fld 7 5 c"
    "fld 12 3 (c OR push_bit 20 a) = fld 12 3 c" "fld 15 5 (c OR push_bit 20 a) = fld 15 5 c" for c
    by (simp_all add: fld_or_shifted)
  show "decode32 (0x28293 OR push_bit 20 a) = Some (ADDI 5 5 (scast (ucast a :: 12 word)))"
    using fields [of "0x28293"] imm_i_or [of "0x28293" a]
    by (subst decode32_opc(2)) (simp_all add: fld_def)
  show "decode32 (0xe0e13 OR push_bit 20 a) = Some (ADDI 28 28 (scast (ucast a :: 12 word)))"
    using fields [of "0xe0e13"] imm_i_or [of "0xe0e13" a]
    by (subst decode32_opc(2)) (simp_all add: fld_def)
qed

section \<open>The immediates of the address\<close>

lemma scast_12:
  "(scast (x :: 12 word) :: u32) = ucast x - (if bit x 11 then 4096 else 0)"
  by transfer (simp add: signed_take_bit_eq_take_bit_minus)

lemma ucast_lower: "(ucast (a + b :: u64) :: u32) = ucast a + ucast b"
  by transfer (simp, subst (2) take_bit_add [symmetric], simp add: take_bit_add)

lemma ucast_scast_32: "(ucast (scast (h :: u32) :: u64) :: u32) = h"
  by (intro bit_word_eqI) (auto simp: bit_simps)

lemma ucast_scast_12: "(ucast (scast (x :: 12 word) :: u64) :: u32) = scast x"
  by (intro bit_word_eqI) (auto simp: bit_simps)

lemma ucast_12_small:
  assumes "r < 4096"
  shows "(ucast (ucast (r :: u32) :: 12 word) :: u32) = r"
proof -
  have "r AND mask 12 = r" using assms by (intro less_mask_eq) simp
  moreover have "(ucast (ucast r :: 12 word) :: u32) = r AND mask 12"
    by (intro bit_word_eqI) (auto simp: bit_simps)
  ultimately show ?thesis by simp
qed

lemma ucast_12_minus: "(ucast (r - 4096 :: u32) :: 12 word) = ucast r"
  by transfer (simp add: take_bit_eq_mod mod_mod_cancel)

lemma bit_11_iff:
  assumes "(r :: u32) < 4096"
  shows "bit r 11 \<longleftrightarrow> 2047 < r"
proof
  have r: "r AND mask 12 = r" using assms by (intro less_mask_eq) simp
  assume b: "bit r 11"
  show "2047 < r"
  proof (rule ccontr)
    assume "\<not> 2047 < r"
    then have "r < 2 ^ 11" using word_le_less_eq [of r 2047] by (simp add: not_less word_less_nat_alt word_le_nat_alt)
    then have "r AND mask 11 = r" by (rule less_mask_eq)
    then have "bit (r AND mask 11) 11" using b by simp
    then show False by (simp add: bit_simps)
  qed
next
  assume big: "2047 < r"
  show "bit r 11"
  proof (rule ccontr)
    assume nb: "\<not> bit r 11"
    have r: "r AND mask 12 = r" using assms by (intro less_mask_eq) simp
    have "bit r n \<Longrightarrow> n < 11" for n
      using nb arg_cong [OF r, of "\<lambda>x. bit x n"] by (cases "n = 11") (auto simp: bit_simps)
    then have "r AND mask 11 = r" by (intro bit_word_eqI) (auto simp: bit_simps)
    then have "r < 2 ^ 11" using and_mask_less_size [of 11 r] by (simp add: word_size)
    with big show False by (simp add: word_less_nat_alt)
  qed
qed

lemma split_imm_cases:
  fixes v :: u32
  defines "r \<equiv> v mod 4096"
  shows "split_imm v = (if 2047 < r then (v - r + 4096, r - 4096) else (v - r, r))"
proof -
  have "0xfffff000 = (NOT (2 ^ 12 - 1) :: u32)" by simp
  then have "v AND 0xfffff000 = v - v mod 2 ^ 12" by (simp only: and_page_mask)
  then show ?thesis by (auto simp: split_imm_def r_def Let_def)
qed

text \<open>The pair of immediates is right: the \<open>lui\<close> field leaves the low twelve bits of the instruction
  free, and the sign-extended sum has the constant as its low half.\<close>

lemma split_imm_correct:
  assumes "split_imm v = (hi, lo)"
  shows "take_bit 12 hi = 0"
    and "(ucast (scast hi + scast (ucast lo :: 12 word) :: u64) :: u32) = v"
proof -
  define r where "r = v mod 4096"
  have "unat r < 4096" using unat_mod_pow2 [of v 12] by (simp add: r_def)
  then have r: "r < 4096" by (simp add: word_less_nat_alt)
  have z: "(v - r) AND mask 12 = 0"
  proof -
    have "v - r = v AND NOT (mask 12)"
      using and_page_mask [of v 12] by (simp add: r_def mask_eq_exp_minus_1)
    then show ?thesis by (simp add: and.assoc)
  qed
  have z': "(v - r + 4096) AND mask 12 = 0"
    using mask_eqs(1) [of "v - r" 12 4096] z by (simp add: mask_eq_exp_minus_1)
  show "take_bit 12 hi = 0"
    using assms z z' by (auto simp: split_imm_cases take_bit_eq_mask simp flip: r_def split: if_splits)
  have low: "(ucast lo :: 12 word) = ucast r"
    using assms by (auto simp: split_imm_cases ucast_12_minus simp flip: r_def split: if_splits)
  have "bit (ucast lo :: 12 word) 11 \<longleftrightarrow> 2047 < r"
    unfolding low by (simp add: bit_simps bit_11_iff [OF r])
  then have "scast (ucast lo :: 12 word) = r - (if 2047 < r then 4096 else 0)"
    using ucast_12_small [OF r] by (simp add: scast_12 low)
  then have "scast (ucast lo :: 12 word) + hi = v"
    using assms unfolding split_imm_cases r_def [symmetric] by (auto split: if_splits)
  then show "(ucast (scast hi + scast (ucast lo :: 12 word) :: u64) :: u32) = v"
    by (simp add: ucast_lower ucast_scast_32 ucast_scast_12 add.commute)
qed
end
