(* ===== verification/RV_Run.thy ===== *)
theory RV_Run
  imports Lib_State
begin

text \<open>
  Running machine code that stands in memory: the fetch-decode-execute step of the ISA model,
  its iteration, and the two block lemmas that carry the proofs about the hand-written code, one
  for straight-line register code and one for a run of register spills; at the end, which bytes of
  memory a load or store depends on and changes.
\<close>

section \<open>Fetch, decode, execute\<close>

definition cpu_step :: "machine \<Rightarrow> outcome" where
  "cpu_step s =
     (if allowed (perm s) PROT_EXEC (pc s) 4 then
        (case decode32 (load32 (mem s) (pc s)) of None \<Rightarrow> Illegal s | Some i \<Rightarrow> exec i 4 s)
      else Fault (pc s) s)"

fun cpu_run :: "nat \<Rightarrow> machine \<Rightarrow> outcome" where
  "cpu_run 0 s = Next s"
| "cpu_run (Suc n) s = (case cpu_step s of Next s' \<Rightarrow> cpu_run n s' | out \<Rightarrow> out)"

lemma cpu_run_add:
  "cpu_run (m + n) s = (case cpu_run m s of Next s' \<Rightarrow> cpu_run n s' | out \<Rightarrow> out)"
  by (induction m arbitrary: s) (auto split: outcome.splits)

lemma cpu_run_trans: "cpu_run m s = Next t \<Longrightarrow> cpu_run n t = out \<Longrightarrow> cpu_run (m + n) s = out"
  by (simp add: cpu_run_add)

text \<open>The code \<open>ws\<close> stands at \<open>a\<close> and may be executed.\<close>

definition runnable :: "machine \<Rightarrow> u64 \<Rightarrow> u32 list \<Rightarrow> bool" where
  "runnable s a ws \<longleftrightarrow> code_at (mem s) a ws \<and> allowed (perm s) PROT_EXEC a (4 * length ws)"

lemma runnable_Cons:
  "runnable s a (w # ws) \<longleftrightarrow>
     load32 (mem s) a = w \<and> allowed (perm s) PROT_EXEC a 4 \<and> runnable s (a + 4) ws"
  using allowed_add [of "perm s" PROT_EXEC a 4 "4 * length ws"] by (auto simp: runnable_def)

lemma runnable_append:
  "runnable s a (ws @ vs) \<longleftrightarrow> runnable s a ws \<and> runnable s (a + 4 * of_nat (length ws)) vs"
  using allowed_add [of "perm s" PROT_EXEC a "4 * length ws" "4 * length vs"]
  by (auto simp: runnable_def code_at_append algebra_simps)

lemma runnable_cong:
  "mem s = mem t \<Longrightarrow> perm s = perm t \<Longrightarrow> runnable s a ws = runnable t a ws"
  by (simp add: runnable_def)

text \<open>Code survives a change of memory that stays off it.\<close>

lemma runnable_frame:
  assumes "runnable s a ws" and "perm t = perm s" and "length ws < 2 ^ 32"
    and "\<And>x. in_range a (4 * length ws) x \<Longrightarrow> mem t x = mem s x"
  shows "runnable t a ws"
  using assms code_at_cong [of a ws "mem t" "mem s"] by (auto simp: runnable_def)

lemma runnable_local:
  assumes "runnable s a ws" and "length ws < 2 ^ 32"
    and "\<And>x. in_range a (4 * length ws) x \<Longrightarrow> mem t x = mem s x \<and> perm t x = perm s x"
  shows "runnable t a ws"
  using assms code_at_cong [of a ws "mem t" "mem s"] allowed_cong [of a "4 * length ws" "perm t" "perm s"]
  by (auto simp: runnable_def)

lemma cpu_step_runnable:
  "runnable s (pc s) (w # ws) \<Longrightarrow> decode32 w = Some i \<Longrightarrow> cpu_step s = exec i 4 s"
  by (simp add: cpu_step_def runnable_Cons)

section \<open>Straight-line register code\<close>

fun is_alu :: "instr \<Rightarrow> bool" where
  "is_alu (LUI rd imm) = True"
| "is_alu (ADDI rd rs imm) = True"
| "is_alu (SLLI rd rs sh) = True"
| "is_alu (SRLI rd rs sh) = True"
| "is_alu (ORI rd rs imm) = True"
| "is_alu (ORR rd rs1 rs2) = True"
| "is_alu (ANDR rd rs1 rs2) = True"
| "is_alu i = False"

text \<open>The register file after the instruction.\<close>

fun alu :: "instr \<Rightarrow> machine \<Rightarrow> machine" where
  "alu (LUI rd imm) s = wreg rd imm s"
| "alu (ADDI rd rs imm) s = wreg rd (rreg s rs + imm) s"
| "alu (SLLI rd rs sh) s = wreg rd (push_bit sh (rreg s rs)) s"
| "alu (SRLI rd rs sh) s = wreg rd (drop_bit sh (rreg s rs)) s"
| "alu (ORI rd rs imm) s = wreg rd (rreg s rs OR imm) s"
| "alu (ORR rd rs1 rs2) s = wreg rd (rreg s rs1 OR rreg s rs2) s"
| "alu (ANDR rd rs1 rs2) s = wreg rd (rreg s rs1 AND rreg s rs2) s"
| "alu i s = s"

lemma exec_alu: "is_alu i \<Longrightarrow> exec i n s = Next (advance n (alu i s))"
  by (cases i) auto

lemma alu_sel [simp]:
  "pc (alu i s) = pc s" "mem (alu i s) = mem s" "perm (alu i s) = perm s" "fregs (alu i s) = fregs s"
  by (cases i; simp)+

lemma advance_sel [simp, machine_simps]:
  "pc (advance n s) = pc s + n" "mem (advance n s) = mem s" "perm (advance n s) = perm s"
  "fregs (advance n s) = fregs s" "gregs (advance n s) = gregs s"
  by (simp_all add: advance_def)

lemma rreg_advance [simp, machine_simps]: "rreg (advance n s) r = rreg s r"
  by (simp add: rreg_def)

lemma alu_advance: "alu i (advance n s) = advance n (alu i s)"
  by (cases i) (auto simp: wreg_def advance_def rreg_def)

lemma fold_alu_sel [simp]:
  "pc (fold alu is s) = pc s" "mem (fold alu is s) = mem s" "perm (fold alu is s) = perm s"
  "fregs (fold alu is s) = fregs s"
  by (induction "is" arbitrary: s; simp)+

lemma fold_alu_advance: "fold alu is (advance n s) = advance n (fold alu is s)"
  by (induction "is" arbitrary: s) (simp_all add: alu_advance)

lemma advance_advance [simp]: "advance m (advance n s) = advance (m + n) s"
  by (simp add: advance_def algebra_simps)

lemma advance_0 [simp]: "advance 0 s = s"
  by (simp add: advance_def)

lemma cpu_run_alu:
  assumes "runnable s (pc s) ws" and "map decode32 ws = map Some is" and "list_all is_alu is"
    and "length ws = n"
  shows "cpu_run n s = Next (advance (4 * of_nat n) (fold alu is s))"
  unfolding assms(4) [symmetric] using assms(1-3)
proof (induction ws arbitrary: s "is")
  case Nil
  then show ?case by simp
next
  case (Cons w ws)
  then obtain i is' where "is": "is = i # is'" and i: "decode32 w = Some i" "is_alu i"
    by (cases "is") auto
  let ?s = "advance 4 (alu i s)"
  have "cpu_step s = Next ?s"
    using Cons.prems(1) i by (simp add: cpu_step_runnable exec_alu)
  moreover have "runnable ?s (pc ?s) ws = runnable s (pc s + 4) ws"
    by (simp add: runnable_def)
  then have "cpu_run (length ws) ?s = Next (advance (4 * of_nat (length ws)) (fold alu is' ?s))"
    using Cons.prems "is" by (intro Cons.IH) (auto simp: runnable_Cons)
  ultimately show ?case by (simp add: "is" fold_alu_advance algebra_simps)
qed

lemma rreg_update [simp, machine_simps]:
  "rreg (s\<lparr>mem := m\<rparr>) r = rreg s r" "rreg (s\<lparr>pc := a\<rparr>) r = rreg s r"
  "rreg (s\<lparr>fregs := f\<rparr>) r = rreg s r" "rreg (s\<lparr>perm := p\<rparr>) r = rreg s r"
  by (simp_all add: rreg_def)

section \<open>Register spills\<close>

text \<open>A run of \<open>sd\<close> instructions to offsets from one base register.\<close>

definition spill_instr :: "nat \<Rightarrow> nat \<times> u64 \<Rightarrow> instr" where
  "spill_instr b = (\<lambda>(r, off). STORE SD r b off)"

definition spilled :: "nat \<Rightarrow> (nat \<times> u64) list \<Rightarrow> machine \<Rightarrow> machine" where
  "spilled b xs s =
     s\<lparr>mem := mem64.spill (rreg s b) (map (\<lambda>(r, off). (off, rreg s r)) xs) (mem s)\<rparr>"

lemma spilled_sel [simp]:
  "gregs (spilled b xs s) = gregs s" "fregs (spilled b xs s) = fregs s" "pc (spilled b xs s) = pc s"
  "perm (spilled b xs s) = perm s" "rreg (spilled b xs s) r = rreg s r"
  by (simp_all add: spilled_def rreg_def)

text \<open>Every slot of the list may be written, and lies off the \<open>n\<close> bytes of code at \<open>a\<close>.\<close>

definition slots_writable :: "machine \<Rightarrow> u64 \<Rightarrow> u64 list \<Rightarrow> bool" where
  "slots_writable s base offs \<longleftrightarrow> list_all (\<lambda>off. allowed (perm s) PROT_WRITE (base + off) 8) offs"

definition slots_off :: "u64 \<Rightarrow> u64 list \<Rightarrow> u64 \<Rightarrow> nat \<Rightarrow> bool" where
  "slots_off base offs a n \<longleftrightarrow>
     list_all (\<lambda>off. \<forall>x. in_range a n x \<longrightarrow> \<not> in_range (base + off) 8 x) offs"

lemma slots_off_inner:
  "slots_off base offs a n \<Longrightarrow> unat d + k \<le> n \<Longrightarrow> slots_off base offs (a + d) k"
  by (auto simp: slots_off_def list_all_iff dest: in_range_inner)

lemma exec_spill:
  "allowed (perm s) PROT_WRITE (rreg s b + off) 8 \<Longrightarrow>
   exec (spill_instr b (r, off)) n s = Next (advance n (spilled b [(r, off)] s))"
  by (simp add: spill_instr_def spilled_def Let_def)

lemma spilled_Cons: "spilled b (x # xs) s = spilled b xs (spilled b [x] s)"
  by (cases x) (simp add: spilled_def)

lemma spilled_advance: "spilled b xs (advance n s) = advance n (spilled b xs s)"
  by (simp add: spilled_def advance_def)

lemma spilled_frame:
  assumes "slots_off (rreg s b) (map snd xs) a n" and "in_range a n x"
  shows "mem (spilled b xs s) x = mem s x"
  unfolding spilled_def
  using assms by (fastforce simp: slots_off_def list_all_iff intro!: mem64.spill_frame)

lemma cpu_run_spills:
  assumes "runnable s (pc s) ws" and "map decode32 ws = map (Some \<circ> spill_instr b) xs"
    and "slots_writable s (rreg s b) (map snd xs)"
    and "slots_off (rreg s b) (map snd xs) (pc s) (4 * length ws)" and "length ws < 2 ^ 30"
    and "length ws = n"
  shows "cpu_run n s = Next (advance (4 * of_nat n) (spilled b xs s))"
  unfolding assms(6) [symmetric] using assms(1-5)
proof (induction ws arbitrary: s xs)
  case Nil
  then show ?case by (simp add: spilled_def)
next
  case (Cons w ws)
  then obtain r off xs' where xs: "xs = (r, off) # xs'" and w: "decode32 w = Some (spill_instr b (r, off))"
    by (cases xs) auto
  let ?s = "advance 4 (spilled b [(r, off)] s)"
  have step: "cpu_step s = Next ?s"
    using Cons.prems(1,3) w by (simp add: cpu_step_runnable exec_spill xs slots_writable_def)
  have sub: "in_range (pc s) (4 * length (w # ws)) x" if "in_range (pc s + 4) (4 * length ws) x" for x
    using in_range_add [of 4 "4 * length ws" "pc s" x] that Cons.prems(5) by simp
  have off: "slots_off (rreg s b) (map snd xs) (pc s + 4) (4 * length ws)"
    using Cons.prems(4) sub by (auto simp: slots_off_def list_all_iff)
  have code: "runnable ?s (pc ?s) ws"
  proof (rule runnable_frame)
    show "runnable s (pc ?s) ws" using Cons.prems(1) by (simp add: runnable_Cons)
    show "mem ?s x = mem s x" if "in_range (pc ?s) (4 * length ws) x" for x
      using that off by (auto simp: xs slots_off_def intro: spilled_frame)
  qed (use Cons.prems(5) in auto)
  have "cpu_run (length ws) ?s = Next (advance (4 * of_nat (length ws)) (spilled b xs' ?s))"
    using Cons.prems code off by (intro Cons.IH) (auto simp: xs slots_writable_def slots_off_def)
  with step show ?case
    by (simp add: xs spilled_advance algebra_simps flip: spilled_Cons)
qed

section \<open>The bytes an access depends on\<close>

lemma load_value_cong:
  assumes "\<And>x. in_range a (access_width (LOAD k rd rs off)) x \<Longrightarrow> m x = m' x"
  shows "load_value k m a = load_value k m' a"
  using assms mem8.ld_cong [of a m m'] mem16.ld_cong [of a m m'] mem32.ld_cong [of a m m'] mem64.ld_cong [of a m m']
  by (cases k) auto

lemma fload_value_cong:
  assumes "\<And>x. in_range a (access_width (FLOAD k rd rs off)) x \<Longrightarrow> m x = m' x"
  shows "fload_value k m a = fload_value k m' a"
  using assms mem32.ld_cong [of a m m'] mem64.ld_cong [of a m m'] by (cases k) auto

lemma store_value_frame:
  "\<not> in_range a (access_width (STORE k rs2 rs off)) x \<Longrightarrow> store_value k m a v x = m x"
  "\<not> in_range a (access_width (FSTORE k' rs2 rs off)) x \<Longrightarrow> fstore_value k' m a v x = m x"
  by (cases k; simp add: mem8.st_frame mem16.st_frame mem32.st_frame mem64.st_frame)
     (cases k'; simp add: mem32.st_frame mem64.st_frame)

lemma store_value_cong:
  assumes "m x = m' x"
  shows "store_value k m a v x = store_value k m' a v x" and "fstore_value k' m a v x = fstore_value k' m' a v x"
  by (cases k; simp only: store_value.simps mem8.st_cong [of m x m', OF assms] mem16.st_cong [of m x m', OF assms]
        mem32.st_cong [of m x m', OF assms] mem64.st_cong [of m x m', OF assms])
     (cases k'; simp only: fstore_value.simps mem32.st_cong [of m x m', OF assms] mem64.st_cong [of m x m', OF assms])

lemma access_width_pos: "is_access i \<Longrightarrow> 0 < access_width i"
  by (cases i) (auto split: load_kind.splits fload_kind.splits store_kind.splits fstore_kind.splits)

end
