(* ===== verification/Trampoline.thy ===== *)
theory Trampoline
  imports Patcher RV_Run
begin

text \<open>
  What the code written by \<open>src/patcher.c\<close> does when it runs: the trampoline reaches
  \<open>asm_syscall_hook\<close> with \<open>t0\<close>-\<open>t3\<close> on the stack, the return paths release the frame and go back
  to the patched instruction; and what the set-up functions leave in memory on each branch.
\<close>

section \<open>The trampoline\<close>

lemma join_halves:
  fixes x y :: u64
  shows "push_bit 32 x OR (y AND 0xffffffff) = word_cat (ucast x :: u32) (ucast y :: u32)"
proof -
  have m: "0xffffffff = (mask 32 :: u64)" by (simp add: mask_eq_exp_minus_1)
  show ?thesis unfolding m by (intro bit_word_eqI) (auto simp: bit_simps)
qed

lemma upper_half:
  "(ucast (drop_bit 32 (dst AND 0xffffffff00000000)) :: u32) = ucast (drop_bit 32 (dst :: u64))"
proof -
  have m: "0xffffffff00000000 = (NOT (mask 32) :: u64)" by (simp add: mask_eq_exp_minus_1)
  show ?thesis unfolding m by (intro bit_word_eqI) (auto simp: bit_simps)
qed

definition trampoline_code :: "u32 \<times> u32 \<Rightarrow> u32 \<times> u32 \<Rightarrow> instr list" where
  "trampoline_code up lo =
     [LUI T0 (scast (fst up)), ADDI T0 T0 (scast (ucast (snd up) :: 12 word)), SLLI T0 T0 32,
      LUI T3 (scast (fst lo)), ADDI T3 T3 (scast (ucast (snd lo) :: 12 word)),
      LUI T1 0x7ffff000, ORI T2 0 0x7ff, SLLI T2 T2 1, ORI T2 T2 1, ORR T1 T1 T2,
      SLLI T1 T1 1, ORI T1 T1 1, ANDR T3 T3 T1, ORR T0 T0 T3]"

definition saved_slots :: "(nat \<times> u64) list" where
  "saved_slots = [(T0, 0), (T1, 8), (T2, 16), (T3, 24)]"

definition trampoline_load :: "u64 \<Rightarrow> u32 list" where
  "trampoline_load dst = take 14 (drop 5 (trampoline_words dst))"

lemma trampoline_words_split:
  "trampoline_words dst =
     [0xed010113] @ [0x00513023, 0x00613423, 0x00713823, 0x01c13c23] @ trampoline_load dst @ [0x00028067]"
  by (simp add: trampoline_load_def trampoline_words_def Let_def split: prod.splits)

lemma decode_prologue:
  "map decode32 [0xed010113] = map Some [ADDI SP SP (- 304)]"
  "map decode32 [0x00513023, 0x00613423, 0x00713823, 0x01c13c23] = map (Some \<circ> spill_instr SP) saved_slots"
  by (simp_all add: saved_slots_def spill_instr_def decode_defs)

lemma decode_mask:
  "decode32 0x02029293 = Some (SLLI T0 T0 32)" "decode32 0x7ffff337 = Some (LUI T1 0x7ffff000)"
  "decode32 0x7ff06393 = Some (ORI T2 0 0x7ff)" "decode32 0x00139393 = Some (SLLI T2 T2 1)"
  "decode32 0x0013e393 = Some (ORI T2 T2 1)" "decode32 0x00736333 = Some (ORR T1 T1 T2)"
  "decode32 0x00131313 = Some (SLLI T1 T1 1)" "decode32 0x00136313 = Some (ORI T1 T1 1)"
  "decode32 0x006e7e33 = Some (ANDR T3 T3 T1)" "decode32 0x01c2e2b3 = Some (ORR T0 T0 T3)"
  "decode32 0x00028067 = Some (JALR 0 T0 0)"
  by (simp_all add: decode_defs)

lemma decode_load:
  "map decode32 (trampoline_load dst) =
     map Some (trampoline_code (split_imm (ucast (drop_bit 32 dst))) (split_imm (ucast dst)))"
proof -
  obtain h l where up: "split_imm (ucast (drop_bit 32 dst)) = (h, l)" by fastforce
  obtain h' l' where lo: "split_imm (ucast dst) = (h', l')" by fastforce
  show ?thesis
    unfolding trampoline_load_def trampoline_words_def Let_def upper_half
    using split_imm_correct(1) [OF up] split_imm_correct(1) [OF lo] up lo
    by (simp add: trampoline_code_def decode_lui decode_addi decode_mask)
qed

lemma load_result:
  fixes dst :: u64
  defines "is \<equiv> trampoline_code (split_imm (ucast (drop_bit 32 dst))) (split_imm (ucast dst))"
  shows "rreg (fold alu is s) T0 = dst"
    and "r \<notin> {T0, T1, T2, T3} \<Longrightarrow> rreg (fold alu is s) r = rreg s r"
    and "list_all is_alu is"
proof -
  show "rreg (fold alu is s) T0 = dst"
    using split_imm_correct(2) [of "ucast (drop_bit 32 dst)"] split_imm_correct(2) [of "ucast dst"]
      ucast_halves [where ?'b = 32 and ?'c = 32, of dst]
    by (cases "split_imm (ucast (drop_bit 32 dst))"; cases "split_imm (ucast dst)")
       (simp add: is_def trampoline_code_def machine_simps join_halves)
qed (auto simp: is_def trampoline_code_def machine_simps)

text \<open>The state after the trampoline: \<open>sp\<close> lowered by 304, the saved registers on the stack.\<close>

definition trampoline_mem :: "machine \<Rightarrow> memory" where
  "trampoline_mem s =
     mem64.spill (rreg s SP - 304) (map (\<lambda>(r, off). (off, rreg s r)) saved_slots) (mem s)"

text \<open>The first five: a new frame, and \<open>t0\<close>-\<open>t3\<close> stored in it.\<close>

lemma trampoline_prologue:
  assumes code: "runnable s (pc s) [0xed010113]"
      "runnable s (pc s + 4) [0x00513023, 0x00613423, 0x00713823, 0x01c13c23]"
    and wr: "slots_writable s (rreg s SP - 304) [0, 8, 16, 24]"
    and off: "slots_off (rreg s SP - 304) [0, 8, 16, 24] (pc s) 80"
  defines "t \<equiv> advance 16 (spilled SP saved_slots (advance 4 (wreg SP (rreg s SP - 304) s)))"
  shows "cpu_run 5 s = Next t" and "in_range (pc s) 80 x \<Longrightarrow> mem t x = mem s x" and "mem t = trampoline_mem s"
proof -
  let ?s = "advance 4 (wreg SP (rreg s SP - 304) s)"
  have r1: "cpu_run 1 s = Next ?s"
    using cpu_run_alu [OF code(1) decode_prologue(1)] by simp
  have "runnable ?s (pc ?s) [0x00513023, 0x00613423, 0x00713823, 0x01c13c23]"
    using code(2) by (simp add: runnable_def)
  moreover have "slots_off (rreg s SP - 304) [0, 8, 16, 24] (pc s + 4) 16"
    using off by (rule slots_off_inner) simp
  ultimately have "cpu_run 4 ?s = Next t"
    using cpu_run_spills [of ?s _ SP saved_slots 4, OF _ decode_prologue(2)] wr
    by (simp add: t_def saved_slots_def slots_writable_def machine_simps)
  from cpu_run_trans [OF r1 this] show "cpu_run 5 s = Next t" by simp
  show "mem t x = mem s x" if "in_range (pc s) 80 x" for x
    using spilled_frame [of ?s SP saved_slots "pc s" 80 x] off that
    by (simp add: t_def saved_slots_def machine_simps)
  show "mem t = trampoline_mem s"
    by (simp add: t_def spilled_def trampoline_mem_def saved_slots_def machine_simps)
qed

lemma trampoline_runs:
  assumes code: "runnable s (pc s) (trampoline_words dst)"
    and wr: "slots_writable s (rreg s SP - 304) [0, 8, 16, 24]"
    and off: "slots_off (rreg s SP - 304) [0, 8, 16, 24] (pc s) 80"
  shows "\<exists>t. cpu_run 20 s = Next t \<and> pc t = dst AND NOT 1 \<and> rreg t T0 = dst \<and>
    rreg t SP = rreg s SP - 304 \<and> (\<forall>r. r \<notin> {SP, T0, T1, T2, T3} \<longrightarrow> rreg t r = rreg s r) \<and>
    fregs t = fregs s \<and> perm t = perm s \<and> mem t = trampoline_mem s"
proof -
  let ?s2 = "advance 16 (spilled SP saved_slots (advance 4 (wreg SP (rreg s SP - 304) s)))"
  let ?is = "trampoline_code (split_imm (ucast (drop_bit 32 dst))) (split_imm (ucast dst))"
  let ?s3 = "advance 56 (fold alu ?is ?s2)"
  have lens: "length (trampoline_load dst) = 14"
    by (simp add: trampoline_load_def trampoline_words_def Let_def split: prod.splits)
  have code4: "runnable s (pc s) [0xed010113]"
    "runnable s (pc s + 4) [0x00513023, 0x00613423, 0x00713823, 0x01c13c23]"
    "runnable s (pc s + 20) (trampoline_load dst)" "runnable s (pc s + 76) [0x00028067]"
    using code by (simp_all only: trampoline_words_split runnable_append lens list.size
      add.assoc) (simp_all add: algebra_simps)
  note r1 = trampoline_prologue [OF code4(1,2) wr off]
  have "runnable ?s2 (pc s + 20) (trampoline_load dst)"
    using in_range_inner [of 20 56 80 "pc s"] lens r1(2)
    by (intro runnable_frame [OF code4(3)]) auto
  then have "runnable ?s2 (pc ?s2) (trampoline_load dst)" by (simp add: add.commute)
  then have r3: "cpu_run 14 ?s2 = Next ?s3"
    using cpu_run_alu [OF _ decode_load load_result(3) lens] by simp
  have "runnable ?s2 (pc s + 76) [0x00028067]"
    using in_range_inner [of 76 4 80 "pc s"] r1(2)
    by (intro runnable_frame [OF code4(4)]) auto
  then have "runnable ?s3 (pc ?s3) [0x00028067]" by (simp add: runnable_def add.commute)
  then have r4: "cpu_run 1 ?s3 = Next (?s3\<lparr>pc := dst AND NOT 1\<rparr>)"
    using cpu_step_runnable [OF _ decode_mask(11), of ?s3] load_result(1) [of dst]
    by (simp add: wreg_def)
  have "cpu_run (5 + (14 + 1)) s = Next (?s3\<lparr>pc := dst AND NOT 1\<rparr>)"
    using r1(1) r3 r4 cpu_run_trans by blast
  then have "cpu_run 20 s = Next (?s3\<lparr>pc := dst AND NOT 1\<rparr>)" by simp
  then show ?thesis
    using load_result(1) [of dst ?s2] load_result(2) [of _ dst ?s2] r1(3) by (simp add: machine_simps)
qed

section \<open>The return sequences\<close>

lemma decode_return:
  "decode32 0x12013183 = Some (LOAD LD GP SP 288)" "decode32 0x00013283 = Some (LOAD LD T0 SP 0)"
  "decode32 0x13010113 = Some (ADDI SP SP 304)" "decode32 0x0280006f = Some (JAL 0 40)"
  "decode32 0x00000073 = Some ECALL" "decode32 0x0140006f = Some (JAL 0 20)"
  "decode32 0x000181e7 = Some (JALR GP GP 0)"
  by (simp_all add: decode_defs word_cat_eq)

lemma runnable_drop:
  "runnable s a ws \<Longrightarrow> runnable s (a + 4 * of_nat n) (drop n ws)"
proof (cases "n \<le> length ws")
  case True
  assume "runnable s a ws"
  then have "runnable s a (take n ws @ drop n ws)" by simp
  then show ?thesis using True unfolding runnable_append by simp
qed (simp add: runnable_def allowed_iff)

lemma runnable_take: "runnable s a ws \<Longrightarrow> runnable s a (take n ws)"
  using runnable_append [of s a "take n ws" "drop n ws"] by simp

text \<open>The three instructions every path has: reload \<open>gp\<close> and \<open>t0\<close> and release the frame.\<close>

definition frame_readable :: "machine \<Rightarrow> bool" where
  "frame_readable s \<longleftrightarrow>
     allowed (perm s) PROT_READ (rreg s SP + 288) 8 \<and> allowed (perm s) PROT_READ (rreg s SP) 8"

definition released :: "machine \<Rightarrow> machine" where
  "released s = wreg SP (rreg s SP + 304) (wreg T0 (load64 (mem s) (rreg s SP))
     (wreg GP (load64 (mem s) (rreg s SP + 288)) s))"

lemma released_sel [simp]:
  "mem (released s) = mem s" "perm (released s) = perm s" "pc (released s) = pc s"
  "fregs (released s) = fregs s"
  by (simp_all add: released_def)

lemma rreg_released:
  "rreg (released s) r =
     (if r = SP then rreg s SP + 304 else if r = T0 then load64 (mem s) (rreg s SP)
      else if r = GP then load64 (mem s) (rreg s SP + 288) else rreg s r)"
  by (simp add: released_def machine_simps)

lemma cpu_run_release:
  assumes "runnable s (pc s) [0x12013183, 0x00013283, 0x13010113]" and "frame_readable s"
  shows "cpu_run 3 s = Next (advance 12 (released s))"
proof -
  let ?s1 = "advance 4 (wreg GP (load64 (mem s) (rreg s SP + 288)) s)"
  let ?s2 = "advance 4 (wreg T0 (load64 (mem s) (rreg s SP)) ?s1)"
  have s1: "cpu_step s = Next ?s1"
    using assms by (simp add: cpu_step_runnable decode_return frame_readable_def Let_def)
  have "runnable ?s1 (pc ?s1) [0x00013283, 0x13010113]"
    using assms(1) by (simp add: runnable_Cons) (simp add: runnable_def)
  then have s2: "cpu_step ?s1 = Next ?s2"
    using assms(2) by (simp add: cpu_step_runnable decode_return frame_readable_def Let_def machine_simps)
  have "runnable ?s2 (pc ?s2) [0x13010113]"
    using assms(1) by (simp add: runnable_Cons algebra_simps) (simp add: runnable_def)
  then have s3: "cpu_step ?s2 = Next (advance 12 (released s))"
    by (simp add: cpu_step_runnable decode_return released_def machine_simps)
       (simp add: wreg_def advance_def algebra_simps)
  show ?thesis using s1 s2 s3 by (simp add: eval_nat_numeral)
qed

text \<open>The words of the page from entry \<open>n\<close> on.\<close>

lemma return_entry:
  assumes "runnable s a return_words" and "pc s = a + 4 * of_nat n"
  shows "runnable s (pc s) (drop n return_words)"
  using runnable_drop [OF assms(1), of n] assms(2) by simp

lemma release_entry:
  assumes "runnable s a return_words" and "pc s = a + 4 * of_nat n" and "n \<in> {0, 5, 9}"
  shows "runnable s (pc s) [0x12013183, 0x00013283, 0x13010113]"
  using runnable_take [OF return_entry [OF assms(1,2)], of 3] assms(3)
  by (auto simp: return_words_def)

lemma runnable_released: "runnable (advance n (released s)) a ws = runnable s a ws"
  by (simp add: runnable_def)

text \<open>The last word: jump to the address in \<open>gp\<close>, leaving \<open>gp\<close> pointing past itself.\<close>

lemma return_jump:
  assumes "runnable s a return_words" and "pc s = a + 52"
  shows "cpu_run 1 s = Next ((wreg GP (a + 56) s)\<lparr>pc := rreg s GP AND NOT 1\<rparr>)"
proof -
  have "runnable s (pc s) [0x000181e7]"
    using return_entry [OF assms(1), of 13] assms(2) by (simp add: return_words_def)
  then show ?thesis
    using assms(2) by (simp add: cpu_step_runnable decode_return add.commute)
qed

definition returned :: "u64 \<Rightarrow> machine \<Rightarrow> machine" where
  "returned a s =
     (wreg GP (a + 56) (released s))\<lparr>pc := load64 (mem s) (rreg s SP + 288) AND NOT 1\<rparr>"

lemma returned_sel [simp]:
  "mem (returned a s) = mem s" "perm (returned a s) = perm s" "fregs (returned a s) = fregs s"
  "pc (returned a s) = load64 (mem s) (rreg s SP + 288) AND NOT 1"
  by (simp_all add: returned_def)

lemma rreg_returned:
  "rreg (returned a s) r =
     (if r = GP then a + 56 else if r = SP then rreg s SP + 304
      else if r = T0 then load64 (mem s) (rreg s SP) else rreg s r)"
  by (simp add: returned_def machine_simps rreg_released)

text \<open>The common tail of the first two paths: release the frame, jump to the last word, return.\<close>

lemma return_tail:
  assumes code: "runnable s a return_words" and fr: "frame_readable s"
    and ent: "pc s = a \<or> pc s = a + 20"
  shows "cpu_run 5 s = Next (returned a s)"
proof -
  have words: "runnable s (pc s) [0x12013183, 0x00013283, 0x13010113]"
    using ent release_entry [OF code, of 0] release_entry [OF code, of 5] by auto
  let ?s1 = "advance 12 (released s)"
  have s1: "cpu_run 3 s = Next ?s1" using words fr by (rule cpu_run_release)
  have code1: "runnable ?s1 a return_words" using code by (simp add: runnable_released)
  let ?s2 = "?s1\<lparr>pc := a + 52\<rparr>"
  have s2: "cpu_run 1 ?s1 = Next ?s2"
  proof (cases "pc s = a")
    case True
    then have "runnable ?s1 (pc ?s1) (drop 3 return_words)"
      using return_entry [OF code1, of 3] by simp
    with True show ?thesis
      by (simp add: return_words_def cpu_step_runnable decode_return wreg_def)
  next
    case False
    with ent have "pc s = a + 20" by simp
    then have "runnable ?s1 (pc ?s1) (drop 8 return_words)"
      using return_entry [OF code1, of 8] by simp
    with \<open>pc s = a + 20\<close> show ?thesis
      by (simp add: return_words_def cpu_step_runnable decode_return wreg_def)
  qed
  have "runnable ?s2 a return_words" using code1 by (simp add: runnable_def)
  then have s3: "cpu_run 1 ?s2 = Next (returned a s)"
    using return_jump [of ?s2 a] by (simp add: returned_def rreg_released advance_def wreg_def)
  have "cpu_run (3 + (1 + 1)) s = Next (returned a s)"
    using s1 s2 s3 cpu_run_trans by blast
  then show ?thesis by simp
qed

text \<open>The second path issues the system call first, with the frame still allocated.\<close>

lemma return_ecall:
  assumes "runnable s a return_words" and "pc s = a + 16"
  shows "cpu_run 1 s = Ecall s"
  using return_entry [OF assms(1), of 4] assms(2)
  by (simp add: return_words_def cpu_step_runnable decode_return)

text \<open>The third path issues it last, after the whole context is restored.\<close>

lemma return_clone:
  assumes code: "runnable s a return_words" and fr: "frame_readable s" and ent: "pc s = a + 36"
  shows "cpu_run 4 s = Ecall (advance 12 (released s))"
proof -
  let ?s1 = "advance 12 (released s)"
  have "runnable s (pc s) [0x12013183, 0x00013283, 0x13010113]"
    using ent release_entry [OF code, of 9] by simp
  then have s1: "cpu_run 3 s = Next ?s1" using fr by (rule cpu_run_release)
  have "runnable ?s1 (pc ?s1) (drop 12 return_words)"
    using code ent return_entry [of ?s1 a 12] by (simp add: runnable_released)
  then have "cpu_run 1 ?s1 = Ecall ?s1"
    by (simp add: return_words_def cpu_step_runnable decode_return)
  with s1 have "cpu_run (3 + 1) s = Ecall ?s1" by (rule cpu_run_trans)
  then show ?thesis by simp
qed

section \<open>What the set-up leaves in memory\<close>

lemma unat_ucast_32: "unat (ucast (x :: u32) :: u64) = unat x"
  using unsigned_less [of x, where ?'a = nat] by (simp add: unsigned_ucast_eq take_bit_nat_eq_self_iff)

lemma length_words: "length (trampoline_words dst) = 20" "length return_words = 14"
  by (simp_all add: trampoline_words_def return_words_def Let_def split: prod.splits)

lemma trampoline_mem_slots:
  "map (\<lambda>off. load64 (trampoline_mem s) (rreg s SP - 304 + off)) [0, 8, 16, 24] = map (rreg s) [T0, T1, T2, T3]"
proof -
  have "map (\<lambda>off. load64 (mem64.spill b (map (\<lambda>(r, off). (off, rreg s r)) saved_slots) m) (b + off)) [0, 8, 16, 24] =
      map (rreg s) [T0, T1, T2, T3]" for b m
    by (simp add: saved_slots_def mem64.ld_st mem64.ld_st_separate separate_def)
  then show ?thesis unfolding trampoline_mem_def .
qed

lemma slots_writable_inner:
  "allowed (perm s) PROT_WRITE base n \<Longrightarrow> list_all (\<lambda>off. unat off + 8 \<le> n) offs \<Longrightarrow> slots_writable s base offs"
  by (auto simp: slots_writable_def list_all_iff intro: allowed_inner)

lemma slots_off_separate:
  "separate base n a k \<Longrightarrow> list_all (\<lambda>off. unat off + 8 \<le> n) offs \<Longrightarrow> slots_off base offs a k"
  by (auto simp: slots_off_def list_all_iff dest: separate_disjoint in_range_inner)

lemma trampoline_mem_frame:
  assumes "\<not> in_range (rreg s SP - 304) 32 x"
  shows "trampoline_mem s x = mem s x"
  unfolding trampoline_mem_def
proof (rule mem64.spill_frame)
  fix off v assume "(off, v) \<in> set (map (\<lambda>(r, off). (off, rreg s r)) saved_slots)"
  then have "unat off + 8 \<le> 32" by (auto simp: saved_slots_def)
  then show "\<not> in_range (rreg s SP - 304 + off) 8 x" using assms in_range_inner by blast
qed

lemma setup_shadow_page_trampoline_ok:
  assumes "allowed (perm (cpu g)) PROT_WRITE (relocated_gp (rsi g)) 80"
  shows "setup_shadow_page_trampoline lk g =
    Inr (g\<lparr>cpu := (cpu g)\<lparr>mem := words_memory (relocated_gp (rsi g))
      (trampoline_words (sym_asm_syscall_hook lk)) (mem (cpu g))\<rparr>\<rparr>)"
  using assms by (simp add: setup_shadow_page_trampoline_def poke_words_ok length_words)

lemma setup_return_ok:
  assumes "ret_sequence_page_addr (rsi g) mod page_size g = 0"
    and "allowed (perm (cpu g)) PROT_WRITE (start_addr (rsi g)) 56"
  shows "setup_return os g =
    (let page = ret_sequence_page_addr (rsi g); len = ucast (56 + start_offset (rsi g)) in
     if os_mprotect os page len PROT_EXEC = - 1 then Inl (Exit 1)
     else Inr (g\<lparr>cpu := protect_pages (page_size g) page len PROT_EXEC
       ((cpu g)\<lparr>mem := words_memory (start_addr (rsi g)) return_words (mem (cpu g))\<rparr>)\<rparr>))"
  using assms by (simp add: setup_return_def poke_words_ok length_words Let_def)

text \<open>A run of stores to a range that is not all writable stops with a fault inside the range.\<close>

lemma poke_words_fault:
  assumes "\<not> allowed (perm s) PROT_WRITE a (4 * length ws)" and "length ws < 2 ^ 32"
  shows "\<exists>b. poke_words a ws s = Inl (Segv b) \<and> in_range a (4 * length ws) b"
  using assms
proof (induction ws arbitrary: a s)
  case Nil
  then show ?case by (simp add: allowed_iff)
next
  case (Cons w ws)
  have split: "in_range a (4 * length (w # ws)) x \<longleftrightarrow> in_range a 4 x \<or> in_range (a + 4) (4 * length ws) x"
    for x using in_range_add [of 4 "4 * length ws" a x] Cons.prems by simp
  have allow: "allowed (perm s) PROT_WRITE a (4 * length (w # ws)) \<longleftrightarrow>
      allowed (perm s) PROT_WRITE a 4 \<and> allowed (perm s) PROT_WRITE (a + 4) (4 * length ws)"
    using allowed_add [of "perm s" PROT_WRITE a 4 "4 * length ws"] by simp
  show ?case
  proof (cases "allowed (perm s) PROT_WRITE a 4")
    case True
    with Cons.IH [of "s\<lparr>mem := store32 (mem s) a w\<rparr>" "a + 4"] Cons.prems show ?thesis
      unfolding allow split by (auto simp: poke32_def)
  next
    case False
    have "in_range a (4 * length (w # ws)) a" unfolding split by (simp add: in_range_base)
    with False show ?thesis by (auto simp: poke32_def)
  qed
qed

lemma setup_return_Inr:
  assumes "setup_return os g = Inr g'"
  shows "ret_sequence_page_addr (rsi g) mod page_size g = 0"
    and "allowed (perm (cpu g)) PROT_WRITE (start_addr (rsi g)) 56"
    and "g' = g\<lparr>cpu := protect_pages (page_size g) (ret_sequence_page_addr (rsi g))
       (ucast (56 + start_offset (rsi g))) PROT_EXEC
       ((cpu g)\<lparr>mem := words_memory (start_addr (rsi g)) return_words (mem (cpu g))\<rparr>)\<rparr>"
proof -
  show al: "ret_sequence_page_addr (rsi g) mod page_size g = 0"
    using assms by (auto simp: setup_return_def Let_def split: if_splits)
  show w: "allowed (perm (cpu g)) PROT_WRITE (start_addr (rsi g)) 56"
  proof (rule ccontr)
    assume "\<not> ?thesis"
    then obtain b where "poke_words (start_addr (rsi g)) return_words (cpu g) = Inl (Segv b)"
      using poke_words_fault [of "cpu g" "start_addr (rsi g)" return_words] by (auto simp: length_words)
    with assms al show False by (simp add: setup_return_def Let_def)
  qed
  show "g' = g\<lparr>cpu := protect_pages (page_size g) (ret_sequence_page_addr (rsi g))
       (ucast (56 + start_offset (rsi g))) PROT_EXEC
       ((cpu g)\<lparr>mem := words_memory (start_addr (rsi g)) return_words (mem (cpu g))\<rparr>)\<rparr>"
    using assms setup_return_ok [OF al w, of os] by (auto simp: Let_def split: if_splits)
qed

section \<open>Properties\<close>

text \<open>C17: the code \<open>setup_shadow_page_trampoline\<close> writes, run from the relocated global pointer, takes
  20 instructions to reach \<open>asm_syscall_hook\<close>, whatever its 64-bit address is: the stack pointer is
  304 bytes lower, \<open>t0\<close>-\<open>t3\<close> are in the four lowest slots, memory is otherwise unchanged, and no
  other register is touched.\<close>

theorem trampoline_enters_hook:
  assumes "setup_shadow_page_trampoline lk g = Inr g'"
    and "allowed (perm (cpu g)) PROT_WRITE (relocated_gp (rsi g)) 80"
    and "mem s = mem (cpu g')" and "pc s = relocated_gp (rsi g)"
    and "allowed (perm s) PROT_EXEC (relocated_gp (rsi g)) 80"
    and "allowed (perm s) PROT_WRITE (rreg s SP - 304) 32"
    and "separate (rreg s SP - 304) 32 (relocated_gp (rsi g)) 80"
  shows "\<exists>t. cpu_run 20 s = Next t \<and> pc t = sym_asm_syscall_hook lk AND NOT 1 \<and>
    rreg t SP = rreg s SP - 304 \<and>
    map (\<lambda>off. load64 (mem t) (rreg t SP + off)) [0, 8, 16, 24] = map (rreg s) [T0, T1, T2, T3] \<and>
    (\<forall>x. \<not> in_range (rreg s SP - 304) 32 x \<longrightarrow> mem t x = mem s x) \<and>
    (\<forall>r. r \<notin> {SP, T0, T1, T2, T3} \<longrightarrow> rreg t r = rreg s r) \<and> fregs t = fregs s \<and> perm t = perm s"
proof -
  have "mem s = words_memory (pc s) (trampoline_words (sym_asm_syscall_hook lk)) (mem (cpu g))"
    using assms(1,3,4) setup_shadow_page_trampoline_ok [OF assms(2)] by auto
  then have code: "runnable s (pc s) (trampoline_words (sym_asm_syscall_hook lk))"
    using code_at_words_memory assms(4,5) by (simp add: runnable_def length_words)
  have "slots_writable s (rreg s SP - 304) [0, 8, 16, 24]"
    by (rule slots_writable_inner [OF assms(6)]) simp
  moreover have "slots_off (rreg s SP - 304) [0, 8, 16, 24] (pc s) 80"
    unfolding assms(4) by (rule slots_off_separate [OF assms(7)]) simp
  ultimately show ?thesis
    using trampoline_runs [OF code] trampoline_mem_slots [of s] trampoline_mem_frame [of s] by auto
qed

text \<open>C25: when \<open>setup_return\<close> succeeds, the fourteen words of the three return paths stand at
  \<open>start_addr\<close>, no other byte of memory has changed, and every page from the start of the mapping
  to the end of the sequence can be executed and neither read nor written.\<close>

theorem setup_return_seals:
  assumes "setup_return os g = Inr g'"
  shows "code_at (mem (cpu g')) (start_addr (rsi g)) return_words \<and>
    (\<forall>x. \<not> in_range (start_addr (rsi g)) 56 x \<longrightarrow> mem (cpu g') x = mem (cpu g) x) \<and>
    (\<forall>x. perm (cpu g') x =
      (if in_range (ret_sequence_page_addr (rsi g))
            (round_up (unat (page_size g)) (unat (56 + start_offset (rsi g)))) x
       then PROT_EXEC else perm (cpu g) x)) \<and>
    rsi g' = rsi g"
  using setup_return_Inr(3) [OF assms] code_at_words_memory words_memory_frame
  by (simp add: protect_pages_def set_prot_def length_words unat_ucast_32)

text \<open>C32: \<open>setup_return\<close> never returns on a bad layout: the assertion aborts when the page address is
  not aligned, a range that is not all writable faults inside the 56 bytes, and a failing
  \<open>mprotect\<close> exits with status 1.\<close>

theorem setup_return_fails:
  "(ret_sequence_page_addr (rsi g) mod page_size g \<noteq> 0 \<longrightarrow> setup_return os g = Inl Abort) \<and>
   (ret_sequence_page_addr (rsi g) mod page_size g = 0 \<longrightarrow>
     \<not> allowed (perm (cpu g)) PROT_WRITE (start_addr (rsi g)) 56 \<longrightarrow>
     (\<exists>b. setup_return os g = Inl (Segv b) \<and> in_range (start_addr (rsi g)) 56 b)) \<and>
   (ret_sequence_page_addr (rsi g) mod page_size g = 0 \<longrightarrow>
     allowed (perm (cpu g)) PROT_WRITE (start_addr (rsi g)) 56 \<longrightarrow>
     os_mprotect os (ret_sequence_page_addr (rsi g)) (ucast (56 + start_offset (rsi g))) PROT_EXEC = - 1 \<longrightarrow>
     setup_return os g = Inl (Exit 1))"
proof (intro conjI impI)
  assume "ret_sequence_page_addr (rsi g) mod page_size g \<noteq> 0"
  then show "setup_return os g = Inl Abort" by (simp add: setup_return_def Let_def)
next
  assume "ret_sequence_page_addr (rsi g) mod page_size g = 0"
    and "\<not> allowed (perm (cpu g)) PROT_WRITE (start_addr (rsi g)) 56"
  then show "\<exists>b. setup_return os g = Inl (Segv b) \<and> in_range (start_addr (rsi g)) 56 b"
    using poke_words_fault [of "cpu g" "start_addr (rsi g)" return_words]
    by (auto simp: setup_return_def Let_def length_words)
next
  assume al: "ret_sequence_page_addr (rsi g) mod page_size g = 0"
    and w: "allowed (perm (cpu g)) PROT_WRITE (start_addr (rsi g)) 56"
    and f: "os_mprotect os (ret_sequence_page_addr (rsi g)) (ucast (56 + start_offset (rsi g))) PROT_EXEC = - 1"
  show "setup_return os g = Inl (Exit 1)"
    using setup_return_ok [OF al w, of os] f by (simp add: Let_def)
qed

section \<open>Instances\<close>

text \<open>The library as \<open>allocate_ret_sequence_page\<close> leaves it, with everything accessible, and a machine
  whose stack pointer is at \<open>0x8000\<close>.\<close>

definition sample_open :: lib where
  "sample_open =
     (let g = sample_allocated 0x50800 in g\<lparr>cpu := (cpu g)\<lparr>perm := (\<lambda>_. 7)\<rparr>\<rparr>)"

lemma sample_open_sel [simp]:
  "perm (cpu sample_open) = (\<lambda>_. 7)" "relocated_gp (rsi sample_open) = 0x40000800"
  "start_addr (rsi sample_open) = 0x400007c8" "start_offset (rsi sample_open) = 0x7c8"
  "ret_sequence_page_addr (rsi sample_open) = 0x40000000" "page_size sample_open = 0x1000"
  using sample_allocated [of "0x50800"]
  by (auto simp: sample_open_def Let_def allocate_ret_sequence_page_ok sample_os_def sample_lib_def
      define_ret_sequence_info_def)

theorem trampoline_enters_hook_witness:
  "\<exists>g' s t. setup_shadow_page_trampoline sample_link sample_open = Inr g' \<and> mem s = mem (cpu g') \<and>
     cpu_run 20 s = Next t \<and> pc t = 0x123456789abc \<and> rreg t SP = 0x7ed0"
proof -
  obtain g' where g': "setup_shadow_page_trampoline sample_link sample_open = Inr g'"
    using setup_shadow_page_trampoline_ok [of sample_open] by (auto simp: allowed_all)
  define s where "s = (cpu g')\<lparr>gregs := (\<lambda>_. 0x8000), pc := 0x40000800, perm := (\<lambda>_. 7)\<rparr>"
  have s: "rreg s SP = 0x8000" "pc s = 0x40000800" "perm s = (\<lambda>_. 7)" "mem s = mem (cpu g')"
    by (simp_all add: s_def rreg_def)
  then obtain t where "cpu_run 20 s = Next t" "pc t = sym_asm_syscall_hook sample_link AND NOT 1"
      "rreg t SP = rreg s SP - 304"
    using trampoline_enters_hook [OF g', of s] by (auto simp: allowed_all separate_def)
  with g' s show ?thesis by (auto simp: sample_link_def)
qed

theorem setup_return_seals_witness:
  "\<exists>g'. setup_return sample_os sample_open = Inr g' \<and>
     code_at (mem (cpu g')) 0x400007c8 return_words \<and> perm (cpu g') 0x40000fff = PROT_EXEC"
proof -
  obtain g' where g': "setup_return sample_os sample_open = Inr g'"
    using setup_return_ok [of sample_open sample_os] by (auto simp: allowed_all sample_os_def Let_def)
  with setup_return_seals [OF g'] show ?thesis
    by (auto simp: in_range_def round_up_def)
qed

theorem setup_return_fails_witness:
  "setup_return (sample_os\<lparr>os_mprotect := (\<lambda>_ _ _. - 1)\<rparr>) sample_open = Inl (Exit 1)"
  using setup_return_fails [of sample_open "sample_os\<lparr>os_mprotect := (\<lambda>_ _ _. - 1)\<rparr>"]
  by (simp add: allowed_all)

end
