(* ===== verification/Syscall_Entry.thy ===== *)
theory Syscall_Entry
  imports RV_Run
begin

text \<open>
  The interception entry of \<open>src/main.c\<close>: the inline assembly of \<open>____asm_impl\<close>, that is
  \<open>syscall_no_intercept\<close> and \<open>asm_syscall_hook\<close>, and the C function \<open>syscall_hook\<close> that the
  latter calls. The assembly is kept as a program of the assembler's own operations, with its
  labels; running it ends when it leaves through \<open>jalr zero, t0, 0\<close>.

  The user's hook, what compiled C code leaves in registers it need not preserve, and what it
  leaves in its own stack frame are parameters.
\<close>

section \<open>The C function syscall_hook\<close>

text \<open>
  A hook gets the memory, the system call number, the six arguments and the (uninitialised)
  value of the local \<open>result\<close> it is given a pointer to, and yields the memory, the value of
  \<open>result\<close> and the \<open>int\<close> it returns. \<open>hfn\<close> is the global \<open>hook_fn\<close>, \<open>0\<close> for \<open>NULL\<close>.
\<close>

type_synonym hook = "memory \<Rightarrow> u64 \<Rightarrow> u64 list \<Rightarrow> u64 \<Rightarrow> memory \<times> u64 \<times> u32"

record wrapper_ret =
  ret_a0 :: u64
  ret_a1 :: u64

definition syscall_hook ::
  "(u64 \<Rightarrow> hook) \<Rightarrow> u64 \<Rightarrow> u64 \<Rightarrow> memory \<Rightarrow> u64 \<Rightarrow> u64 \<Rightarrow> u64 \<Rightarrow> u64 \<Rightarrow> u64 \<Rightarrow> u64 \<Rightarrow> u64 \<Rightarrow> u64
    \<Rightarrow> memory \<times> wrapper_ret" where
  "syscall_hook hooks hfn result m a0 a1 a2 a3 a4 a5 a6_ra a7 =
     (if hfn = 0 then (m, \<lparr>ret_a0 = a0, ret_a1 = 0\<rparr>)
      else
        let (m', result', ret) = hooks hfn m a7 [a0, a1, a2, a3, a4, a5] result;
            forward_to_kernel = (ret \<noteq> 0)
        in if forward_to_kernel then (m', \<lparr>ret_a0 = a0, ret_a1 = 0\<rparr>)
           else (m', \<lparr>ret_a0 = result', ret_a1 = 1\<rparr>))"

section \<open>Calling C from assembly\<close>

text \<open>
  The RISC-V calling convention: the callee preserves \<open>sp\<close>, \<open>gp\<close>, \<open>tp\<close> and \<open>s0\<close>-\<open>s11\<close> and, of
  the floating-point registers, \<open>fs0\<close>-\<open>fs11\<close>; the two words of a \<open>struct wrapper_ret\<close> come back
  in \<open>a0\<close> and \<open>a1\<close>; every other register holds whatever the compiled code left there.
\<close>

definition callee_saved :: "nat \<Rightarrow> bool" where
  "callee_saved r \<longleftrightarrow> r \<in> {2, 3, 4, 8, 9} \<union> {18..27}"

definition callee_saved_f :: "nat \<Rightarrow> bool" where
  "callee_saved_f r \<longleftrightarrow> r \<in> {8, 9} \<union> {18..27}"

record hook_env =
  env_rgp_addr :: u64
  env_hooks :: "u64 \<Rightarrow> hook"
  env_hook_fn :: u64
  env_result :: u64
  env_scratch :: "nat \<Rightarrow> u64"
  env_fscratch :: "nat \<Rightarrow> u64"
  env_frame :: "u64 \<Rightarrow> memory \<Rightarrow> memory"

definition hook_outcome :: "hook_env \<Rightarrow> machine \<Rightarrow> memory \<times> wrapper_ret" where
  "hook_outcome env s =
     syscall_hook (env_hooks env) (env_hook_fn env) (env_result env) (mem s)
       (rreg s A0) (rreg s A1) (rreg s A2) (rreg s A3) (rreg s A4) (rreg s A5) (rreg s A6) (rreg s A7)"

definition call_syscall_hook :: "hook_env \<Rightarrow> machine \<Rightarrow> machine" where
  "call_syscall_hook env s =
     (let (m, w) = hook_outcome env s
      in s\<lparr>mem := env_frame env (rreg s SP) m,
           gregs := (\<lambda>r. if r = A0 then ret_a0 w else if r = A1 then ret_a1 w
                         else if callee_saved r then gregs s r else env_scratch env r),
           fregs := (\<lambda>r. if callee_saved_f r then fregs s r else env_fscratch env r)\<rparr>)"

section \<open>The assembly\<close>

datatype label = handled_ecall | return_prelude | do_clone | do_rt_sigreturn

datatype asm =
    Ins instr
  | La_relocated_global_pointer nat
  | Li nat u64
  | Mv nat nat
  | Beq nat nat label
  | Beqz nat label
  | J label
  | Call_syscall_hook
  | Lbl label

abbreviation (input) "sd r off b \<equiv> Ins (STORE SD r b off)"
abbreviation (input) "ld r off b \<equiv> Ins (LOAD LD r b off)"
abbreviation (input) "fsd r off b \<equiv> Ins (FSTORE FSD r b off)"
abbreviation (input) "fl_d r off b \<equiv> Ins (FLOAD FLD r b off)"

definition save_context :: "asm list" where
  "save_context =
     [sd RA 32 SP, sd A1 40 SP, sd A2 48 SP, sd A3 56 SP, sd A4 64 SP, sd A5 72 SP, sd A6 80 SP,
      sd A7 88 SP, sd T4 96 SP, sd T5 104 SP, sd T6 112 SP,
      fsd 10 120 SP, fsd 11 128 SP, fsd 12 136 SP, fsd 13 144 SP, fsd 14 152 SP, fsd 15 160 SP,
      fsd 16 168 SP, fsd 17 176 SP,
      fsd 0 184 SP, fsd 1 192 SP, fsd 2 200 SP, fsd 3 208 SP, fsd 4 216 SP, fsd 5 224 SP,
      fsd 6 232 SP, fsd 7 240 SP, fsd 28 248 SP, fsd 29 256 SP, fsd 30 264 SP, fsd 31 272 SP]"

definition restore_context :: "asm list" where
  "restore_context =
     [ld T1 8 SP, ld T2 16 SP, ld T3 24 SP,
      ld RA 32 SP, ld A1 40 SP, ld A2 48 SP, ld A3 56 SP, ld A4 64 SP, ld A5 72 SP, ld A6 80 SP,
      ld A7 88 SP, ld T4 96 SP, ld T5 104 SP, ld T6 112 SP,
      fl_d 10 120 SP, fl_d 11 128 SP, fl_d 12 136 SP, fl_d 13 144 SP, fl_d 14 152 SP, fl_d 15 160 SP,
      fl_d 16 168 SP, fl_d 17 176 SP,
      fl_d 0 184 SP, fl_d 1 192 SP, fl_d 2 200 SP, fl_d 3 208 SP, fl_d 4 216 SP, fl_d 5 224 SP,
      fl_d 6 232 SP, fl_d 7 240 SP, fl_d 28 248 SP, fl_d 29 256 SP, fl_d 30 264 SP, fl_d 31 272 SP]"

text \<open>The code after the restores: the choice of the return path by the verdict and the number of the
  call, and the way of \<open>rt_sigreturn\<close>, which joins it.\<close>

definition return_dispatch :: "asm list" where
  "return_dispatch =
     [Beqz T0 return_prelude, Ins (SRLI T0 T0 1), Beqz T0 handled_ecall, Ins EBREAK,
      Lbl handled_ecall,
      La_relocated_global_pointer T0, ld T0 0 T0, Ins (ADDI T0 T0 (- 56)), Ins (JALR 0 T0 0),
      Lbl return_prelude,
      Li T0 220, Beq A7 T0 do_clone, Li T0 435, Beq A7 T0 do_clone,
      La_relocated_global_pointer T0, ld T0 0 T0, Ins (ADDI T0 T0 (- 40)), Ins (JALR 0 T0 0),
      Lbl do_clone,
      La_relocated_global_pointer T0, ld T0 0 T0, Ins (ADDI T0 T0 (- 20)), Ins (JALR 0 T0 0),
      Lbl do_rt_sigreturn,
      ld T1 8 SP, ld T2 16 SP, ld T3 24 SP, J return_prelude]"

definition asm_syscall_hook :: "asm list" where
  "asm_syscall_hook =
     [sd GP 288 SP, Mv T1 GP, La_relocated_global_pointer T0, ld GP 0 T0,
      Li T0 139, Beq A7 T0 do_rt_sigreturn]
     @ save_context
     @ [Mv A6 T1, Call_syscall_hook, Mv T0 A1]
     @ restore_context
     @ return_dispatch"

text \<open>
  \<open>syscall_no_intercept\<close>: the C arguments \<open>a0\<close>-\<open>a6\<close> moved to \<open>a7\<close> and \<open>a0\<close>-\<open>a5\<close>, then
  \<open>ecall\<close> and \<open>ret\<close>.
\<close>

definition syscall_no_intercept :: "asm list" where
  "syscall_no_intercept =
     [Mv A7 A0, Mv A0 A1, Mv A1 A2, Mv A2 A3, Mv A3 A4, Mv A4 A5, Mv A5 A6, Ins ECALL, Ins (JALR 0 RA 0)]"

text \<open>
  \<open>Leave s\<close>: the code jumped out to \<open>pc s\<close>. \<open>Asm_ecall s rest\<close>: an environment call, with the
  code that follows it. Fuel bounds the number of operations; the code has no loop.
\<close>

datatype asm_out =
    Leave machine | Asm_ecall machine "asm list" | Asm_break machine | Asm_fault u64 machine
  | Asm_stuck | Out_of_fuel

definition target :: "asm list \<Rightarrow> label \<Rightarrow> asm list" where
  "target prog l = dropWhile (\<lambda>i. i \<noteq> Lbl l) prog"

text \<open>One operation: \<open>Inl\<close> the code to run next and the state, or \<open>Inr\<close> how the code stops.\<close>

fun asm_step :: "hook_env \<Rightarrow> asm list \<Rightarrow> asm list \<Rightarrow> machine \<Rightarrow> (asm list \<times> machine) + asm_out" where
  "asm_step env prog [] s = Inr Asm_stuck"
| "asm_step env prog (Ins (JALR rd rs off) # rest) s =
     Inr (if rd = 0 then Leave (s\<lparr>pc := (rreg s rs + off) AND NOT 1\<rparr>) else Asm_stuck)"
| "asm_step env prog (Ins i # rest) s =
     (case exec i 0 s of
        Next s' \<Rightarrow> Inl (rest, s')
      | Ecall s' \<Rightarrow> Inr (Asm_ecall s' rest)
      | Break s' \<Rightarrow> Inr (Asm_break s')
      | Fault a s' \<Rightarrow> Inr (Asm_fault a s')
      | Illegal s' \<Rightarrow> Inr Asm_stuck)"
| "asm_step env prog (La_relocated_global_pointer r # rest) s = Inl (rest, wreg r (env_rgp_addr env) s)"
| "asm_step env prog (Li r v # rest) s = Inl (rest, wreg r v s)"
| "asm_step env prog (Mv r q # rest) s = Inl (rest, wreg r (rreg s q) s)"
| "asm_step env prog (Beq r q l # rest) s = Inl (if rreg s r = rreg s q then target prog l else rest, s)"
| "asm_step env prog (Beqz r l # rest) s = Inl (if rreg s r = 0 then target prog l else rest, s)"
| "asm_step env prog (J l # rest) s = Inl (target prog l, s)"
| "asm_step env prog (Call_syscall_hook # rest) s = Inl (rest, call_syscall_hook env s)"
| "asm_step env prog (Lbl l # rest) s = Inl (rest, s)"

fun asm_run :: "hook_env \<Rightarrow> asm list \<Rightarrow> nat \<Rightarrow> asm list \<Rightarrow> machine \<Rightarrow> asm_out" where
  "asm_run env prog 0 rest s = Out_of_fuel"
| "asm_run env prog (Suc n) rest s =
     (case asm_step env prog rest s of Inl (rest', s') \<Rightarrow> asm_run env prog n rest' s' | Inr out \<Rightarrow> out)"

section \<open>Running the saves and the restores\<close>

text \<open>A slot of the frame: whether it holds a floating-point register, the register, the offset.\<close>

type_synonym slot = "bool \<times> nat \<times> u64"

definition save_op :: "slot \<Rightarrow> asm" where
  "save_op = (\<lambda>(fp, r, off). if fp then fsd r off SP else sd r off SP)"

definition restore_op :: "slot \<Rightarrow> asm" where
  "restore_op = (\<lambda>(fp, r, off). if fp then fl_d r off SP else ld r off SP)"

definition slot_value :: "machine \<Rightarrow> slot \<Rightarrow> u64" where
  "slot_value s = (\<lambda>(fp, r, off). if fp then fregs s r else rreg s r)"

definition slot_off :: "slot \<Rightarrow> u64" where
  "slot_off = (\<lambda>(fp, r, off). off)"

definition saves :: "slot list \<Rightarrow> machine \<Rightarrow> machine" where
  "saves xs s =
     s\<lparr>mem := mem64.spill (rreg s SP) (map (\<lambda>x. (slot_off x, slot_value s x)) xs) (mem s)\<rparr>"

definition restore :: "slot \<Rightarrow> machine \<Rightarrow> machine" where
  "restore = (\<lambda>(fp, r, off) s. let v = load64 (mem s) (rreg s SP + off) in
     if fp then wfreg r v s else wreg r v s)"

lemma saves_sel [simp]:
  "gregs (saves xs s) = gregs s" "fregs (saves xs s) = fregs s" "pc (saves xs s) = pc s"
  "perm (saves xs s) = perm s" "rreg (saves xs s) r = rreg s r"
  by (simp_all add: saves_def)

lemma saves_Cons: "saves (x # xs) s = saves xs (saves [x] s)"
proof -
  have "slot_value (saves [x] s) = slot_value s" by (auto simp: slot_value_def)
  then show ?thesis by (simp add: saves_def)
qed

lemma asm_step_save:
  "allowed (perm s) PROT_WRITE (rreg s SP + slot_off x) 8 \<Longrightarrow>
   asm_step env prog (save_op x # rest) s = Inl (rest, saves [x] s)"
  by (cases x) (auto simp: save_op_def saves_def slot_off_def slot_value_def Let_def)

lemma asm_run_saves:
  assumes "\<forall>x \<in> set xs. allowed (perm s) PROT_WRITE (rreg s SP + slot_off x) 8"
  shows "asm_run env prog (length xs + n) (map save_op xs @ rest) s = asm_run env prog n rest (saves xs s)"
  using assms
proof (induction xs arbitrary: s)
  case Nil
  then show ?case by (simp add: saves_def)
next
  case (Cons x xs)
  then show ?case by (simp add: asm_step_save saves_Cons [of x xs])
qed

lemma asm_step_restore:
  "allowed (perm s) PROT_READ (rreg s SP + slot_off x) 8 \<Longrightarrow>
   asm_step env prog (restore_op x # rest) s = Inl (rest, restore x s)"
  by (cases x) (auto simp: restore_op_def restore_def slot_off_def Let_def)

text \<open>Slots that do not hold the base register.\<close>

definition slot_ok :: "slot \<Rightarrow> bool" where
  "slot_ok = (\<lambda>(fp, r, off). fp \<or> r \<noteq> SP \<and> r \<noteq> 0)"

lemma restore_sel [simp]:
  "mem (restore x s) = mem s" "perm (restore x s) = perm s" "pc (restore x s) = pc s"
  "slot_ok x \<Longrightarrow> rreg (restore x s) SP = rreg s SP"
  by (auto simp: restore_def slot_ok_def Let_def machine_simps rreg_def wreg_def split: prod.splits)

lemma asm_run_restores:
  assumes "\<forall>x \<in> set xs. allowed (perm s) PROT_READ (rreg s SP + slot_off x) 8 \<and> slot_ok x"
  shows "asm_run env prog (length xs + n) (map restore_op xs @ rest) s =
    asm_run env prog n rest (fold restore xs s)"
  using assms
  by (induction xs arbitrary: s) (simp_all add: asm_step_restore)

lemma fold_restore_sel [simp]:
  "mem (fold restore xs s) = mem s" "perm (fold restore xs s) = perm s"
  "pc (fold restore xs s) = pc s"
  by (induction xs arbitrary: s; simp)+

lemma fold_restore_SP: "list_all slot_ok xs \<Longrightarrow> rreg (fold restore xs s) SP = rreg s SP"
  by (induction xs arbitrary: s) auto

text \<open>After the restores a register holds its slot, and one without a slot is untouched.\<close>

definition slot_reg :: "slot \<Rightarrow> bool \<times> nat" where
  "slot_reg = (\<lambda>(fp, r, off). (fp, r))"

definition reg_value :: "machine \<Rightarrow> bool \<times> nat \<Rightarrow> u64" where
  "reg_value s = (\<lambda>(fp, r). if fp then fregs s r else rreg s r)"

lemma reg_value_restore:
  "slot_ok x \<Longrightarrow> reg_value (restore x s) q =
     (if q = slot_reg x then load64 (mem s) (rreg s SP + slot_off x) else reg_value s q)"
  by (cases x; cases q)
     (auto simp: reg_value_def restore_def slot_reg_def slot_off_def slot_ok_def Let_def machine_simps rreg_def wreg_def)

lemma reg_value_restores_other:
  "list_all slot_ok xs \<Longrightarrow> q \<notin> slot_reg ` set xs \<Longrightarrow> reg_value (fold restore xs s) q = reg_value s q"
  by (induction xs arbitrary: s) (auto simp: reg_value_restore)

lemma reg_value_restores:
  assumes "list_all slot_ok xs" and "distinct (map slot_reg xs)" and "x \<in> set xs"
  shows "reg_value (fold restore xs s) (slot_reg x) = load64 (mem s) (rreg s SP + slot_off x)"
  using assms
proof (induction xs arbitrary: s)
  case Nil
  then show ?case by simp
next
  case (Cons y ys)
  show ?case
  proof (cases "x = y")
    case True
    with Cons.prems have "slot_reg x \<notin> slot_reg ` set ys" by auto
    with True Cons.prems show ?thesis
      by (simp add: reg_value_restores_other reg_value_restore)
  next
    case False
    with Cons show ?thesis by auto
  qed
qed

definition save_slots :: "slot list" where
  "save_slots =
     [(False, RA, 32), (False, A1, 40), (False, A2, 48), (False, A3, 56), (False, A4, 64),
      (False, A5, 72), (False, A6, 80), (False, A7, 88), (False, T4, 96), (False, T5, 104),
      (False, T6, 112), (True, 10, 120), (True, 11, 128), (True, 12, 136), (True, 13, 144),
      (True, 14, 152), (True, 15, 160), (True, 16, 168), (True, 17, 176), (True, 0, 184),
      (True, 1, 192), (True, 2, 200), (True, 3, 208), (True, 4, 216), (True, 5, 224),
      (True, 6, 232), (True, 7, 240), (True, 28, 248), (True, 29, 256), (True, 30, 264),
      (True, 31, 272)]"

definition trampoline_slots :: "slot list" where
  "trampoline_slots = [(False, T1, 8), (False, T2, 16), (False, T3, 24)]"

lemma save_context_slots: "save_context = map save_op save_slots"
  by (simp add: save_context_def save_slots_def save_op_def)

lemma restore_context_slots: "restore_context = map restore_op (trampoline_slots @ save_slots)"
  by (simp add: restore_context_def save_slots_def trampoline_slots_def restore_op_def)

lemma slots_bounds: "x \<in> set (trampoline_slots @ save_slots) \<Longrightarrow> unat (slot_off x) + 8 \<le> 304 \<and> slot_ok x"
  by (auto simp: trampoline_slots_def save_slots_def slot_off_def slot_ok_def)

lemma slots_distinct: "distinct (map slot_reg (trampoline_slots @ save_slots))"
  by (simp add: trampoline_slots_def save_slots_def slot_reg_def)

lemma slot_offs:
  "map slot_off save_slots =
     [32, 40, 48, 56, 64, 72, 80, 88, 96, 104, 112, 120, 128, 136, 144, 152, 160, 168, 176, 184,
      192, 200, 208, 216, 224, 232, 240, 248, 256, 264, 272]"
  by (simp add: save_slots_def slot_off_def)

lemma frame_slots_ok: "mem64.slots_ok (288 # map slot_off save_slots)"
  by (simp add: slot_offs separate_def)

lemma trampoline_slots_separate:
  "off \<in> {0, 8, 16, 24} \<Longrightarrow> list_all (\<lambda>o'. separate off 8 o' 8) (288 # map slot_off save_slots)"
  by (auto simp: slot_offs separate_def)

section \<open>Running asm_syscall_hook\<close>

text \<open>What the entry leaves on the stack before it calls \<open>syscall_hook\<close>, and that call.\<close>

definition entry_mem :: "machine \<Rightarrow> memory" where
  "entry_mem s =
     mem64.spill (rreg s SP)
       ((288, rreg s GP) # map (\<lambda>x. (slot_off x, slot_value s x)) save_slots) (mem s)"

definition hook_call :: "hook_env \<Rightarrow> machine \<Rightarrow> memory \<times> wrapper_ret" where
  "hook_call env s =
     syscall_hook (env_hooks env) (env_hook_fn env) (env_result env) (entry_mem s)
       (rreg s A0) (rreg s A1) (rreg s A2) (rreg s A3) (rreg s A4) (rreg s A5) (rreg s GP) (rreg s A7)"

text \<open>The call keeps the bytes \<open>a .. a + n - 1\<close>: compiled code does not write its caller's frame, nor
  variables and code it has no business with.\<close>

definition hook_keeps :: "hook_env \<Rightarrow> machine \<Rightarrow> u64 \<Rightarrow> nat \<Rightarrow> bool" where
  "hook_keeps env s a n \<longleftrightarrow>
     (\<forall>x. in_range a n x \<longrightarrow> env_frame env (rreg s SP) (fst (hook_call env s)) x = entry_mem s x)"

definition exit_offset :: "u64 \<Rightarrow> u64 \<Rightarrow> u64" where
  "exit_offset forwarded nr = (if forwarded \<noteq> 0 then 56 else if nr = 220 \<or> nr = 435 then 20 else 40)"

lemma targets:
  "target asm_syscall_hook handled_ecall =
     [Lbl handled_ecall, La_relocated_global_pointer T0, ld T0 0 T0, Ins (ADDI T0 T0 (- 56)),
      Ins (JALR 0 T0 0)] @ target asm_syscall_hook return_prelude"
  "target asm_syscall_hook return_prelude =
     [Lbl return_prelude, Li T0 220, Beq A7 T0 do_clone, Li T0 435, Beq A7 T0 do_clone,
      La_relocated_global_pointer T0, ld T0 0 T0, Ins (ADDI T0 T0 (- 40)), Ins (JALR 0 T0 0)]
      @ target asm_syscall_hook do_clone"
  "target asm_syscall_hook do_clone =
     [Lbl do_clone, La_relocated_global_pointer T0, ld T0 0 T0, Ins (ADDI T0 T0 (- 20)),
      Ins (JALR 0 T0 0)] @ target asm_syscall_hook do_rt_sigreturn"
  "target asm_syscall_hook do_rt_sigreturn =
     [Lbl do_rt_sigreturn, ld T1 8 SP, ld T2 16 SP, ld T3 24 SP, J return_prelude]"
  by (simp_all add: target_def asm_syscall_hook_def save_context_def restore_context_def return_dispatch_def)

lemma asm_syscall_hook_split:
  "asm_syscall_hook =
     [sd GP 288 SP, Mv T1 GP, La_relocated_global_pointer T0, ld GP 0 T0, Li T0 139,
      Beq A7 T0 do_rt_sigreturn]
     @ map save_op save_slots @ [Mv A6 T1, Call_syscall_hook, Mv T0 A1]
     @ map restore_op (trampoline_slots @ save_slots)
     @ [Beqz T0 return_prelude, Ins (SRLI T0 T0 1), Beqz T0 handled_ecall, Ins EBREAK]
     @ target asm_syscall_hook handled_ecall"
  unfolding targets save_context_slots [symmetric] restore_context_slots [symmetric]
  by (simp add: asm_syscall_hook_def return_dispatch_def)

definition left_at :: "u64 \<Rightarrow> machine \<Rightarrow> machine" where
  "left_at dst u = (wreg T0 dst u)\<lparr>pc := dst AND NOT 1\<rparr>"

lemma asm_run_return_prelude:
  assumes "allowed (perm u) PROT_READ (env_rgp_addr env) 8"
  shows "asm_run env asm_syscall_hook (10 + n) (target asm_syscall_hook return_prelude) u =
    Leave (left_at (load64 (mem u) (env_rgp_addr env) - exit_offset 0 (rreg u A7)) u)"
  using assms
  by (simp add: targets eval_nat_numeral machine_simps wreg_wreg left_at_def exit_offset_def Let_def)

lemma asm_run_exit:
  assumes "allowed (perm u) PROT_READ (env_rgp_addr env) 8" and "rreg u T0 = 0 \<or> rreg u T0 = 1"
  shows "asm_run env asm_syscall_hook (11 + n)
      ([Beqz T0 return_prelude, Ins (SRLI T0 T0 1), Beqz T0 handled_ecall, Ins EBREAK]
       @ target asm_syscall_hook handled_ecall) u =
    Leave (left_at (load64 (mem u) (env_rgp_addr env) - exit_offset (rreg u T0) (rreg u A7)) u)"
proof (cases "rreg u T0 = 0")
  case True
  then show ?thesis
    using asm_run_return_prelude [OF assms(1), of n] by (simp add: eval_nat_numeral)
next
  case False
  with assms(2) have "rreg u T0 = 1" by simp
  with assms(1) show ?thesis
    by (simp add: targets(1) eval_nat_numeral machine_simps wreg_wreg left_at_def exit_offset_def Let_def)
qed

text \<open>Up to the saves: the return address is on the stack and in \<open>t1\<close>, \<open>gp\<close> is the relocated one.\<close>

definition entered :: "hook_env \<Rightarrow> machine \<Rightarrow> machine" where
  "entered env s =
     (let m = store64 (mem s) (rreg s SP + 288) (rreg s GP)
      in wreg T0 139 (wreg GP (load64 m (env_rgp_addr env)) (wreg T1 (rreg s GP) (s\<lparr>mem := m\<rparr>))))"

lemma asm_run_entered:
  assumes "allowed (perm s) PROT_WRITE (rreg s SP) 304"
    and "allowed (perm s) PROT_READ (env_rgp_addr env) 8"
  shows "asm_run env asm_syscall_hook (6 + n)
      ([sd GP 288 SP, Mv T1 GP, La_relocated_global_pointer T0, ld GP 0 T0, Li T0 139,
        Beq A7 T0 do_rt_sigreturn] @ rest) s =
    asm_run env asm_syscall_hook n
      (if rreg s A7 = 139 then target asm_syscall_hook do_rt_sigreturn else rest) (entered env s)"
proof -
  have "allowed (perm s) PROT_WRITE (rreg s SP + 288) 8"
    using assms(1) by (rule allowed_inner) simp
  moreover have "wreg T0 139 (wreg GP v (wreg T0 w (wreg T1 x u))) = wreg T0 139 (wreg GP v (wreg T1 x u))"
    for v w x u by (simp add: wreg_def fun_eq_iff)
  ultimately show ?thesis
    using assms(2) by (simp add: eval_nat_numeral machine_simps entered_def Let_def)
qed

lemma entered_sel [simp]:
  "perm (entered env s) = perm s" "fregs (entered env s) = fregs s" "pc (entered env s) = pc s"
  "mem (entered env s) = store64 (mem s) (rreg s SP + 288) (rreg s GP)"
  by (simp_all add: entered_def Let_def)

lemma rreg_entered:
  "rreg (entered env s) r =
     (if r = T0 then 139 else if r = T1 then rreg s GP
      else if r = GP then load64 (store64 (mem s) (rreg s SP + 288) (rreg s GP)) (env_rgp_addr env)
      else rreg s r)"
  by (simp add: entered_def Let_def machine_simps)

text \<open>The state in which \<open>syscall_hook\<close> is called, and the one after the restores.\<close>

definition calling :: "hook_env \<Rightarrow> machine \<Rightarrow> machine" where
  "calling env s = wreg A6 (rreg s GP) (saves save_slots (entered env s))"

definition restored :: "hook_env \<Rightarrow> machine \<Rightarrow> machine" where
  "restored env s =
     (let c = call_syscall_hook env (calling env s)
      in fold restore (trampoline_slots @ save_slots) (wreg T0 (rreg c A1) c))"

lemma calling_sel [simp]:
  "perm (calling env s) = perm s" "fregs (calling env s) = fregs s" "pc (calling env s) = pc s"
  "rreg (calling env s) SP = rreg s SP"
  by (simp_all add: calling_def machine_simps rreg_entered)

lemma mem_calling: "mem (calling env s) = entry_mem s"
proof -
  have "map (\<lambda>x. (slot_off x, slot_value (entered env s) x)) save_slots =
        map (\<lambda>x. (slot_off x, slot_value s x)) save_slots"
    by (simp add: save_slots_def slot_value_def rreg_entered)
  then show ?thesis
    by (simp add: calling_def saves_def entry_mem_def rreg_entered del: map_eq_conv)
qed

lemma hook_outcome_calling: "hook_outcome env (calling env s) = hook_call env s"
proof -
  have "rreg (calling env s) r = rreg s r" if "r \<in> {A0, A1, A2, A3, A4, A5, A7}" for r
    using that by (auto simp: calling_def machine_simps rreg_entered)
  moreover have "rreg (calling env s) A6 = rreg s GP" by (simp add: calling_def machine_simps)
  ultimately show ?thesis by (simp add: hook_outcome_def hook_call_def mem_calling)
qed

lemma asm_run_restored:
  assumes "allowed (perm s) PROT_WRITE (rreg s SP) 304" and "allowed (perm s) PROT_READ (rreg s SP) 304"
    and "allowed (perm s) PROT_READ (env_rgp_addr env) 8" and "rreg s A7 \<noteq> 139"
  shows "asm_run env asm_syscall_hook (74 + n) asm_syscall_hook s =
    asm_run env asm_syscall_hook n
      ([Beqz T0 return_prelude, Ins (SRLI T0 T0 1), Beqz T0 handled_ecall, Ins EBREAK]
       @ target asm_syscall_hook handled_ecall) (restored env s)"
proof -
  let ?c = "call_syscall_hook env (calling env s)"
  let ?d = "wreg T0 (rreg ?c A1) ?c"
  have len: "length save_slots = 31" "length (trampoline_slots @ save_slots) = 34"
    by (simp_all add: save_slots_def trampoline_slots_def)
  have c: "perm ?c = perm s" "rreg ?c SP = rreg s SP"
    by (simp_all add: call_syscall_hook_def Let_def rreg_def callee_saved_def split: prod.splits)
       (metis calling_sel(4) rreg_def zero_neq_numeral)
  have saves: "asm_run env P (31 + k) (map save_op save_slots @ rest) (entered env s) =
      asm_run env P k rest (saves save_slots (entered env s))" for P k rest
    using asm_run_saves [of save_slots "entered env s" env P k rest] assms(1) len
      allowed_inner slots_bounds by (simp add: rreg_entered)
  have call: "asm_run env P (3 + k) ([Mv A6 T1, Call_syscall_hook, Mv T0 A1] @ rest)
      (saves save_slots (entered env s)) = asm_run env P k rest ?d" for P k rest
    by (simp add: eval_nat_numeral calling_def rreg_entered)
  have restores: "asm_run env P (34 + k) (map restore_op (trampoline_slots @ save_slots) @ rest) ?d =
      asm_run env P k rest (restored env s)" for P k rest
    using asm_run_restores [of "trampoline_slots @ save_slots" ?d env P k rest] assms(2) len c
      allowed_inner slots_bounds by (simp add: machine_simps restored_def Let_def)
  have "asm_run env asm_syscall_hook (6 + (31 + (3 + (34 + n)))) asm_syscall_hook s =
    asm_run env asm_syscall_hook n
      ([Beqz T0 return_prelude, Ins (SRLI T0 T0 1), Beqz T0 handled_ecall, Ins EBREAK]
       @ target asm_syscall_hook handled_ecall) (restored env s)"
    by (subst (2) asm_syscall_hook_split)
       (simp only: asm_run_entered [OF assms(1,3)] assms(4) if_False saves call restores)
  then show ?thesis by simp
qed

text \<open>What the restored state holds.\<close>

lemma call_syscall_hook_sel [simp]:
  "perm (call_syscall_hook env s) = perm s"
  "mem (call_syscall_hook env s) = env_frame env (rreg s SP) (fst (hook_outcome env s))"
  "rreg (call_syscall_hook env s) A0 = ret_a0 (snd (hook_outcome env s))"
  "rreg (call_syscall_hook env s) A1 = ret_a1 (snd (hook_outcome env s))"
  "callee_saved r \<Longrightarrow> rreg (call_syscall_hook env s) r = rreg s r"
  "callee_saved_f r \<Longrightarrow> fregs (call_syscall_hook env s) r = fregs s r"
  by (auto simp: call_syscall_hook_def Let_def rreg_def callee_saved_def callee_saved_f_def
      split: prod.splits)

lemma register_classes:
  "r < 32 \<Longrightarrow> (False, r) \<in> slot_reg ` set (trampoline_slots @ save_slots) \<or> callee_saved r \<or> r \<in> {0, T0, A0}"
  "r < 32 \<Longrightarrow> (True, r) \<in> slot_reg ` set (trampoline_slots @ save_slots) \<or> callee_saved_f r"
proof -
  have "list_all (\<lambda>r. ((False, r) \<in> slot_reg ` set (trampoline_slots @ save_slots) \<or> callee_saved r \<or>
      r \<in> {0, T0, A0}) \<and>
    ((True, r) \<in> slot_reg ` set (trampoline_slots @ save_slots) \<or> callee_saved_f r)) [0..<32]"
    by code_simp
  then show "r < 32 \<Longrightarrow> (False, r) \<in> slot_reg ` set (trampoline_slots @ save_slots) \<or> callee_saved r \<or> r \<in> {0, T0, A0}"
    and "r < 32 \<Longrightarrow> (True, r) \<in> slot_reg ` set (trampoline_slots @ save_slots) \<or> callee_saved_f r"
    unfolding list_all_iff by auto
qed


lemma entry_slots:
  "x \<in> set save_slots \<Longrightarrow> load64 (entry_mem s) (rreg s SP + slot_off x) = slot_value s x"
  "load64 (entry_mem s) (rreg s SP + 288) = rreg s GP"
  "off \<in> {0, 8, 16, 24} \<Longrightarrow> load64 (entry_mem s) (rreg s SP + off) = load64 (mem s) (rreg s SP + off)"
proof -
  let ?xs = "(288, rreg s GP) # map (\<lambda>x. (slot_off x, slot_value s x)) save_slots"
  have fst: "map fst ?xs = 288 # map slot_off save_slots" by (simp add: comp_def)
  have ok: "mem64.slots_ok (map fst ?xs)" unfolding fst by (rule frame_slots_ok)
  show "x \<in> set save_slots \<Longrightarrow> load64 (entry_mem s) (rreg s SP + slot_off x) = slot_value s x"
    unfolding entry_mem_def by (rule mem64.ld_spill [OF ok]) auto
  show "load64 (entry_mem s) (rreg s SP + 288) = rreg s GP"
    unfolding entry_mem_def by (rule mem64.ld_spill [OF ok]) auto
  show "off \<in> {0, 8, 16, 24} \<Longrightarrow> load64 (entry_mem s) (rreg s SP + off) = load64 (mem s) (rreg s SP + off)"
    unfolding entry_mem_def
    by (rule mem64.spill_other) (simp only: fst trampoline_slots_separate)
qed

lemma kept_load:
  assumes "hook_keeps env s a n" and "unat off + 8 \<le> n"
  shows "load64 (env_frame env (rreg s SP) (fst (hook_call env s))) (a + off) = load64 (entry_mem s) (a + off)"
proof (rule mem64.ld_cong)
  fix x assume "in_range (a + off) 8 x"
  then have "in_range a n x" using in_range_inner assms(2) by blast
  then show "env_frame env (rreg s SP) (fst (hook_call env s)) x = entry_mem s x"
    using assms(1) by (simp add: hook_keeps_def)
qed

lemma restored_sel [simp]:
  "perm (restored env s) = perm s"
  "mem (restored env s) = env_frame env (rreg s SP) (fst (hook_call env s))"
  by (simp_all add: restored_def Let_def hook_outcome_calling del: set_append fold_append)

lemma restored_slot:
  assumes "hook_keeps env s (rreg s SP) 304" and "x \<in> set (trampoline_slots @ save_slots)"
  shows "reg_value (restored env s) (slot_reg x) = load64 (entry_mem s) (rreg s SP + slot_off x)"
proof -
  let ?c = "call_syscall_hook env (calling env s)"
  have sp: "rreg (wreg T0 (rreg ?c A1) ?c) SP = rreg s SP"
    by (simp add: machine_simps callee_saved_def)
  have "list_all slot_ok (trampoline_slots @ save_slots)"
    using slots_bounds by (auto simp: list_all_iff)
  from reg_value_restores [OF this slots_distinct assms(2), of "wreg T0 (rreg ?c A1) ?c"] sp
  have "reg_value (restored env s) (slot_reg x) = load64 (mem ?c) (rreg s SP + slot_off x)"
    by (simp add: restored_def Let_def del: fold_append)
  also have "\<dots> = load64 (entry_mem s) (rreg s SP + slot_off x)"
    using kept_load [OF assms(1)] slots_bounds assms(2) by (simp add: hook_outcome_calling)
  finally show ?thesis .
qed

lemma restored_no_slot:
  assumes "q \<notin> slot_reg ` set (trampoline_slots @ save_slots)" and "q \<noteq> (False, T0)"
  shows "reg_value (restored env s) q = reg_value (call_syscall_hook env (calling env s)) q"
proof -
  have "list_all slot_ok (trampoline_slots @ save_slots)"
    using slots_bounds by (auto simp: list_all_iff)
  from reg_value_restores_other [OF this assms(1)] assms(2)
  show ?thesis by (auto simp: restored_def Let_def reg_value_def machine_simps split: prod.splits)
qed

lemma slot_value_reg: "slot_value s x = reg_value s (slot_reg x)"
  by (auto simp: slot_value_def reg_value_def slot_reg_def split: prod.splits)

lemma restored_trampoline:
  assumes "hook_keeps env s (rreg s SP) 304"
  shows "rreg (restored env s) T1 = load64 (mem s) (rreg s SP + 8)"
    and "rreg (restored env s) T2 = load64 (mem s) (rreg s SP + 16)"
    and "rreg (restored env s) T3 = load64 (mem s) (rreg s SP + 24)"
proof -
  have "reg_value (restored env s) (slot_reg x) = load64 (mem s) (rreg s SP + slot_off x)"
    if "x \<in> set trampoline_slots" for x
    using restored_slot [OF assms, of x] that entry_slots(3) [of "slot_off x" s]
    by (auto simp: trampoline_slots_def slot_off_def)
  from this [of "(False, T1, 8)"] this [of "(False, T2, 16)"] this [of "(False, T3, 24)"]
  show "rreg (restored env s) T1 = load64 (mem s) (rreg s SP + 8)"
    "rreg (restored env s) T2 = load64 (mem s) (rreg s SP + 16)"
    "rreg (restored env s) T3 = load64 (mem s) (rreg s SP + 24)"
    by (simp_all add: trampoline_slots_def slot_reg_def slot_off_def reg_value_def)
qed

lemma restored_saved:
  assumes "hook_keeps env s (rreg s SP) 304" and "q \<in> slot_reg ` set save_slots"
  shows "reg_value (restored env s) q = reg_value s q"
proof -
  from assms(2) obtain x where x: "x \<in> set save_slots" "q = slot_reg x" by blast
  with restored_slot [OF assms(1), of x] entry_slots(1) [OF x(1), of s]
  show ?thesis by (simp add: slot_value_reg)
qed

lemma restored_result:
  "rreg (restored env s) A0 = ret_a0 (snd (hook_call env s))"
  "rreg (restored env s) GP = load64 (store64 (mem s) (rreg s SP + 288) (rreg s GP)) (env_rgp_addr env)"
  "rreg (restored env s) T0 = ret_a1 (snd (hook_call env s))"
proof -
  let ?c = "call_syscall_hook env (calling env s)"
  show "rreg (restored env s) A0 = ret_a0 (snd (hook_call env s))"
    "rreg (restored env s) GP = load64 (store64 (mem s) (rreg s SP + 288) (rreg s GP)) (env_rgp_addr env)"
    using restored_no_slot [of "(False, A0)" env s] restored_no_slot [of "(False, GP)" env s]
    by (simp_all add: trampoline_slots_def save_slots_def slot_reg_def reg_value_def
        hook_outcome_calling callee_saved_def)
       (simp add: calling_def machine_simps rreg_entered)
  have t0: "(False, T0) \<notin> slot_reg ` set (trampoline_slots @ save_slots)"
    by (simp add: trampoline_slots_def save_slots_def slot_reg_def)
  have ok: "list_all slot_ok (trampoline_slots @ save_slots)"
    using slots_bounds by (auto simp: list_all_iff)
  show "rreg (restored env s) T0 = ret_a1 (snd (hook_call env s))"
    using reg_value_restores_other [OF ok t0, of "wreg T0 (rreg ?c A1) ?c"]
    by (simp add: restored_def Let_def reg_value_def machine_simps hook_outcome_calling)
qed

lemma restored_rest:
  assumes keeps: "hook_keeps env s (rreg s SP) 304" and "r < 32"
  shows "r \<notin> {GP, T0, T1, T2, T3, A0} \<Longrightarrow> rreg (restored env s) r = rreg s r"
    and "fregs (restored env s) r = fregs s r"
proof -
  let ?c = "call_syscall_hook env (calling env s)"
  have keep: "rreg ?c r = rreg s r" if "callee_saved r" "r \<noteq> GP" for r
    using that by (auto simp: calling_def machine_simps rreg_entered callee_saved_def)
  show "rreg (restored env s) r = rreg s r" if r: "r \<notin> {GP, T0, T1, T2, T3, A0}"
  proof (cases "(False, r) \<in> slot_reg ` set (trampoline_slots @ save_slots)")
    case True
    with r have "(False, r) \<in> slot_reg ` set save_slots"
      by (auto simp: trampoline_slots_def slot_reg_def)
    from restored_saved [OF keeps this] show ?thesis by (simp add: reg_value_def)
  next
    case False
    with assms(2) r register_classes(1) [of r] have "r = 0 \<or> callee_saved r" by blast
    with r keep [of r] restored_no_slot [OF False] show ?thesis by (auto simp: reg_value_def)
  qed
  show "fregs (restored env s) r = fregs s r"
  proof (cases "(True, r) \<in> slot_reg ` set (trampoline_slots @ save_slots)")
    case True
    then have "(True, r) \<in> slot_reg ` set save_slots"
      by (auto simp: trampoline_slots_def slot_reg_def)
    from restored_saved [OF keeps this] show ?thesis by (simp add: reg_value_def)
  next
    case False
    with assms(2) register_classes(2) have "callee_saved_f r" by blast
    with restored_no_slot [OF False] show ?thesis by (simp add: reg_value_def)
  qed
qed

text \<open>What the entry relies on: its frame and the variable \<open>relocated_global_pointer\<close>.\<close>

definition entry_ok :: "hook_env \<Rightarrow> u64 \<Rightarrow> machine \<Rightarrow> bool" where
  "entry_ok env rgp s \<longleftrightarrow>
     allowed (perm s) PROT_WRITE (rreg s SP) 304 \<and> allowed (perm s) PROT_READ (rreg s SP) 304 \<and>
     allowed (perm s) PROT_READ (env_rgp_addr env) 8 \<and> load64 (mem s) (env_rgp_addr env) = rgp \<and>
     separate (rreg s SP) 304 (env_rgp_addr env) 8 \<and>
     hook_keeps env s (rreg s SP) 304 \<and> hook_keeps env s (env_rgp_addr env) 8"

lemma entry_okD:
  assumes "entry_ok env rgp s"
  shows "load64 (store64 (mem s) (rreg s SP + 288) v) (env_rgp_addr env) = rgp"
    and "load64 (entry_mem s) (env_rgp_addr env) = rgp"
    and "load64 (env_frame env (rreg s SP) (fst (hook_call env s))) (env_rgp_addr env) = rgp"
proof -
  have sep: "separate (rreg s SP) 304 (env_rgp_addr env) 8" and rgp: "load64 (mem s) (env_rgp_addr env) = rgp"
    and keep: "hook_keeps env s (env_rgp_addr env) 8"
    using assms by (simp_all add: entry_ok_def)
  have slot: "separate (rreg s SP + off) 8 (env_rgp_addr env) 8" if "unat off + 8 \<le> 304" for off
    using separate_sub [OF sep, of "rreg s SP + off" 8] that by simp
  from slot [of 288] show "load64 (store64 (mem s) (rreg s SP + 288) v) (env_rgp_addr env) = rgp"
    using rgp by (simp add: mem64.ld_st_separate separate_sym)
  show entry: "load64 (entry_mem s) (env_rgp_addr env) = rgp"
  proof -
    have "load64 (entry_mem s) (env_rgp_addr env) = load64 (mem s) (env_rgp_addr env)"
      unfolding entry_mem_def
    proof (rule mem64.ld_cong, rule mem64.spill_frame)
      fix x off v
      assume x: "in_range (env_rgp_addr env) 8 x"
        and m: "(off, v) \<in> set ((288, rreg s GP) # map (\<lambda>x. (slot_off x, slot_value s x)) save_slots)"
      from m have "unat off + 8 \<le> 304" using slots_bounds by auto
      then show "\<not> in_range (rreg s SP + off) 8 x" using slot separate_disjoint x by blast
    qed
    with rgp show ?thesis by simp
  qed
  show "load64 (env_frame env (rreg s SP) (fst (hook_call env s))) (env_rgp_addr env) = rgp"
    using kept_load [OF keep, of 0] entry by simp
qed

lemma hook_call_verdict: "ret_a1 (snd (hook_call env s)) = 0 \<or> ret_a1 (snd (hook_call env s)) = 1"
  by (auto simp: hook_call_def syscall_hook_def Let_def split: prod.splits)

lemma asm_syscall_hook_exit:
  assumes ok: "entry_ok env rgp s" and nr: "rreg s A7 \<noteq> 139"
  shows "asm_run env asm_syscall_hook (85 + n) asm_syscall_hook s =
    Leave (left_at (rgp - exit_offset (ret_a1 (snd (hook_call env s))) (rreg s A7)) (restored env s))"
proof -
  have frame: "allowed (perm s) PROT_WRITE (rreg s SP) 304" "allowed (perm s) PROT_READ (rreg s SP) 304"
      "allowed (perm s) PROT_READ (env_rgp_addr env) 8" "hook_keeps env s (rreg s SP) 304"
    using ok by (simp_all add: entry_ok_def)
  have "asm_run env asm_syscall_hook (74 + (11 + n)) asm_syscall_hook s =
    Leave (left_at (load64 (mem (restored env s)) (env_rgp_addr env) -
      exit_offset (rreg (restored env s) T0) (rreg (restored env s) A7)) (restored env s))"
    using asm_run_restored [OF frame(1,2,3) nr, of "11 + n"] frame(3)
      asm_run_exit [of "restored env s" env n] restored_result(3) hook_call_verdict
    by simp
  moreover have "rreg (restored env s) A7 = rreg s A7"
    using restored_rest(1) [OF frame(4), of A7] by simp
  ultimately show ?thesis
    using entry_okD(3) [OF ok] restored_result(3) by simp
qed

lemma asm_syscall_hook_sigreturn_exit:
  assumes ok: "entry_ok env rgp s" and nr: "rreg s A7 = 139"
  shows "asm_run env asm_syscall_hook (21 + n) asm_syscall_hook s =
    Leave (left_at (rgp - 40) (fold restore trampoline_slots (entered env s)))"
proof -
  have frame: "allowed (perm s) PROT_WRITE (rreg s SP) 304" "allowed (perm s) PROT_READ (rreg s SP) 304"
      "allowed (perm s) PROT_READ (env_rgp_addr env) 8"
    using ok by (simp_all add: entry_ok_def)
  let ?u = "fold restore trampoline_slots (entered env s)"
  have a7: "rreg ?u A7 = 139"
    using reg_value_restores_other [of trampoline_slots "(False, A7)" "entered env s"] nr
    by (simp add: trampoline_slots_def slot_ok_def slot_reg_def reg_value_def rreg_entered)
  have rest: "asm_run env asm_syscall_hook (3 + k) (map restore_op trampoline_slots @ rest) (entered env s) =
      asm_run env asm_syscall_hook k rest ?u" for k rest
    using asm_run_restores [of trampoline_slots "entered env s" env asm_syscall_hook k rest]
      slots_bounds allowed_inner [OF frame(2)]
    by (simp add: rreg_entered) (simp add: trampoline_slots_def eval_nat_numeral)
  have tail: "target asm_syscall_hook do_rt_sigreturn =
      Lbl do_rt_sigreturn # map restore_op trampoline_slots @ [J return_prelude]"
    by (simp add: targets(4) trampoline_slots_def restore_op_def)
  have "asm_run env asm_syscall_hook (6 + Suc (3 + Suc (10 + n))) asm_syscall_hook s =
      asm_run env asm_syscall_hook (10 + n) (target asm_syscall_hook return_prelude) ?u"
    by (subst (2) asm_syscall_hook_split)
       (simp only: asm_run_entered [OF frame(1,3)] nr refl if_True tail asm_run.simps asm_step.simps sum.case prod.case rest)
  moreover have "6 + Suc (3 + Suc (10 + n)) = 21 + n" by simp
  ultimately show ?thesis
    using asm_run_return_prelude [of ?u env n] frame(3) a7 entry_okD(1) [OF ok]
    by (simp add: exit_offset_def)
qed

lemma left_at_sel [simp]:
  "pc (left_at dst u) = dst AND NOT 1" "mem (left_at dst u) = mem u" "perm (left_at dst u) = perm u"
  "fregs (left_at dst u) = fregs u" "rreg (left_at dst u) r = (if r = T0 then dst else rreg u r)"
  by (auto simp: left_at_def wreg_def rreg_def)

section \<open>Properties\<close>

text \<open>For every system call but \<open>rt_sigreturn\<close>, \<open>asm_syscall_hook\<close> calls \<open>syscall_hook\<close> once with
  the caller's arguments and leaves for the return sequence its answer selects: 56 bytes before the
  relocated global pointer when the hook handled the call, otherwise 20 bytes before it for
  \<open>clone\<close> and \<open>clone3\<close> and 40 for the others. Every register the program can see, the
  floating-point ones included, is back to its value on entry, except \<open>a0\<close> (the first word of the
  answer), \<open>t0\<close>, and \<open>t1\<close>-\<open>t3\<close>, which are reloaded from the trampoline's slots; the return address
  and the saved \<open>t0\<close> are still in the frame.\<close>

theorem asm_syscall_hook_restores:
  assumes "entry_ok env rgp s" and "rreg s A7 \<noteq> 139"
  shows "\<exists>t. asm_run env asm_syscall_hook (85 + n) asm_syscall_hook s = Leave t \<and>
    pc t = (rgp - exit_offset (ret_a1 (snd (hook_call env s))) (rreg s A7)) AND NOT 1 \<and>
    rreg t A0 = ret_a0 (snd (hook_call env s)) \<and> rreg t GP = rgp \<and>
    rreg t T1 = load64 (mem s) (rreg s SP + 8) \<and> rreg t T2 = load64 (mem s) (rreg s SP + 16) \<and>
    rreg t T3 = load64 (mem s) (rreg s SP + 24) \<and>
    (\<forall>r < 32. r \<notin> {GP, T0, T1, T2, T3, A0} \<longrightarrow> rreg t r = rreg s r) \<and>
    (\<forall>f < 32. fregs t f = fregs s f) \<and>
    mem t = env_frame env (rreg s SP) (fst (hook_call env s)) \<and>
    load64 (mem t) (rreg s SP) = load64 (mem s) (rreg s SP) \<and>
    load64 (mem t) (rreg s SP + 288) = rreg s GP"
proof -
  have keep: "hook_keeps env s (rreg s SP) 304" using assms(1) by (simp add: entry_ok_def)
  show ?thesis
    using asm_syscall_hook_exit [OF assms, of n] restored_trampoline [OF keep] restored_result [of env s] restored_rest [OF keep] entry_okD(1) [OF assms(1)]
      kept_load [OF keep, of 0] kept_load [OF keep, of 288] entry_slots(2) [of s] entry_slots(3) [of 0 s]
    by simp
qed

text \<open>\<open>rt_sigreturn\<close> goes straight to the forwarding path, 40 bytes before the relocated global
  pointer, without calling the hook: memory changes only in the slot of the return address, and
  the registers are those of the caller but for \<open>t0\<close>, \<open>gp\<close> and the reloaded \<open>t1\<close>-\<open>t3\<close>.\<close>

theorem asm_syscall_hook_rt_sigreturn:
  assumes "entry_ok env rgp s" and "rreg s A7 = 139"
  shows "\<exists>t. asm_run env asm_syscall_hook (21 + n) asm_syscall_hook s = Leave t \<and>
    pc t = (rgp - 40) AND NOT 1 \<and> mem t = store64 (mem s) (rreg s SP + 288) (rreg s GP) \<and>
    rreg t T1 = load64 (mem s) (rreg s SP + 8) \<and> rreg t T2 = load64 (mem s) (rreg s SP + 16) \<and>
    rreg t T3 = load64 (mem s) (rreg s SP + 24) \<and> rreg t GP = rgp \<and> fregs t = fregs s \<and>
    (\<forall>r. r \<notin> {GP, T0, T1, T2, T3} \<longrightarrow> rreg t r = rreg s r)"
proof -
  have slot: "load64 (store64 (mem s) (rreg s SP + 288) v) (rreg s SP + off) = load64 (mem s) (rreg s SP + off)"
    if "off \<in> {8, 16, 24}" for off v
    using that by (intro mem64.ld_st_separate) (auto simp: separate_def)
  show ?thesis
    using asm_syscall_hook_sigreturn_exit [OF assms, of n] slot entry_okD(1) [OF assms(1)]
    by (simp add: trampoline_slots_def restore_def machine_simps rreg_entered Let_def)
qed

text \<open>C26: \<open>syscall_no_intercept(nr, a, b, c, d, e, f)\<close> issues an environment call with \<open>nr\<close> in
  \<open>a7\<close> and the six arguments in \<open>a0\<close>-\<open>a5\<close>, memory and every other register unchanged, and returns
  to its caller with whatever the kernel left in \<open>a0\<close>.\<close>

theorem syscall_no_intercept_calls:
  "\<exists>t rest. asm_run env syscall_no_intercept (8 + n) syscall_no_intercept s = Asm_ecall t rest \<and>
    rreg t A7 = rreg s A0 \<and>
    map (rreg t) [A0, A1, A2, A3, A4, A5] = map (rreg s) [A1, A2, A3, A4, A5, A6] \<and>
    (\<forall>r. r \<notin> {A0, A1, A2, A3, A4, A5, A7} \<longrightarrow> rreg t r = rreg s r) \<and>
    mem t = mem s \<and> fregs t = fregs s \<and>
    (\<forall>k. asm_run env syscall_no_intercept (Suc n) rest (wreg A0 k t) =
      Leave ((wreg A0 k t)\<lparr>pc := rreg s RA AND NOT 1\<rparr>))"
  by (simp add: syscall_no_intercept_def eval_nat_numeral machine_simps)

section \<open>Instances\<close>

text \<open>A hook that answers 42 to \<open>write\<close> and forwards everything else, and a machine about to enter.\<close>

definition sample_hook :: hook where
  "sample_hook m nr args result = (if nr = 64 then (m, 42, 0) else (m, result, 1))"

definition sample_env :: hook_env where
  "sample_env = \<lparr>env_rgp_addr = 0x1000, env_hooks = (\<lambda>_. sample_hook), env_hook_fn = 0x2000, env_result = 0,
     env_scratch = (\<lambda>_. 7), env_fscratch = (\<lambda>_. 9), env_frame = (\<lambda>_ m. m)\<rparr>"

definition sample_state :: "u64 \<Rightarrow> machine" where
  "sample_state nr = \<lparr>gregs = (\<lambda>r. of_nat r)(SP := 0x8000, A7 := nr), fregs = of_nat, pc = 0,
     mem = store64 (\<lambda>_. 0) 0x1000 0x20800, perm = (\<lambda>_. 7)\<rparr>"

lemma sample_state_sel:
  "rreg (sample_state nr) r = (if r = SP then 0x8000 else if r = A7 then nr else of_nat r)"
  "fregs (sample_state nr) = of_nat"
  by (auto simp: sample_state_def rreg_def)

lemma sample_hook_keeps: "hook_keeps sample_env s a n"
  by (simp add: hook_keeps_def hook_call_def syscall_hook_def sample_env_def sample_hook_def)

lemma sample_entry_ok: "entry_ok sample_env 0x20800 (sample_state nr)"
  using sample_hook_keeps
  by (simp add: entry_ok_def sample_state_def rreg_def allowed_iff prot_defs mem64.ld_st separate_def)
     (simp add: sample_env_def mem64.ld_st)

theorem asm_syscall_hook_restores_witness:
  "entry_ok sample_env 0x20800 (sample_state 64) \<and>
   (\<exists>t. asm_run sample_env asm_syscall_hook 85 asm_syscall_hook (sample_state 64) = Leave t \<and>
     pc t = 0x207c8 \<and> rreg t A0 = 42 \<and> rreg t A1 = 11 \<and> fregs t 31 = 31)"
proof -
  have "snd (hook_call sample_env (sample_state 64)) = \<lparr>ret_a0 = 42, ret_a1 = 1\<rparr>"
    by (simp add: hook_call_def syscall_hook_def sample_env_def sample_hook_def sample_state_def rreg_def)
  then show ?thesis
    using asm_syscall_hook_restores [OF sample_entry_ok, of 64 0] sample_entry_ok [of 64]
    by (auto simp: exit_offset_def sample_state_sel)
qed

theorem asm_syscall_hook_rt_sigreturn_witness:
  "entry_ok sample_env 0x20800 (sample_state 139) \<and>
   (\<exists>t. asm_run sample_env asm_syscall_hook 21 asm_syscall_hook (sample_state 139) = Leave t \<and>
     pc t = 0x207d8 \<and> rreg t A0 = 10)"
  using asm_syscall_hook_rt_sigreturn [OF sample_entry_ok, of 139 0] sample_entry_ok [of 139]
  by (auto simp: sample_state_sel)

theorem syscall_no_intercept_calls_witness:
  "\<exists>t rest. asm_run sample_env syscall_no_intercept 8 syscall_no_intercept (sample_state 64) = Asm_ecall t rest \<and>
     rreg t A7 = 10 \<and> rreg t A0 = 11 \<and> rreg t A6 = 16"
  using syscall_no_intercept_calls [of sample_env 0 "sample_state 64"]
  by (auto simp: sample_state_sel)

end
