(* ===== verification/Interception.thy ===== *)
theory Interception
  imports Trampoline Syscall_Entry
begin

text \<open>
  One intercepted system call from end to end: the patched instruction (\<open>jalr gp, gp, 0\<close> in place of
  \<open>ecall\<close>), the trampoline, \<open>asm_syscall_hook\<close>, and the return path it chooses. The machine code
  runs in the ISA model, the inline assembly in the assembler model; the theorems say what the
  program that made the call observes.
\<close>

section \<open>The set-up an intercepted call relies on\<close>

text \<open>The memory \<open>syscall_hook\<close> sees, and its answer to the call made in \<open>s\<close>.\<close>

definition call_mem :: "machine \<Rightarrow> memory" where
  "call_mem s = mem64.spill (rreg s SP - 304)
     ((288, pc s + 4) # map (\<lambda>x. (slot_off x, slot_value s x)) save_slots) (trampoline_mem s)"

definition hook_answer :: "hook_env \<Rightarrow> machine \<Rightarrow> memory \<times> wrapper_ret" where
  "hook_answer env s =
     syscall_hook (env_hooks env) (env_hook_fn env) (env_result env) (call_mem s)
       (rreg s A0) (rreg s A1) (rreg s A2) (rreg s A3) (rreg s A4) (rreg s A5) (pc s + 4) (rreg s A7)"

text \<open>The hook, asked about that call, leaves bytes \<open>a .. a + n - 1\<close> as it found them.\<close>

definition answer_keeps :: "hook_env \<Rightarrow> machine \<Rightarrow> u64 \<Rightarrow> nat \<Rightarrow> bool" where
  "answer_keeps env s a n \<longleftrightarrow>
     (\<forall>x. in_range a n x \<longrightarrow> env_frame env (rreg s SP - 304) (fst (hook_answer env s)) x = call_mem s x)"

text \<open>
  The patched word at the program counter, \<open>gp\<close> the relocated global pointer, the two code
  sequences around it, 304 bytes of stack below \<open>sp\<close>, and a hook that leaves that frame, the
  variable \<open>relocated_global_pointer\<close> and the code alone.
\<close>

definition intercept_ok :: "hook_env \<Rightarrow> u64 \<Rightarrow> u64 \<Rightarrow> machine \<Rightarrow> bool" where
  "intercept_ok env hook rgp s \<longleftrightarrow>
     runnable s (pc s) [0x000181e7] \<and> rreg s GP = rgp \<and>
     rgp AND NOT 1 = rgp \<and> (pc s + 4) AND NOT 1 = pc s + 4 \<and>
     runnable s (rgp - 56) (return_words @ trampoline_words hook) \<and>
     allowed (perm s) PROT_WRITE (rreg s SP - 304) 304 \<and> allowed (perm s) PROT_READ (rreg s SP - 304) 304 \<and>
     allowed (perm s) PROT_READ (env_rgp_addr env) 8 \<and> load64 (mem s) (env_rgp_addr env) = rgp \<and>
     separate (rreg s SP - 304) 304 (rgp - 56) 136 \<and>
     separate (rreg s SP - 304) 304 (env_rgp_addr env) 8 \<and>
     answer_keeps env s (rreg s SP - 304) 304 \<and>
     answer_keeps env s (env_rgp_addr env) 8 \<and>
     answer_keeps env s (rgp - 56) 56"

lemma intercept_okD:
  assumes "intercept_ok env hook rgp s"
  shows "runnable s (rgp - 56) return_words" and "runnable s rgp (trampoline_words hook)"
  using assms runnable_append [of s "rgp - 56" return_words "trampoline_words hook"]
  by (simp_all add: intercept_ok_def length_words)

text \<open>The first 21 instructions: the patched one and the trampoline.\<close>

lemma patched_enters:
  assumes ok: "intercept_ok env hook rgp s"
  shows "\<exists>t. cpu_run 21 s = Next t \<and> pc t = hook AND NOT 1 \<and> rreg t SP = rreg s SP - 304 \<and>
    rreg t GP = pc s + 4 \<and> (\<forall>r. r \<notin> {SP, GP, T0, T1, T2, T3} \<longrightarrow> rreg t r = rreg s r) \<and>
    fregs t = fregs s \<and> perm t = perm s \<and> mem t = trampoline_mem s"
proof -
  let ?s = "(wreg GP (pc s + 4) s)\<lparr>pc := rgp\<rparr>"
  have step: "cpu_run 1 s = Next ?s"
    using ok cpu_step_runnable [OF _ decode_return(7), of s "[]"]
    by (simp add: intercept_ok_def)
  have sp: "rreg ?s SP = rreg s SP" by (simp add: machine_simps)
  have code: "runnable ?s (pc ?s) (trampoline_words hook)"
    using intercept_okD(2) [OF ok] by (simp add: runnable_def)
  have wr: "slots_writable ?s (rreg ?s SP - 304) [0, 8, 16, 24]"
    unfolding sp by (rule slots_writable_inner [of _ _ 304]) (use ok in \<open>simp_all add: intercept_ok_def\<close>)
  have "separate (rreg s SP - 304) 304 (rgp - 56) 136" using ok by (simp add: intercept_ok_def)
  then have "separate rgp 80 (rreg s SP - 304) 304"
    using separate_sub [of "rgp - 56" 136 "rreg s SP - 304" 304 rgp 80] by (simp add: separate_sym)
  then have off: "slots_off (rreg ?s SP - 304) [0, 8, 16, 24] (pc ?s) 80"
    unfolding sp by (intro slots_off_separate [of _ 304]) (simp_all add: separate_sym)
  have mem: "trampoline_mem ?s = trampoline_mem s"
    by (simp add: trampoline_mem_def saved_slots_def machine_simps)
  obtain t where t: "cpu_run 20 ?s = Next t" "pc t = hook AND NOT 1" "rreg t SP = rreg ?s SP - 304"
      "\<forall>r. r \<notin> {SP, T0, T1, T2, T3} \<longrightarrow> rreg t r = rreg ?s r" "fregs t = fregs ?s" "perm t = perm ?s"
      "mem t = trampoline_mem ?s"
    using trampoline_runs [OF code wr off] by blast
  have "cpu_run (1 + 20) s = Next t" using step t(1) by (rule cpu_run_trans)
  then have "cpu_run 21 s = Next t" by simp
  with t mem show ?thesis by (simp add: machine_simps)
qed

text \<open>Up to the return sequence: the machine code, then the assembly it jumps to.\<close>

definition intercepted :: "hook_env \<Rightarrow> machine \<Rightarrow> machine option" where
  "intercepted env s =
     (case cpu_run 21 s of
        Next t \<Rightarrow> (case asm_run env asm_syscall_hook 85 asm_syscall_hook t of Leave u \<Rightarrow> Some u | _ \<Rightarrow> None)
      | _ \<Rightarrow> None)"

lemma entry_mem_entered:
  assumes "rreg t SP = rreg s SP - 304" and "rreg t GP = pc s + 4" and "mem t = trampoline_mem s"
    and "\<forall>r. r \<notin> {SP, GP, T0, T1, T2, T3} \<longrightarrow> rreg t r = rreg s r" and "fregs t = fregs s"
  shows "entry_mem t = call_mem s" and "hook_call env t = hook_answer env s"
    and "hook_keeps env t a n = answer_keeps env s a n"
proof -
  have "map (\<lambda>x. (slot_off x, slot_value t x)) save_slots = map (\<lambda>x. (slot_off x, slot_value s x)) save_slots"
    using assms(4,5) by (simp add: save_slots_def slot_value_def)
  then show m: "entry_mem t = call_mem s"
    using assms(1-3) by (simp add: entry_mem_def call_mem_def del: map_eq_conv)
  then show c: "hook_call env t = hook_answer env s"
    using assms(2,4) by (simp add: hook_call_def hook_answer_def)
  show "hook_keeps env t a n = answer_keeps env s a n"
    using m c assms(1) by (simp add: hook_keeps_def answer_keeps_def)
qed

lemma even_target:
  fixes a :: u64
  assumes "a AND NOT 1 = a" and "k \<in> {20, 40, 56}"
  shows "(a - k) AND NOT 1 = a - k"
proof -
  have iff: "x AND NOT 1 = x \<longleftrightarrow> even x" for x :: u64
    using and_page_mask [of x 1] by (auto simp: even_iff_mod_2_eq_zero)
  have "even k" using assms(2) by auto
  with assms(1) show ?thesis unfolding iff by simp
qed

lemma spill_frame_304:
  assumes "\<not> in_range b 304 x"
    and "\<And>off v. (off, v) \<in> set xs \<Longrightarrow> unat off + 8 \<le> 304"
  shows "mem64.spill b xs m x = m x"
proof (rule mem64.spill_frame)
  fix off v assume "(off, v) \<in> set xs"
  from assms(2) [OF this] show "\<not> in_range (b + off) 8 x" using assms(1) in_range_inner by blast
qed

lemma call_mem_frame:
  assumes "\<not> in_range (rreg s SP - 304) 304 x"
  shows "call_mem s x = mem s x" and "trampoline_mem s x = mem s x"
proof -
  show t: "trampoline_mem s x = mem s x"
    unfolding trampoline_mem_def using assms by (rule spill_frame_304) (auto simp: saved_slots_def)
  have "call_mem s x = trampoline_mem s x"
    unfolding call_mem_def using assms slots_bounds by (intro spill_frame_304) auto
  with t show "call_mem s x = mem s x" by simp
qed

text \<open>The state at the chosen return path.\<close>

definition at_return :: "u64 \<Rightarrow> u64 \<Rightarrow> machine \<Rightarrow> machine \<Rightarrow> bool" where
  "at_return rgp k s u \<longleftrightarrow>
     pc u = rgp - k \<and> rreg u SP = rreg s SP - 304 \<and> perm u = perm s \<and> rreg u GP = rgp \<and>
     (\<forall>r < 32. r \<notin> {SP, GP, T0, A0} \<longrightarrow> rreg u r = rreg s r) \<and> (\<forall>f < 32. fregs u f = fregs s f) \<and>
     load64 (mem u) (rreg u SP) = rreg s T0 \<and> load64 (mem u) (rreg u SP + 288) = pc s + 4 \<and>
     runnable u (rgp - 56) return_words \<and> frame_readable u"

lemma code_off_frame:
  assumes "intercept_ok env hook rgp s" and "in_range (rgp - 56) 56 x"
  shows "\<not> in_range (rreg s SP - 304) 304 x"
proof -
  have "separate (rreg s SP - 304) 304 (rgp - 56) 136" using assms(1) by (simp add: intercept_ok_def)
  moreover have "in_range (rgp - 56) 136 x" using assms(2) by (simp add: in_range_def)
  ultimately show ?thesis using separate_disjoint by blast
qed

lemma entered_ok:
  assumes ok: "intercept_ok env hook rgp s"
    and t: "rreg t SP = rreg s SP - 304" "perm t = perm s" "mem t = trampoline_mem s" "rreg t GP = pc s + 4"
      "\<forall>r. r \<notin> {SP, GP, T0, T1, T2, T3} \<longrightarrow> rreg t r = rreg s r" "fregs t = fregs s"
  shows "entry_ok env rgp t" and "runnable t (rgp - 56) return_words"
proof -
  have sep: "separate (rreg s SP - 304) 304 (env_rgp_addr env) 8" using ok by (simp add: intercept_ok_def)
  have "load64 (trampoline_mem s) (env_rgp_addr env) = load64 (mem s) (env_rgp_addr env)"
    by (rule mem64.ld_cong) (rule call_mem_frame(2), use separate_disjoint [OF sep] in blast)
  then show "entry_ok env rgp t"
    using ok t(1-3) entry_mem_entered(3) [OF t(1,4,3,5,6)] by (simp add: entry_ok_def intercept_ok_def)
  have "mem t x = mem s x" if "in_range (rgp - 56) 56 x" for x
    unfolding t(3) using code_off_frame [OF ok that] by (rule call_mem_frame(2))
  then show "runnable t (rgp - 56) return_words"
    using t(2) by (intro runnable_frame [OF intercept_okD(1) [OF ok]]) (simp_all add: length_words)
qed

lemma trampoline_slot:
  "load64 (trampoline_mem s) (rreg s SP - 304) = rreg s T0"
  "load64 (trampoline_mem s) (rreg s SP - 304 + 8) = rreg s T1"
  "load64 (trampoline_mem s) (rreg s SP - 304 + 16) = rreg s T2"
  "load64 (trampoline_mem s) (rreg s SP - 304 + 24) = rreg s T3"
  using trampoline_mem_slots [of s] by simp_all

lemma intercepted_return:
  assumes ok: "intercept_ok env hook rgp s" and nr: "rreg s A7 \<noteq> 139"
  shows "\<exists>u. intercepted env s = Some u \<and>
    at_return rgp (exit_offset (ret_a1 (snd (hook_answer env s))) (rreg s A7)) s u \<and>
    rreg u A0 = ret_a0 (snd (hook_answer env s)) \<and>
    mem u = env_frame env (rreg s SP - 304) (fst (hook_answer env s))"
proof -
  obtain t where run: "cpu_run 21 s = Next t" and t: "rreg t SP = rreg s SP - 304" "rreg t GP = pc s + 4"
      "\<forall>r. r \<notin> {SP, GP, T0, T1, T2, T3} \<longrightarrow> rreg t r = rreg s r" "fregs t = fregs s" "perm t = perm s"
      "mem t = trampoline_mem s"
    using patched_enters [OF ok] by blast
  note e = entered_ok [OF ok t(1,5,6,2,3,4)]
  have call: "entry_mem t = call_mem s" "hook_call env t = hook_answer env s"
    using entry_mem_entered [OF t(1,2,6,3,4)] by blast+
  have nr': "rreg t A7 \<noteq> 139" "rreg t A7 = rreg s A7" using nr t(3) by simp_all
  let ?dst = "rgp - exit_offset (ret_a1 (snd (hook_answer env s))) (rreg s A7)"
  let ?u = "left_at ?dst (restored env t)"
  have asm: "asm_run env asm_syscall_hook 85 asm_syscall_hook t = Leave ?u"
    using asm_syscall_hook_exit [OF e(1) nr'(1), of 0] by (simp add: call(2) nr'(2))
  then have u: "intercepted env s = Some ?u" using run by (simp add: intercepted_def)
  have keep: "hook_keeps env t (rreg t SP) 304" "answer_keeps env s (rgp - 56) 56"
    using ok t(1) entry_mem_entered(3) [OF t(1,2,6,3,4)] by (simp_all add: intercept_ok_def)
  note regs = restored_trampoline [OF keep(1)] restored_result [of env t] restored_rest [OF keep(1)]
  have mem: "mem ?u = env_frame env (rreg s SP - 304) (fst (hook_answer env s))"
    using call(2) t(1) by simp
  have dst: "?dst AND NOT 1 = ?dst"
    using ok by (intro even_target) (auto simp: intercept_ok_def exit_offset_def)
  have r: "rreg ?u r = rreg s r" if "r < 32" "r \<notin> {SP, GP, T0, A0}" for r
    using that regs(1,2,3) regs(7) [of r] t trampoline_slot [of s] by (cases "r \<in> {T1, T2, T3}") auto
  have sp: "rreg ?u SP = rreg s SP - 304" using regs(7) [of SP] t(1) by simp
  have gp: "rreg ?u GP = rgp" using regs(5) entry_okD(1) [OF e(1)] by simp
  have t0: "load64 (mem ?u) (rreg ?u SP) = rreg s T0"
    using kept_load [OF keep(1), of 0] entry_slots(3) [of 0 t] sp mem t(1,6) trampoline_slot(1) call(2)
    by simp
  have ra: "load64 (mem ?u) (rreg ?u SP + 288) = pc s + 4"
    using kept_load [OF keep(1), of 288] entry_slots(2) [of t] sp mem t(1,2) call(2) by simp
  have "mem ?u x = mem t x" if "in_range (rgp - 56) 56 x" for x
    using code_off_frame [OF ok that] keep(2) that call_mem_frame [of s x] mem t(6) by (simp add: answer_keeps_def)
  then have code: "runnable ?u (rgp - 56) return_words"
    by (intro runnable_frame [OF e(2)]) (simp_all add: length_words)
  have "allowed (perm s) PROT_READ (rreg s SP - 304) 304" using ok by (simp add: intercept_ok_def)
  then have fr: "frame_readable ?u"
    using allowed_inner [of "perm s" PROT_READ "rreg s SP - 304" 304 288 8]
      allowed_inner [of "perm s" PROT_READ "rreg s SP - 304" 304 0 8] sp t(5)
    by (simp add: frame_readable_def)
  show ?thesis
    using u r sp gp t0 ra code fr mem dst regs(4,8) t(4,5) call(2)
    by (simp add: at_return_def)
qed

text \<open>\<open>rt_sigreturn\<close> takes the forwarding path without the hook.\<close>

lemma intercepted_sigreturn:
  assumes ok: "intercept_ok env hook rgp s" and nr: "rreg s A7 = 139"
  shows "\<exists>u. intercepted env s = Some u \<and> pc u = rgp - 40 \<and> rreg u SP = rreg s SP - 304 \<and>
    (\<forall>r. r \<notin> {SP, GP, T0} \<longrightarrow> rreg u r = rreg s r) \<and> runnable u (rgp - 56) return_words"
proof -
  obtain t where run: "cpu_run 21 s = Next t" and t: "rreg t SP = rreg s SP - 304" "rreg t GP = pc s + 4"
      "\<forall>r. r \<notin> {SP, GP, T0, T1, T2, T3} \<longrightarrow> rreg t r = rreg s r" "perm t = perm s"
      "mem t = trampoline_mem s" "fregs t = fregs s"
    using patched_enters [OF ok] by blast
  note e = entered_ok [OF ok t(1,4,5,2,3,6)]
  let ?v = "fold restore trampoline_slots (entered env t)"
  let ?u = "left_at (rgp - 40) ?v"
  have "asm_run env asm_syscall_hook 85 asm_syscall_hook t = Leave ?u"
    using asm_syscall_hook_sigreturn_exit [OF e(1), of 64] nr t(3) by simp
  then have u: "intercepted env s = Some ?u" using run by (simp add: intercepted_def)
  have slot: "load64 (store64 (trampoline_mem s) (rreg s SP - 304 + 288) v) (rreg s SP - 304 + off) =
      load64 (trampoline_mem s) (rreg s SP - 304 + off)" if "off \<in> {8, 16, 24}" for off v
    using that by (intro mem64.ld_st_separate) (auto simp: separate_def)
  have "rreg ?u r = rreg s r" if "r \<notin> {SP, GP, T0}" for r
    using that t slot [of 8] slot [of 16] slot [of 24] trampoline_slot [of s]
    by (auto simp: trampoline_slots_def restore_def machine_simps rreg_entered Let_def)
  moreover have "rreg ?u SP = rreg s SP - 304"
    using t(1) by (simp add: trampoline_slots_def restore_def machine_simps rreg_entered Let_def)
  moreover have "pc ?u = rgp - 40"
    using ok even_target [of rgp 40] by (simp add: intercept_ok_def)
  moreover have "mem ?u x = mem t x" if "in_range (rgp - 56) 56 x" for x
  proof -
    have "\<not> in_range (rreg t SP + 288) 8 x"
      using code_off_frame [OF ok that] in_range_inner [of 288 8 304 "rreg s SP - 304" x] t(1) by auto
    then show ?thesis by (simp add: mem64.st_frame)
  qed
  then have "runnable ?u (rgp - 56) return_words"
    by (intro runnable_frame [OF e(2)]) (simp_all add: length_words)
  ultimately show ?thesis using u by blast
qed

lemma hook_answer_forward:
  "ret_a1 (snd (hook_answer env s)) = 0 \<Longrightarrow> ret_a0 (snd (hook_answer env s)) = rreg s A0"
  by (auto simp: hook_answer_def syscall_hook_def Let_def split: prod.splits if_splits)

text \<open>What the kernel promises of a system call: it resumes after the \<open>ecall\<close> with only \<open>a0\<close>
  changed, and changes neither bytes nor protection of the caller's frame and the code.\<close>

definition kernel_returns :: "u64 \<Rightarrow> machine \<Rightarrow> machine \<Rightarrow> bool" where
  "kernel_returns rgp u k \<longleftrightarrow>
     pc k = pc u + 4 \<and> fregs k = fregs u \<and> (\<forall>r. r \<noteq> A0 \<longrightarrow> rreg k r = rreg u r) \<and>
     (\<forall>x. in_range (rgp - 56) 56 x \<or> in_range (rreg u SP) 304 x \<longrightarrow> mem k x = mem u x \<and> perm k x = perm u x)"

lemma kernel_return:
  assumes ok: "intercept_ok env hook rgp s" and u: "at_return rgp 40 s u" and k: "kernel_returns rgp u k"
  shows "\<exists>v. cpu_run 5 k = Next v \<and> pc v = pc s + 4 \<and> rreg v A0 = rreg k A0 \<and>
    (\<forall>r < 32. r \<noteq> A0 \<longrightarrow> rreg v r = rreg s r) \<and> (\<forall>f < 32. fregs v f = fregs s f) \<and> mem v = mem k \<and> perm v = perm k"
proof -
  have gp: "rreg s GP = rgp" "(pc s + 4) AND NOT 1 = pc s + 4"
    using ok by (simp_all add: intercept_ok_def)
  have regs: "rreg k r = rreg u r" if "r \<noteq> A0" for r
    using k that unfolding kernel_returns_def by blast
  have mem: "mem k x = mem u x" "perm k x = perm u x" if "in_range (rgp - 56) 56 x \<or> in_range (rreg u SP) 304 x" for x
    using k that unfolding kernel_returns_def by blast+
  have other: "fregs k = fregs u" "pc k = rgp - 56 + 20"
    using k u by (simp_all add: kernel_returns_def at_return_def)
  have slot: "load64 (mem k) (rreg u SP + off) = load64 (mem u) (rreg u SP + off)"
    if "unat off + 8 \<le> 304" for off
    using in_range_inner [OF that] mem by (intro mem64.ld_cong) blast
  have "runnable u (rgp - 56) return_words" "frame_readable u"
    using u by (simp_all add: at_return_def)
  moreover have "allowed (perm k) PROT_READ (rreg u SP + off) 8 = allowed (perm u) PROT_READ (rreg u SP + off) 8"
    if "unat off + 8 \<le> 304" for off
    using in_range_inner [OF that] mem by (intro allowed_cong) blast
  from this [of 288] this [of 0] have "frame_readable k = frame_readable u"
    using regs [of SP] by (simp add: frame_readable_def)
  ultimately have "runnable k (rgp - 56) return_words" "frame_readable k"
    using runnable_local [of u "rgp - 56" return_words k] mem by (simp_all add: length_words)
  then have "cpu_run 5 k = Next (returned (rgp - 56) k)"
    using other by (intro return_tail) auto
  moreover have "rreg (returned (rgp - 56) k) r = rreg s r" if "r < 32" "r \<noteq> A0" for r
    using that u gp regs [of r] regs [of SP] slot [of 0] by (auto simp: at_return_def rreg_returned)
  moreover have "pc (returned (rgp - 56) k) = pc s + 4"
  proof -
    have "rreg k SP = rreg u SP" by (rule regs) simp
    moreover have "load64 (mem k) (rreg u SP + 288) = load64 (mem u) (rreg u SP + 288)"
      by (rule slot) simp
    moreover have "load64 (mem u) (rreg u SP + 288) = pc s + 4"
      using u unfolding at_return_def by blast
    ultimately show ?thesis using gp(2) by (simp only: returned_sel)
  qed
  ultimately show ?thesis
    using u other by (auto simp: at_return_def rreg_returned)
qed

text \<open>What the return path of a handled call leaves.\<close>

lemma handled_return:
  assumes ok: "intercept_ok env hook rgp s" and u: "at_return rgp 56 s u"
  shows "\<exists>v. cpu_run 5 u = Next v \<and> pc v = pc s + 4 \<and> rreg v A0 = rreg u A0 \<and>
    (\<forall>r < 32. r \<noteq> A0 \<longrightarrow> rreg v r = rreg s r) \<and> (\<forall>f < 32. fregs v f = fregs s f) \<and> mem v = mem u \<and> perm v = perm s"
proof -
  have gp: "rreg s GP = rgp" "(pc s + 4) AND NOT 1 = pc s + 4"
    using ok by (simp_all add: intercept_ok_def)
  from u have "cpu_run 5 u = Next (returned (rgp - 56) u)"
    by (intro return_tail) (auto simp: at_return_def)
  with u gp show ?thesis
    by (intro exI [of _ "returned (rgp - 56) u"]) (auto simp: at_return_def rreg_returned)
qed

text \<open>The path of \<open>clone\<close>: the call with the whole context restored, then one jump.\<close>

lemma clone_return:
  assumes ok: "intercept_ok env hook rgp s" and u: "at_return rgp 20 s u" "rreg u A0 = rreg s A0"
  obtains e where "cpu_run 4 u = Ecall e" "\<forall>r < 32. r \<noteq> GP \<longrightarrow> rreg e r = rreg s r" "\<forall>f < 32. fregs e f = fregs s f"
    "mem e = mem u" "perm e = perm s" "rreg e GP = pc s + 4" "runnable e (rgp - 56) return_words"
    "\<And>k. pc k = pc e + 4 \<Longrightarrow> rreg k GP = pc s + 4 \<Longrightarrow> runnable k (rgp - 56) return_words \<Longrightarrow>
      cpu_run 1 k = Next ((wreg GP rgp k)\<lparr>pc := pc s + 4\<rparr>)"
proof
  let ?e = "advance 12 (released u)"
  have even: "(pc s + 4) AND NOT 1 = pc s + 4" using ok by (simp add: intercept_ok_def)
  show "cpu_run 4 u = Ecall ?e"
    using u(1) by (intro return_clone [of u "rgp - 56"]) (simp_all add: at_return_def)
  show "\<forall>r < 32. r \<noteq> GP \<longrightarrow> rreg ?e r = rreg s r"
    using u by (auto simp: at_return_def rreg_released)
  show gp: "rreg ?e GP = pc s + 4" using u by (auto simp: at_return_def rreg_released)
  show "runnable ?e (rgp - 56) return_words" using u(1) by (simp add: at_return_def runnable_released)
  have "pc ?e + 4 = rgp - 56 + 52" using u(1) by (simp add: at_return_def)
  then show "cpu_run 1 k = Next ((wreg GP rgp k)\<lparr>pc := pc s + 4\<rparr>)"
    if "pc k = pc ?e + 4" "rreg k GP = pc s + 4" "runnable k (rgp - 56) return_words" for k
    using return_jump [OF that(3)] that(1,2) even by simp
qed (use u in \<open>auto simp: at_return_def\<close>)

section \<open>Properties\<close>

text \<open>C2: a system call the hook handles. From the patched instruction the program comes back to
  the one after it with every register, floating-point ones included, as it was, except \<open>a0\<close>, which
  holds the hook's result; memory is what the hook left, and no environment call is made.\<close>

theorem handled_call_transparent:
  assumes "intercept_ok env hook rgp s" and "rreg s A7 \<noteq> 139"
    and "ret_a1 (snd (hook_answer env s)) = 1"
  shows "\<exists>u v. intercepted env s = Some u \<and> cpu_run 5 u = Next v \<and> pc v = pc s + 4 \<and>
    rreg v A0 = ret_a0 (snd (hook_answer env s)) \<and>
    (\<forall>r < 32. r \<noteq> A0 \<longrightarrow> rreg v r = rreg s r) \<and> (\<forall>f < 32. fregs v f = fregs s f) \<and>
    mem v = env_frame env (rreg s SP - 304) (fst (hook_answer env s)) \<and> perm v = perm s"
proof -
  from intercepted_return [OF assms(1,2)] obtain u
    where u: "intercepted env s = Some u" "at_return rgp 56 s u"
      "rreg u A0 = ret_a0 (snd (hook_answer env s))"
      "mem u = env_frame env (rreg s SP - 304) (fst (hook_answer env s))"
    by (auto simp: assms(3) exit_offset_def)
  with handled_return [OF assms(1) u(2)] show ?thesis by auto
qed

text \<open>C3: a system call that is forwarded. The environment call is made with every register the
  kernel reads as the program set it; once the kernel has returned, having changed no register but
  \<open>a0\<close> and neither the frame nor the return sequence, the program continues after the patched
  instruction with the kernel's \<open>a0\<close> and all its other registers as they were.\<close>

theorem forwarded_call_transparent:
  assumes "intercept_ok env hook rgp s" and "rreg s A7 \<notin> {139, 220, 435}"
    and "ret_a1 (snd (hook_answer env s)) = 0"
  shows "\<exists>u. intercepted env s = Some u \<and> cpu_run 1 u = Ecall u \<and>
    rreg u A0 = rreg s A0 \<and> (\<forall>r < 32. r \<notin> {SP, GP, T0} \<longrightarrow> rreg u r = rreg s r) \<and>
    (\<forall>k. kernel_returns rgp u k \<longrightarrow>
      (\<exists>v. cpu_run 5 k = Next v \<and> pc v = pc s + 4 \<and> rreg v A0 = rreg k A0 \<and>
        (\<forall>r < 32. r \<noteq> A0 \<longrightarrow> rreg v r = rreg s r) \<and> (\<forall>f < 32. fregs v f = fregs s f) \<and>
        mem v = mem k \<and> perm v = perm k))"
proof -
  from intercepted_return [OF assms(1)] assms(2) obtain u
    where u: "intercepted env s = Some u" "at_return rgp 40 s u"
      "rreg u A0 = ret_a0 (snd (hook_answer env s))"
    by (auto simp: assms(3) exit_offset_def)
  have a0: "rreg u A0 = rreg s A0" using u(3) hook_answer_forward [OF assms(3)] by simp
  from u(2) have "cpu_run 1 u = Ecall u"
    by (intro return_ecall [of u "rgp - 56"]) (simp_all add: at_return_def)
  moreover have "\<forall>r < 32. r \<notin> {SP, GP, T0} \<longrightarrow> rreg u r = rreg s r"
    using u(2) a0 by (auto simp: at_return_def)
  ultimately show ?thesis
    using u(1) a0 kernel_return [OF assms(1) u(2)] by blast
qed

text \<open>C10: a forwarded \<open>clone\<close> or \<open>clone3\<close>. At the environment call the whole context is the
  caller's, the stack pointer included, except that \<open>gp\<close> holds the return address; whatever else
  the kernel gives the parent or the child (another stack, another memory), each continues after
  the patched instruction through one jump that touches only \<open>gp\<close> and not the stack.\<close>

theorem clone_full_context:
  assumes "intercept_ok env hook rgp s" and "rreg s A7 \<in> {220, 435}"
    and "ret_a1 (snd (hook_answer env s)) = 0"
  shows "\<exists>u e. intercepted env s = Some u \<and> cpu_run 4 u = Ecall e \<and>
    (\<forall>r < 32. r \<noteq> GP \<longrightarrow> rreg e r = rreg s r) \<and> (\<forall>f < 32. fregs e f = fregs s f) \<and>
    (\<forall>k. pc k = pc e + 4 \<and> rreg k GP = rreg e GP \<and> runnable k (rgp - 56) return_words \<longrightarrow>
      (\<exists>v. cpu_run 1 k = Next v \<and> pc v = pc s + 4 \<and> rreg v GP = rgp \<and>
        (\<forall>r. r \<noteq> GP \<longrightarrow> rreg v r = rreg k r) \<and> fregs v = fregs k \<and> mem v = mem k))"
proof -
  from intercepted_return [OF assms(1)] assms(2) obtain u
    where u: "intercepted env s = Some u" "at_return rgp 20 s u"
      "rreg u A0 = ret_a0 (snd (hook_answer env s))"
    by (auto simp: assms(3) exit_offset_def)
  have "rreg u A0 = rreg s A0" using u(3) hook_answer_forward [OF assms(3)] by simp
  with assms(1) u(2) obtain e where e: "cpu_run 4 u = Ecall e" "\<forall>r < 32. r \<noteq> GP \<longrightarrow> rreg e r = rreg s r"
      "\<forall>f < 32. fregs e f = fregs s f" "rreg e GP = pc s + 4"
      "\<And>k. pc k = pc e + 4 \<Longrightarrow> rreg k GP = pc s + 4 \<Longrightarrow> runnable k (rgp - 56) return_words \<Longrightarrow>
        cpu_run 1 k = Next ((wreg GP rgp k)\<lparr>pc := pc s + 4\<rparr>)"
    by (rule clone_return) blast
  then show ?thesis
    using u(1) by (intro exI [of _ u] exI [of _ e]) (auto simp: machine_simps)
qed

text \<open>C37: \<open>rt_sigreturn\<close> reaches the kernel with the stack pointer still lowered by the 304 bytes of
  the trampoline's frame, while the kernel looks for the signal frame at the stack pointer; every
  other register but \<open>t0\<close> and \<open>gp\<close> is the caller's.\<close>

theorem rt_sigreturn_with_lowered_sp:
  assumes "intercept_ok env hook rgp s" and "rreg s A7 = 139"
  shows "\<exists>u. intercepted env s = Some u \<and> cpu_run 1 u = Ecall u \<and> rreg u SP = rreg s SP - 304 \<and>
    rreg u SP \<noteq> rreg s SP \<and> (\<forall>r. r \<notin> {SP, GP, T0} \<longrightarrow> rreg u r = rreg s r)"
proof -
  from intercepted_sigreturn [OF assms] obtain u
    where u: "intercepted env s = Some u" "pc u = rgp - 40" "rreg u SP = rreg s SP - 304"
      "\<forall>r. r \<notin> {SP, GP, T0} \<longrightarrow> rreg u r = rreg s r" "runnable u (rgp - 56) return_words" by blast
  then have "cpu_run 1 u = Ecall u" by (intro return_ecall [of u "rgp - 56"]) simp_all
  with u show ?thesis by auto
qed

section \<open>Instances\<close>

text \<open>A machine at a patched instruction at address 0, every page accessible, the code of the set-up
  around \<open>0x20800\<close>; the hook is that of \<open>sample_env\<close>.\<close>

definition sample_call :: "u64 \<Rightarrow> machine" where
  "sample_call nr =
     (sample_state nr)\<lparr>gregs := (gregs (sample_state nr))(GP := 0x20800),
        mem := words_memory 0x207c8 (return_words @ trampoline_words 0x5000)
          (store32 (mem (sample_state nr)) 0 0x000181e7)\<rparr>"

lemma sample_call_sel:
  "rreg (sample_call nr) r =
     (if r = SP then 0x8000 else if r = GP then 0x20800 else if r = A7 then nr else of_nat r)"
  "fregs (sample_call nr) = of_nat" "pc (sample_call nr) = 0" "perm (sample_call nr) = (\<lambda>_. 7)"
  by (auto simp: sample_call_def sample_state_def rreg_def)

lemma sample_answer_keeps: "answer_keeps sample_env s a n"
  by (simp add: answer_keeps_def hook_answer_def syscall_hook_def sample_env_def sample_hook_def)

lemma sample_call_ok: "intercept_ok sample_env 0x5000 0x20800 (sample_call nr)"
proof -
  let ?ws = "return_words @ trampoline_words 0x5000"
  let ?m = "store32 (mem (sample_state nr)) 0 0x000181e7"
  have len: "length ?ws = 34" by (simp add: length_words)
  have mem: "mem (sample_call nr) = words_memory 0x207c8 ?ws ?m" by (simp add: sample_call_def)
  have out: "words_memory 0x207c8 ?ws ?m x = ?m x" if "in_range a n x" "separate a n 0x207c8 136" for a n x
    by (rule words_memory_frame) (use separate_disjoint [OF that(2,1)] in \<open>simp_all only: len\<close>, simp_all)
  have code: "runnable (sample_call nr) 0x207c8 ?ws"
    using code_at_words_memory [of ?ws "0x207c8" ?m] len
    by (simp add: runnable_def mem sample_call_sel allowed_all)
  have "load32 (words_memory 0x207c8 ?ws ?m) 0 = load32 ?m 0"
    by (rule mem32.ld_cong, rule out) (auto simp: separate_def)
  then have jump: "runnable (sample_call nr) 0 [0x000181e7]"
    by (simp add: runnable_def mem sample_call_sel allowed_all mem32.ld_st)
  have "load64 (words_memory 0x207c8 ?ws ?m) 0x1000 = load64 ?m 0x1000"
    by (rule mem64.ld_cong, rule out) (auto simp: separate_def)
  also have "\<dots> = load64 (mem (sample_state nr)) 0x1000"
    using separate_disjoint [of "0x1000" 8 0 4]
    by (intro mem64.ld_cong mem32.st_frame) (auto simp: separate_def)
  finally have var: "load64 (mem (sample_call nr)) 0x1000 = 0x20800"
    by (simp add: mem sample_state_def mem64.ld_st)
  have "env_rgp_addr sample_env = 0x1000" by (simp add: sample_env_def)
  with code jump var show ?thesis
    by (simp add: intercept_ok_def sample_call_sel allowed_all separate_def sample_answer_keeps)
qed

lemma sample_answer:
  "snd (hook_answer sample_env (sample_call nr)) =
     (if nr = 64 then \<lparr>ret_a0 = 42, ret_a1 = 1\<rparr> else \<lparr>ret_a0 = 10, ret_a1 = 0\<rparr>)"
  by (simp add: hook_answer_def syscall_hook_def sample_env_def sample_hook_def sample_call_sel)

theorem handled_call_transparent_witness:
  "\<exists>u v. intercepted sample_env (sample_call 64) = Some u \<and> cpu_run 5 u = Next v \<and>
     pc v = 4 \<and> rreg v A0 = 42 \<and> rreg v A1 = 11 \<and> rreg v SP = 0x8000 \<and> rreg v GP = 0x20800"
  using handled_call_transparent [OF sample_call_ok, of 64]
  by (force simp: sample_call_sel sample_answer)

theorem forwarded_call_transparent_witness:
  "\<exists>u. intercepted sample_env (sample_call 57) = Some u \<and> cpu_run 1 u = Ecall u \<and>
     rreg u A7 = 57 \<and> rreg u A0 = 10 \<and>
     (\<exists>v. cpu_run 5 (advance 4 (wreg A0 3 u)) = Next v \<and> pc v = 4 \<and> rreg v A0 = 3 \<and> rreg v SP = 0x8000)"
proof -
  have "kernel_returns 0x20800 u (advance 4 (wreg A0 3 u))" for u
    by (simp add: kernel_returns_def machine_simps)
  then show ?thesis
    using forwarded_call_transparent [OF sample_call_ok, of 57]
    by (simp add: sample_call_sel sample_answer) (force simp: machine_simps)
qed

theorem clone_full_context_witness:
  "\<exists>u e. intercepted sample_env (sample_call 220) = Some u \<and> cpu_run 4 u = Ecall e \<and>
     rreg e SP = 0x8000 \<and> rreg e A0 = 10"
  using clone_full_context [OF sample_call_ok, of 220]
  by (simp add: sample_call_sel sample_answer) force

theorem rt_sigreturn_with_lowered_sp_witness:
  "\<exists>u. intercepted sample_env (sample_call 139) = Some u \<and> cpu_run 1 u = Ecall u \<and>
     rreg u SP = 0x7ed0 \<and> rreg (sample_call 139) SP = 0x8000"
  using rt_sigreturn_with_lowered_sp [OF sample_call_ok, of 139]
  by (auto simp: sample_call_sel)

end
