(* ===== verification/Interference.thy ===== *)
theory Interference
  imports Interception
begin

text \<open>
  An intercepted call while other threads run. Between any two instructions of the library's code other
  threads may change memory and protections wherever the call has nothing of its own; the theorem
  says that the call does not notice.
\<close>

section \<open>Interference\<close>

text \<open>\<open>P\<close> holds the bytes the running thread relies on: what others do leaves them, and the thread's
  registers, alone.\<close>

definition interferes :: "(u64 \<Rightarrow> bool) \<Rightarrow> machine \<Rightarrow> machine \<Rightarrow> bool" where
  "interferes P s s' \<longleftrightarrow>
     gregs s' = gregs s \<and> fregs s' = fregs s \<and> pc s' = pc s \<and>
     (\<forall>x. P x \<longrightarrow> mem s' x = mem s x \<and> perm s' x = perm s x)"

lemma interferes_refl [simp, intro!]: "interferes P s s"
  by (simp add: interferes_def)

lemma interferes_trans: "interferes P s t \<Longrightarrow> interferes P t u \<Longrightarrow> interferes P s u"
  by (simp add: interferes_def)

text \<open>Machine code and assembly, interrupted before every instruction and at the end.\<close>

inductive cpu_run_with :: "(u64 \<Rightarrow> bool) \<Rightarrow> nat \<Rightarrow> machine \<Rightarrow> outcome \<Rightarrow> bool" for P where
  cpu_stop: "interferes P s t \<Longrightarrow> cpu_run_with P 0 s (Next t)"
| cpu_next: "interferes P s t \<Longrightarrow> cpu_step t = Next u \<Longrightarrow> cpu_run_with P n u q \<Longrightarrow> cpu_run_with P (Suc n) s q"
| cpu_halt: "interferes P s t \<Longrightarrow> cpu_step t = q \<Longrightarrow> \<forall>u. q \<noteq> Next u \<Longrightarrow> cpu_run_with P (Suc n) s q"

inductive asm_run_with ::
  "(u64 \<Rightarrow> bool) \<Rightarrow> hook_env \<Rightarrow> asm list \<Rightarrow> nat \<Rightarrow> asm list \<Rightarrow> machine \<Rightarrow> asm_out \<Rightarrow> bool" for P env prog where
  asm_fuel: "asm_run_with P env prog 0 rest s Out_of_fuel"
| asm_next: "interferes P s t \<Longrightarrow> asm_step env prog rest t = Inl (rest', u) \<Longrightarrow> asm_run_with P env prog n rest' u q \<Longrightarrow>
    asm_run_with P env prog (Suc n) rest s q"
| asm_halt: "interferes P s t \<Longrightarrow> asm_step env prog rest t = Inr q \<Longrightarrow> asm_run_with P env prog (Suc n) rest s q"

inductive_cases cpu_run_with_0: "cpu_run_with P 0 s q"
inductive_cases cpu_run_with_Suc: "cpu_run_with P (Suc n) s q"
inductive_cases asm_run_with_0: "asm_run_with P env prog 0 rest s q"
inductive_cases asm_run_with_Suc: "asm_run_with P env prog (Suc n) rest s q"

text \<open>Runs exist, the undisturbed one for instance.\<close>

lemma cpu_run_undisturbed: "cpu_run_with P n s (cpu_run n s)"
  by (induction n arbitrary: s) (auto intro: cpu_run_with.intros split: outcome.splits)

lemma asm_run_undisturbed: "asm_run_with P env prog n rest s (asm_run env prog n rest s)"
  by (induction n arbitrary: rest s) (auto intro: asm_run_with.intros split: sum.splits)

section \<open>A machine of its own\<close>

text \<open>
  The thread's run is compared with one on a machine that has only the bytes of \<open>P\<close>: every other page is
  inaccessible there, so that a run that does not fault uses nothing but \<open>P\<close>.
\<close>

definition covers :: "(u64 \<Rightarrow> bool) \<Rightarrow> machine \<Rightarrow> machine \<Rightarrow> bool" where
  "covers P t s \<longleftrightarrow>
     gregs t = gregs s \<and> fregs t = fregs s \<and> pc t = pc s \<and> (\<forall>x. P x \<longrightarrow> mem t x = mem s x) \<and>
     (\<forall>x. perm t x \<noteq> 0 \<longrightarrow> P x \<and> perm t x = perm s x)"

definition confined :: "(u64 \<Rightarrow> bool) \<Rightarrow> machine \<Rightarrow> machine" where
  "confined P s = s\<lparr>perm := (\<lambda>x. if P x then perm s x else 0)\<rparr>"

lemma confined_covers: "covers P (confined P s) s"
  by (simp add: covers_def confined_def)

lemma covers_interferes: "covers P t s \<Longrightarrow> interferes P s s' \<Longrightarrow> covers P t s'"
  by (auto simp: covers_def interferes_def)

lemma covers_mem: "covers P t s \<Longrightarrow> P x \<Longrightarrow> mem t x = mem s x"
  by (simp add: covers_def)

lemma covers_rreg: "covers P t s \<Longrightarrow> rreg t r = rreg s r"
  by (simp add: covers_def rreg_def)

lemma covers_allowed:
  assumes c: "covers P t s" and a: "allowed (perm t) w a k" and w: "w \<noteq> 0"
  shows "allowed (perm s) w a k" and "in_range a k x \<Longrightarrow> P x"
proof -
  have p: "P (a + of_nat i) \<and> perm s (a + of_nat i) AND w = w" if "i < k" for i
  proof -
    have "perm t (a + of_nat i) AND w = w" using a that by (simp add: allowed_iff)
    moreover from this have "perm t (a + of_nat i) \<noteq> 0" using w by auto
    ultimately show ?thesis using c by (auto simp: covers_def)
  qed
  then show "allowed (perm s) w a k" by (simp add: allowed_iff)
  show "P x" if "in_range a k x"
    using p [of "unat (x - a)"] that by (simp add: in_range_def)
qed

lemma exec_covers:
  assumes c: "covers P t s"
  shows "exec i k t = Next t' \<Longrightarrow> \<exists>s'. exec i k s = Next s' \<and> covers P t' s'"
    and "exec i k t = Ecall t' \<Longrightarrow> exec i k s = Ecall s \<and> t' = t"
proof -
  note regs = covers_rreg [OF c]
  have pc: "pc t = pc s" using c by (simp add: covers_def)
  have w: "covers P (wreg r v t) (wreg r v s)" for r v using c by (simp add: covers_def wreg_def)
  have p: "covers P (a\<lparr>pc := v\<rparr>) (b\<lparr>pc := v\<rparr>)" "covers P (advance v a) (advance v b)" if "covers P a b" for a b v
    using that by (simp_all add: covers_def advance_def)
  show "\<exists>s'. exec i k s = Next s' \<and> covers P t' s'" if run: "exec i k t = Next t'"
  proof (cases "is_access i")
    case False
    with run regs pc c show ?thesis by (cases i) (auto intro!: p w split: if_splits)
  next
    case True
    let ?a = "eff_addr i t"
    have a: "eff_addr i s = ?a" using regs by (cases i) simp_all
    have t': "allowed (perm t) (access_prot i) ?a (access_width i)" "t' = advance k (access_at i ?a t)"
      using run True by (auto simp: exec_access Let_def split: if_splits)
    have prot: "access_prot i \<noteq> 0" using True by (cases i) (simp_all add: prot_defs)
    note al = covers_allowed [OF c t'(1) prot]
    have eq: "mem t x = mem s x" if "in_range ?a (access_width i) x" for x
      using al(2) [OF that] c by (simp add: covers_def)
    have "covers P (access_at i ?a t) (access_at i ?a s)"
    proof (cases i)
      case (LOAD kd rd rs off)
      have "load_value kd (mem t) ?a = load_value kd (mem s) ?a" using eq unfolding LOAD by (rule load_value_cong)
      then show ?thesis by (simp add: LOAD w)
    next
      case (FLOAD kd rd rs off)
      have "fload_value kd (mem t) ?a = fload_value kd (mem s) ?a" using eq unfolding FLOAD by (rule fload_value_cong)
      then show ?thesis using c by (simp add: FLOAD covers_def wfreg_def)
    next
      case (STORE kd rs2 rs off)
      then show ?thesis using c regs by (auto simp: covers_def intro: store_value_cong)
    next
      case (FSTORE kd rs2 rs off)
      then show ?thesis using c by (auto simp: covers_def intro: store_value_cong)
    qed (use True in simp_all)
    then show ?thesis using True al(1) t'(2) a by (auto simp: exec_access Let_def intro: p)
  qed
  show "exec i k s = Ecall s \<and> t' = t" if "exec i k t = Ecall t'"
    using that by (cases i) (auto simp: Let_def split: if_splits)
qed

lemma cpu_step_covers:
  assumes c: "covers P t s"
  shows "cpu_step t = Next t' \<Longrightarrow> \<exists>s'. cpu_step s = Next s' \<and> covers P t' s'"
    and "cpu_step t = Ecall t' \<Longrightarrow> cpu_step s = Ecall s \<and> t' = t"
proof -
  have pc: "pc t = pc s" using c by (simp add: covers_def)
  have step: "cpu_step s = (case decode32 (load32 (mem t) (pc t)) of None \<Rightarrow> Illegal s | Some i \<Rightarrow> exec i 4 s)"
    if "allowed (perm t) PROT_EXEC (pc t) 4"
  proof -
    have "PROT_EXEC \<noteq> 0" by (simp add: prot_defs)
    note al = covers_allowed [OF c that this]
    have "load32 (mem t) (pc t) = load32 (mem s) (pc t)"
      using al(2) c by (intro mem32.ld_cong) (simp add: covers_def)
    then show ?thesis using al(1) pc by (simp add: cpu_step_def)
  qed
  show "cpu_step t = Next t' \<Longrightarrow> \<exists>s'. cpu_step s = Next s' \<and> covers P t' s'"
    and "cpu_step t = Ecall t' \<Longrightarrow> cpu_step s = Ecall s \<and> t' = t"
    using exec_covers [OF c] step by (auto simp: cpu_step_def [of t] split: if_splits option.splits)
qed

lemma cpu_run_covers:
  "cpu_run_with P n s q \<Longrightarrow> covers P t s \<Longrightarrow> cpu_run n t = Next t' \<Longrightarrow> \<exists>s'. q = Next s' \<and> covers P t' s'"
proof (induction arbitrary: t rule: cpu_run_with.induct)
  case (cpu_stop s s1)
  then show ?case using covers_interferes by auto
next
  case (cpu_next s s1 u n q)
  have c: "covers P t s1" using covers_interferes cpu_next by blast
  obtain t1 where "cpu_step t = Next t1" "cpu_run n t1 = Next t'"
    using cpu_next.prems(2) by (auto split: outcome.splits)
  with cpu_next cpu_step_covers(1) [OF c] show ?case by auto
next
  case (cpu_halt s s1 q n)
  have c: "covers P t s1" using covers_interferes cpu_halt by blast
  obtain t1 where "cpu_step t = Next t1"
    using cpu_halt.prems(2) by (auto split: outcome.splits)
  with cpu_halt cpu_step_covers(1) [OF c] show ?case by auto
qed

lemma cpu_run_covers_ecall:
  "cpu_run_with P n s q \<Longrightarrow> covers P t s \<Longrightarrow> cpu_run n t = Ecall t' \<Longrightarrow> \<exists>s'. q = Ecall s' \<and> covers P t' s'"
proof (induction arbitrary: t rule: cpu_run_with.induct)
  case (cpu_stop s s1)
  then show ?case by simp
next
  case (cpu_next s s1 u n q)
  have c: "covers P t s1" using covers_interferes cpu_next by blast
  consider t1 where "cpu_step t = Next t1" "cpu_run n t1 = Ecall t'" | "cpu_step t = Ecall t'"
    using cpu_next.prems(2) by (auto split: outcome.splits)
  then show ?case using cpu_next cpu_step_covers [OF c] by cases auto
next
  case (cpu_halt s s1 q n)
  have c: "covers P t s1" using covers_interferes cpu_halt by blast
  consider t1 where "cpu_step t = Next t1" | "cpu_step t = Ecall t'"
    using cpu_halt.prems(2) by (auto split: outcome.splits)
  then show ?case using cpu_halt cpu_step_covers [OF c] c by cases auto
qed

section \<open>The assembly\<close>

text \<open>The registers that \<open>syscall_hook\<close> gets its stack and its arguments in, the return address apart.\<close>

abbreviation "call_regs \<equiv> {SP, A0, A1, A2, A3, A4, A5, A7}"

definition same_call :: "machine \<Rightarrow> machine \<Rightarrow> bool" where
  "same_call s h \<longleftrightarrow> (\<forall>r \<in> call_regs. rreg h r = rreg s r)"

text \<open>Operations that write no memory, and operations before the call of the hook that keep those registers.\<close>

fun quiet :: "asm \<Rightarrow> bool" where
  "quiet Call_syscall_hook = False"
| "quiet (Ins (STORE k rs2 rs1 off)) = False"
| "quiet (Ins (FSTORE k rs2 rs1 off)) = False"
| "quiet i = True"

fun steady :: "asm \<Rightarrow> bool" where
  "steady Call_syscall_hook = False"
| "steady (Ins (STORE k rs2 rs1 off)) = True"
| "steady (Ins (FSTORE k rs2 rs1 off)) = True"
| "steady (Ins (LOAD k rd rs1 off)) = (rd \<notin> call_regs)"
| "steady (Ins i) = False"
| "steady (La_relocated_global_pointer r) = (r \<notin> call_regs)"
| "steady (Li r v) = (r \<notin> call_regs)"
| "steady (Mv r q) = (r \<notin> call_regs)"
| "steady i = True"

lemma asm_step_Ins:
  "\<forall>rd rs off. i \<noteq> JALR rd rs off \<Longrightarrow> asm_step env prog (Ins i # rest) s =
     (case exec i 0 s of
        Next s' \<Rightarrow> Inl (rest, s')
      | Ecall s' \<Rightarrow> Inr (Asm_ecall s' rest)
      | Break s' \<Rightarrow> Inr (Asm_break s')
      | Fault a s' \<Rightarrow> Inr (Asm_fault a s')
      | Illegal s' \<Rightarrow> Inr Asm_stuck)"
  by (cases i) simp_all

lemma quiet_step:
  assumes "quiet op" and "asm_step env prog (op # rest) s = Inl (rest', s')"
  shows "mem s' = mem s"
proof (cases op)
  case (Ins i)
  with assms show ?thesis by (cases i) (auto simp: Let_def split: if_splits)
qed (use assms in auto)

lemma steady_step:
  assumes "steady op" and "asm_step env prog (op # rest) s = Inl (rest', s')"
  shows "same_call s s'"
proof (cases op)
  case (Ins i)
  with assms show ?thesis by (cases i) (auto simp: same_call_def Let_def machine_simps split: if_splits)
qed (use assms in \<open>auto simp: same_call_def machine_simps\<close>)

text \<open>Where an operation goes on.\<close>

lemma asm_step_rest:
  assumes "asm_step env prog (op # rest) s = Inl (rest', s')"
  shows "rest' = rest \<or> (\<exists>l. rest' = target prog l)"
proof (cases op)
  case (Ins i)
  with assms show ?thesis by (cases i) (auto simp: Let_def split: if_splits)
qed (use assms in \<open>auto split: if_splits\<close>)

lemma asm_step_Leave_mem:
  assumes "asm_step env prog (op # rest) s = Inr (Leave s')"
  shows "mem s' = mem s"
proof (cases op)
  case (Ins i)
  with assms show ?thesis by (cases i) (auto simp: Let_def split: if_splits)
qed (use assms in auto)

lemma asm_step_covers:
  assumes c: "covers P t s" and env: "env_rgp_addr e = env_rgp_addr env" and op: "op \<noteq> Call_syscall_hook"
  shows "asm_step e prog (op # rest) t = Inl (rest', t') \<Longrightarrow>
      \<exists>s'. asm_step env prog (op # rest) s = Inl (rest', s') \<and> covers P t' s'"
    and "asm_step e prog (op # rest) t = Inr (Leave t') \<Longrightarrow>
      \<exists>s'. asm_step env prog (op # rest) s = Inr (Leave s') \<and> covers P t' s'"
proof -
  note regs = covers_rreg [OF c]
  have w: "covers P (wreg r v t) (wreg r v s)" for r v using c by (simp add: covers_def wreg_def)
  have "(\<forall>rest' t'. asm_step e prog (op # rest) t = Inl (rest', t') \<longrightarrow>
      (\<exists>s'. asm_step env prog (op # rest) s = Inl (rest', s') \<and> covers P t' s')) \<and>
    (\<forall>t'. asm_step e prog (op # rest) t = Inr (Leave t') \<longrightarrow>
      (\<exists>s'. asm_step env prog (op # rest) s = Inr (Leave s') \<and> covers P t' s'))"
  proof (cases op)
    case (Ins i)
    show ?thesis
    proof (cases "\<exists>rd rs off. i = JALR rd rs off")
      case True
      then show ?thesis using Ins c regs by (auto simp: covers_def split: if_splits)
    next
      case False
      then show ?thesis
        using Ins exec_covers(1) [OF c, of i 0] by (auto simp: asm_step_Ins split: outcome.splits)
    qed
  qed (use op env c regs in \<open>auto intro: w\<close>)
  then show "asm_step e prog (op # rest) t = Inl (rest', t') \<Longrightarrow>
      \<exists>s'. asm_step env prog (op # rest) s = Inl (rest', s') \<and> covers P t' s'"
    and "asm_step e prog (op # rest) t = Inr (Leave t') \<Longrightarrow>
      \<exists>s'. asm_step env prog (op # rest) s = Inr (Leave s') \<and> covers P t' s'"
    by blast+
qed

lemma asm_run_Leave:
  assumes "asm_run e prog (Suc n) rest t = Leave t'"
  obtains (step) rest' u where "asm_step e prog rest t = Inl (rest', u)" "asm_run e prog n rest' u = Leave t'"
    | (leave) "asm_step e prog rest t = Inr (Leave t')"
  using assms by (auto split: sum.splits)

lemma asm_run_covers_quiet:
  assumes "asm_run_with P env prog n rest s q" and "\<forall>op \<in> set rest. quiet op" and "\<forall>l. \<forall>op \<in> set (target prog l). quiet op"
    and "covers P t s" and env: "env_rgp_addr e = env_rgp_addr env" and "asm_run e prog n rest t = Leave t'"
  shows "mem t' = mem t \<and> (\<exists>s'. q = Leave s' \<and> covers P t' s')"
  using assms(1,2,4,6)
proof (induction arbitrary: t rule: asm_run_with.induct)
  case (asm_fuel rest s)
  then show ?case by simp
next
  case (asm_next s s1 rest rest' u n q)
  obtain op ops where rest: "rest = op # ops" using asm_next.hyps(2) by (cases rest) auto
  have c: "covers P t s1" using covers_interferes asm_next by blast
  have "op \<noteq> Call_syscall_hook" using asm_next.prems(1) by (auto simp: rest)
  note st = asm_step_covers [OF c env this, of prog ops]
  from asm_next.prems(3) show ?case
  proof (cases rule: asm_run_Leave)
    case (step rest2 t2)
    then have u: "rest2 = rest'" "covers P t2 u" using st(1) asm_next.hyps(2) by (auto simp: rest)
    have "mem t2 = mem t" using quiet_step step(1) asm_next.prems(1) by (auto simp: rest)
    moreover have "\<forall>op \<in> set rest'. quiet op"
      using asm_step_rest [of env prog op ops s1] asm_next.hyps(2) asm_next.prems(1) assms(3) by (auto simp: rest)
    ultimately show ?thesis using asm_next.IH [of t2] u step(2) by auto
  next
    case leave
    then show ?thesis using st(2) asm_next.hyps(2) by (auto simp: rest)
  qed
next
  case (asm_halt s s1 rest q n)
  have c: "covers P t s1" using covers_interferes asm_halt by blast
  from asm_halt.prems(3) show ?case
  proof (cases rule: asm_run_Leave)
    case (step rest2 t2)
    then obtain op ops where rest: "rest = op # ops" by (cases rest) auto
    have "op \<noteq> Call_syscall_hook" using asm_halt.prems(1) by (auto simp: rest)
    from asm_step_covers(1) [OF c env this, of prog ops] step show ?thesis using asm_halt.hyps(2) by (auto simp: rest)
  next
    case leave
    then obtain op ops where rest: "rest = op # ops" by (cases rest) auto
    have "op \<noteq> Call_syscall_hook" using asm_halt.prems(1) by (auto simp: rest)
    moreover have "mem t' = mem t" using leave asm_step_Leave_mem by (simp add: rest)
    ultimately show ?thesis using asm_step_covers(2) [OF c env, of op prog ops] leave asm_halt.hyps(2) by (auto simp: rest)
  qed
qed

text \<open>
  The hook. It may have seen memory that other threads changed; on the thread's own machine it is played
  back by a hook that gives the answer it gave there, to whatever arguments, and touches nothing.
\<close>

definition replaying :: "hook_env \<Rightarrow> memory \<Rightarrow> hook_env" where
  "replaying env m =
     env\<lparr>env_hooks := (\<lambda>f m' nr args r. let (_, res, ret) = env_hooks env f m nr args r in (m', res, ret)),
         env_frame := (\<lambda>_ m'. m')\<rparr>"

lemma replaying_sel [simp]:
  "env_rgp_addr (replaying env m) = env_rgp_addr env" "env_hook_fn (replaying env m) = env_hook_fn env"
  "env_result (replaying env m) = env_result env" "env_frame (replaying env m) = (\<lambda>_ m'. m')"
  by (simp_all add: replaying_def)

lemma replaying_answer:
  "syscall_hook (env_hooks (replaying env m)) hfn r m' a0 a1 a2 a3 a4 a5 a6 a7 =
     (m', snd (syscall_hook (env_hooks env) hfn r m a0 a1 a2 a3 a4 a5 a6 a7))"
  by (auto simp: syscall_hook_def replaying_def Let_def split: prod.splits)

lemma replaying_keeps: "answer_keeps (replaying env m) s a n"
  by (simp add: answer_keeps_def hook_answer_def replaying_answer)

lemma call_covers:
  assumes c: "covers P t s" and keep: "\<And>x. P x \<Longrightarrow> mem (call_syscall_hook env s) x = mem s x"
  shows "covers P (call_syscall_hook (replaying env (mem s)) t) (call_syscall_hook env s)"
proof -
  have "env_scratch (replaying env (mem s)) = env_scratch env" "env_fscratch (replaying env (mem s)) = env_fscratch env" by (simp_all add: replaying_def)
  then show ?thesis
    using c keep covers_rreg [OF c]
    by (auto simp: covers_def call_syscall_hook_def hook_outcome_def replaying_answer split: prod.splits)
qed

text \<open>Code that calls the hook once: what comes before keeps its arguments, what comes after, and
  every label, is quiet.\<close>

definition calls_once :: "asm list \<Rightarrow> asm list \<Rightarrow> bool" where
  "calls_once prog rest \<longleftrightarrow>
     (\<forall>l. \<forall>op \<in> set (target prog l). quiet op) \<and>
     ((\<forall>op \<in> set rest. quiet op) \<or>
      (\<exists>pre post. rest = pre @ Call_syscall_hook # post \<and> (\<forall>op \<in> set pre. steady op) \<and> (\<forall>op \<in> set post. quiet op)))"

lemma steady_no_Leave: "steady op \<Longrightarrow> asm_step env prog (op # rest) s \<noteq> Inr (Leave s')"
proof (cases op)
  case (Ins i)
  then show "steady op \<Longrightarrow> ?thesis" by (cases i) (auto simp: Let_def split: if_splits)
qed auto

lemma calls_onceE:
  assumes "calls_once prog rest"
  obtains (quiet) "\<forall>op \<in> set rest. quiet op" "\<forall>l. \<forall>op \<in> set (target prog l). quiet op"
    | (call) post where "rest = Call_syscall_hook # post" "\<forall>op \<in> set post. quiet op" "\<forall>l. \<forall>op \<in> set (target prog l). quiet op"
    | (steady) op ops where "rest = op # ops" "steady op" "calls_once prog ops" "\<forall>l. calls_once prog (target prog l)"
proof -
  have q: "\<forall>l. \<forall>op \<in> set (target prog l). quiet op" using assms by (simp add: calls_once_def)
  consider "\<forall>op \<in> set rest. quiet op"
    | pre post where "rest = pre @ Call_syscall_hook # post" "\<forall>op \<in> set pre. steady op" "\<forall>op \<in> set post. quiet op"
    using assms by (auto simp: calls_once_def)
  then show thesis
  proof cases
    case 2
    show thesis
    proof (cases pre)
      case Nil
      with 2 q that(2) show thesis by simp
    next
      case (Cons op ops)
      with 2 q show thesis by (intro that(3)) (auto simp: calls_once_def)
    qed
  qed (use q that(1) in blast)
qed

text \<open>Whatever others do meanwhile, the assembly leaves where it leaves on the machine of its own with a hook
  that answers as it answered here, asked in memory \<open>m\<close>.\<close>

definition follows ::
  "(u64 \<Rightarrow> bool) \<Rightarrow> hook_env \<Rightarrow> asm list \<Rightarrow> nat \<Rightarrow> asm list \<Rightarrow> machine \<Rightarrow> asm_out \<Rightarrow> memory \<Rightarrow> bool" where
  "follows P env prog n rest s q m \<longleftrightarrow>
     (\<forall>t t'. covers P t s \<longrightarrow> asm_run (replaying env m) prog n rest t = Leave t' \<longrightarrow>
        (\<exists>s'. q = Leave s' \<and> covers P t' s') \<and> (\<forall>x. P x \<longrightarrow> m x = mem t' x))"

lemma followsD:
  assumes "follows P env prog n rest s q m" and "covers P t s" and "asm_run (replaying env m) prog n rest t = Leave t'"
  shows "(\<exists>s'. q = Leave s' \<and> covers P t' s') \<and> (\<forall>x. P x \<longrightarrow> m x = mem t' x)"
  by (rule assms(1) [unfolded follows_def, THEN spec, THEN spec, THEN mp, THEN mp, OF assms(2,3)])

lemma follows_quiet:
  assumes "asm_run_with P env prog n rest s q" and "\<forall>op \<in> set rest. quiet op" and "\<forall>l. \<forall>op \<in> set (target prog l). quiet op"
  shows "follows P env prog n rest s q (mem s)"
  unfolding follows_def
proof (intro allI impI)
  fix t t' assume c: "covers P t s" and "asm_run (replaying env (mem s)) prog n rest t = Leave t'"
  from asm_run_covers_quiet [OF assms c _ this(2)]
  show "(\<exists>s'. q = Leave s' \<and> covers P t' s') \<and> (\<forall>x. P x \<longrightarrow> mem s x = mem t' x)"
    using covers_mem [OF c] by simp
qed

lemma follows_call:
  assumes s1: "interferes P s s1" and run: "asm_run_with P env prog n post (call_syscall_hook env s1) q"
    and quiet: "\<forall>op \<in> set post. quiet op" "\<forall>l. \<forall>op \<in> set (target prog l). quiet op"
    and keep: "\<And>x. P x \<Longrightarrow> mem (call_syscall_hook env s1) x = mem s1 x"
  shows "follows P env prog (Suc n) (Call_syscall_hook # post) s q (mem s1)"
  unfolding follows_def
proof (intro allI impI)
  fix t t' assume t: "covers P t s"
    and leave: "asm_run (replaying env (mem s1)) prog (Suc n) (Call_syscall_hook # post) t = Leave t'"
  let ?t = "call_syscall_hook (replaying env (mem s1)) t"
  have c: "covers P ?t (call_syscall_hook env s1)"
    using covers_interferes [OF t s1] keep by (rule call_covers)
  have "asm_run (replaying env (mem s1)) prog n post ?t = Leave t'" using leave by simp
  from asm_run_covers_quiet [OF run quiet c _ this]
  show "(\<exists>s'. q = Leave s' \<and> covers P t' s') \<and> (\<forall>x. P x \<longrightarrow> mem s1 x = mem t' x)"
    using covers_mem [OF c] keep by simp
qed

lemma follows_steady:
  assumes s1: "interferes P s s1" and op: "steady op"
    and step: "asm_step env prog (op # ops) s1 = Inl (rest', u)" and rest: "follows P env prog n rest' u q m"
  shows "follows P env prog (Suc n) (op # ops) s q m"
  unfolding follows_def
proof (intro allI impI)
  fix t t' assume t: "covers P t s" and leave: "asm_run (replaying env m) prog (Suc n) (op # ops) t = Leave t'"
  have c: "covers P t s1" using t s1 by (rule covers_interferes)
  from leave show "(\<exists>s'. q = Leave s' \<and> covers P t' s') \<and> (\<forall>x. P x \<longrightarrow> m x = mem t' x)"
  proof (cases rule: asm_run_Leave)
    case (step rest2 t2)
    have "op \<noteq> Call_syscall_hook" using op by auto
    with asm_step_covers(1) [OF c, of "replaying env m" env op prog ops] step(1) assms(3)
    have "rest2 = rest'" "covers P t2 u" by auto
    with followsD [OF rest] step(2) show ?thesis by simp
  qed (use steady_no_Leave op in blast)
qed

lemma follows_stuck:
  assumes s1: "interferes P s s1" and op: "steady op" and stuck: "asm_step env prog (op # ops) s1 = Inr q"
  shows "follows P env prog (Suc n) (op # ops) s q' m"
  unfolding follows_def
proof (intro allI impI)
  fix t t' assume t: "covers P t s" and leave: "asm_run (replaying env m) prog (Suc n) (op # ops) t = Leave t'"
  have c: "covers P t s1" using t s1 by (rule covers_interferes)
  from leave have False
  proof (cases rule: asm_run_Leave)
    case (step rest2 t2)
    have "op \<noteq> Call_syscall_hook" using op by auto
    with asm_step_covers(1) [OF c, of "replaying env m" env op prog ops] step(1) stuck show False by auto
  qed (use steady_no_Leave op in blast)
  then show "(\<exists>s'. q' = Leave s' \<and> covers P t' s') \<and> (\<forall>x. P x \<longrightarrow> m x = mem t' x)" ..
qed

lemma asm_run_covers:
  assumes "asm_run_with P env prog n rest s q" and "calls_once prog rest"
    and "\<And>h x. same_call s h \<Longrightarrow> P x \<Longrightarrow> mem (call_syscall_hook env h) x = mem h x"
  shows "\<exists>m. follows P env prog n rest s q m"
  using assms
proof (induction rule: asm_run_with.induct)
  case (asm_fuel rest s)
  then show ?case by (simp add: follows_def)
next
  case (asm_next s s1 rest rest' u n q)
  have sp: "same_call s s1" using asm_next.hyps(1) by (simp add: same_call_def interferes_def rreg_def)
  from asm_next.prems(1) show ?case
  proof (cases rule: calls_onceE)
    case quiet
    then show ?thesis using follows_quiet [OF asm_run_with.asm_next [OF asm_next.hyps(1-3)]] by blast
  next
    case (call post)
    then show ?thesis
      using follows_call [OF asm_next.hyps(1), of env prog n post q] asm_next.hyps(2,3) asm_next.prems(2) [OF sp] by auto
  next
    case (steady op ops)
    have "calls_once prog rest'"
      using asm_step_rest [of env prog op ops s1] asm_next.hyps(2) steady by auto
    moreover have "same_call s h" if "same_call u h" for h
      using steady_step [OF steady(2)] asm_next.hyps(2) steady(1) sp that by (auto simp: same_call_def)
    ultimately obtain m where "follows P env prog n rest' u q m"
      using asm_next.IH [OF _ asm_next.prems(2)] by blast
    then show ?thesis using follows_steady [OF asm_next.hyps(1) steady(2)] asm_next.hyps(2) steady(1) by blast
  qed
next
  case (asm_halt s s1 rest q n)
  from asm_halt.prems(1) show ?case
  proof (cases rule: calls_onceE)
    case quiet
    then show ?thesis using follows_quiet [OF asm_run_with.asm_halt [OF asm_halt.hyps]] by blast
  next
    case (call post)
    then show ?thesis using asm_halt.hyps(2) by simp
  next
    case (steady op ops)
    then show ?thesis using follows_stuck [OF asm_halt.hyps(1) steady(2)] asm_halt.hyps(2) by blast
  qed
qed

lemma asm_syscall_hook_calls_once: "calls_once asm_syscall_hook asm_syscall_hook"
proof -
  have "\<forall>op \<in> set (target asm_syscall_hook l). quiet op" for l
    by (cases l) (simp_all add: targets)
  moreover have "\<forall>op \<in> set (restore_context @ return_dispatch). quiet op"
    by (simp add: restore_context_def return_dispatch_def)
  ultimately show ?thesis
    unfolding calls_once_def
    by (intro conjI allI disjI2 exI [of _ "[sd GP 288 SP, Mv T1 GP, La_relocated_global_pointer T0, ld GP 0 T0,
          Li T0 139, Beq A7 T0 do_rt_sigreturn] @ save_context @ [Mv A6 T1]"]
        exI [of _ "Mv T0 A1 # restore_context @ return_dispatch"])
       (simp_all add: asm_syscall_hook_def save_context_def)
qed

section \<open>An intercepted call\<close>

text \<open>What the call relies on: the patched instruction, the two code sequences, its frame, and the
  variable \<open>relocated_global_pointer\<close>.\<close>

definition owned :: "hook_env \<Rightarrow> u64 \<Rightarrow> machine \<Rightarrow> u64 \<Rightarrow> bool" where
  "owned env rgp s x \<longleftrightarrow>
     in_range (pc s) 4 x \<or> in_range (rgp - 56) 136 x \<or> in_range (rreg s SP - 304) 304 x \<or> in_range (env_rgp_addr env) 8 x"

text \<open>Every interrupted run of \<open>n\<close> instructions, or of the assembly, completes in a state that satisfies
  \<open>Q\<close>, or reaches an environment call in one.\<close>

definition completes :: "(u64 \<Rightarrow> bool) \<Rightarrow> nat \<Rightarrow> machine \<Rightarrow> (machine \<Rightarrow> bool) \<Rightarrow> bool" where
  "completes P n s Q \<longleftrightarrow> (\<forall>q. cpu_run_with P n s q \<longrightarrow> (\<exists>t. q = Next t \<and> Q t))"

definition makes_ecall :: "(u64 \<Rightarrow> bool) \<Rightarrow> nat \<Rightarrow> machine \<Rightarrow> (machine \<Rightarrow> bool) \<Rightarrow> bool" where
  "makes_ecall P n s Q \<longleftrightarrow> (\<forall>q. cpu_run_with P n s q \<longrightarrow> (\<exists>t. q = Ecall t \<and> Q t))"

definition leaves_asm :: "(u64 \<Rightarrow> bool) \<Rightarrow> hook_env \<Rightarrow> machine \<Rightarrow> (machine \<Rightarrow> bool) \<Rightarrow> bool" where
  "leaves_asm P env s Q \<longleftrightarrow>
     (\<forall>q. asm_run_with P env asm_syscall_hook 85 asm_syscall_hook s q \<longrightarrow> (\<exists>t. q = Leave t \<and> Q t))"

text \<open>The program is back after the call made in \<open>s\<close>, with the result \<open>a\<close>.\<close>

definition back_from :: "machine \<Rightarrow> u64 \<Rightarrow> machine \<Rightarrow> bool" where
  "back_from s a v \<longleftrightarrow>
     pc v = pc s + 4 \<and> rreg v A0 = a \<and> (\<forall>r < 32. r \<noteq> A0 \<longrightarrow> rreg v r = rreg s r) \<and> (\<forall>f < 32. fregs v f = fregs s f)"

text \<open>What the hook does and answers, asked about that call in memory \<open>m\<close>.\<close>

definition call_outcome :: "hook_env \<Rightarrow> memory \<Rightarrow> machine \<Rightarrow> memory \<times> wrapper_ret" where
  "call_outcome env m s =
     syscall_hook (env_hooks env) (env_hook_fn env) (env_result env) m
       (rreg s A0) (rreg s A1) (rreg s A2) (rreg s A3) (rreg s A4) (rreg s A5) (pc s + 4) (rreg s A7)"

definition call_answer :: "hook_env \<Rightarrow> memory \<Rightarrow> machine \<Rightarrow> wrapper_ret" where
  "call_answer env m s = snd (call_outcome env m s)"

text \<open>In whatever memory it is asked about the call, it leaves the bytes of \<open>P\<close> alone.\<close>

definition hook_spares :: "hook_env \<Rightarrow> machine \<Rightarrow> (u64 \<Rightarrow> bool) \<Rightarrow> bool" where
  "hook_spares env s P \<longleftrightarrow>
     (\<forall>m x. P x \<longrightarrow> env_frame env (rreg s SP - 304) (fst (call_outcome env m s)) x = m x)"

lemma confined_sel [simp]:
  "gregs (confined P s) = gregs s" "fregs (confined P s) = fregs s" "pc (confined P s) = pc s"
  "mem (confined P s) = mem s" "rreg (confined P s) r = rreg s r"
  by (simp_all add: confined_def)

lemma confined_allowed:
  "(\<And>x. in_range a n x \<Longrightarrow> P x) \<Longrightarrow> allowed (perm (confined P s)) w a n = allowed (perm s) w a n"
  by (rule allowed_cong) (simp add: confined_def)

lemma confined_ok:
  assumes "intercept_ok env hook rgp s"
  shows "intercept_ok (replaying env m) hook rgp (confined (owned env rgp s) s)"
  using assms
  by (simp add: intercept_ok_def runnable_def confined_allowed owned_def replaying_keeps length_words)

lemma cpu_run_with_mono:
  assumes "cpu_run_with P n s q" and "\<And>x. P' x \<Longrightarrow> P x"
  shows "cpu_run_with P' n s q"
  using assms(1)
proof (induction rule: cpu_run_with.induct)
  case (cpu_stop s t)
  then show ?case using assms(2) by (intro cpu_run_with.cpu_stop) (simp add: interferes_def)
next
  case (cpu_next s t u n q)
  then show ?case using assms(2) by (intro cpu_run_with.cpu_next [of P' s t u]) (simp_all add: interferes_def)
next
  case (cpu_halt s t q n)
  then show ?case using assms(2) by (intro cpu_run_with.cpu_halt [of P' s t]) (simp_all add: interferes_def)
qed

lemma call_mem_confined: "call_mem (confined P s) = call_mem s"
proof -
  have "slot_value (confined P s) x = slot_value s x" for x by (cases x) (simp add: slot_value_def)
  then show ?thesis by (simp add: call_mem_def trampoline_mem_def saved_slots_def)
qed

lemma spared_call:
  assumes "hook_spares env s P" and "rreg h SP = rreg s SP - 304"
    and "\<forall>r \<in> {A0, A1, A2, A3, A4, A5, A7}. rreg h r = rreg s r" and "P x"
  shows "mem (call_syscall_hook env h) x = mem h x"
proof -
  have "hook_outcome env h = call_outcome env (mem h) s"
    using assms(3) by (simp add: hook_outcome_def call_outcome_def syscall_hook_def)
  then show ?thesis using assms by (simp add: hook_spares_def)
qed

definition at_return_with :: "(u64 \<Rightarrow> bool) \<Rightarrow> hook_env \<Rightarrow> u64 \<Rightarrow> machine \<Rightarrow> machine \<Rightarrow> bool" where
  "at_return_with P env rgp s u \<longleftrightarrow>
     (\<exists>m u'. covers P u' u \<and> (\<forall>x. P x \<longrightarrow> m x = call_mem s x) \<and>
        at_return rgp (exit_offset (ret_a1 (call_answer env m s)) (rreg s A7)) (confined P s) u' \<and>
        rreg u' A0 = ret_a0 (call_answer env m s))"

lemma intercepted_with:
  assumes ok: "intercept_ok env hook rgp s" and nr: "rreg s A7 \<noteq> 139" and P: "P = owned env rgp s"
    and keep: "hook_spares env s P"
  shows "completes P 21 s (\<lambda>t. leaves_asm P env t (at_return_with P env rgp s))"
  unfolding completes_def
proof (intro allI impI)
  fix q assume q: "cpu_run_with P 21 s q"
  let ?c = "confined P s"
  obtain t' where t': "cpu_run 21 ?c = Next t'" "rreg t' SP = rreg s SP - 304"
      "\<forall>r. r \<notin> {SP, GP, T0, T1, T2, T3} \<longrightarrow> rreg t' r = rreg s r"
    using patched_enters [OF confined_ok [OF ok, folded P]] by auto
  obtain t where t: "q = Next t" "covers P t' t"
    using cpu_run_covers [OF q confined_covers t'(1)] by blast
  have "leaves_asm P env t (at_return_with P env rgp s)"
    unfolding leaves_asm_def
  proof (intro allI impI)
    fix p assume p: "asm_run_with P env asm_syscall_hook 85 asm_syscall_hook t p"
    have keeps: "mem (call_syscall_hook env h) x = mem h x" if "same_call t h" "P x" for h x
      using t'(2,3) covers_rreg [OF t(2)] that by (intro spared_call [OF keep]) (simp_all add: same_call_def)
    have "\<exists>m. follows P env asm_syscall_hook 85 asm_syscall_hook t p m"
      by (rule asm_run_covers [OF p asm_syscall_hook_calls_once]) (rule keeps)
    then obtain m where "follows P env asm_syscall_hook 85 asm_syscall_hook t p m" ..
    note m = followsD [OF this t(2)]
    have ans: "hook_answer (replaying env m) ?c = (call_mem s, call_answer env m s)"
      by (simp add: hook_answer_def replaying_answer call_answer_def call_outcome_def call_mem_confined)
    from intercepted_return [OF confined_ok [OF ok, folded P, of m]] nr
    obtain u' where u': "intercepted (replaying env m) ?c = Some u'"
        "at_return rgp (exit_offset (ret_a1 (call_answer env m s)) (rreg s A7)) ?c u'"
        "rreg u' A0 = ret_a0 (call_answer env m s)" "mem u' = call_mem s"
      unfolding ans by auto
    from u'(1) t'(1) have "asm_run (replaying env m) asm_syscall_hook 85 asm_syscall_hook t' = Leave u'"
      by (simp add: intercepted_def split: asm_out.splits)
    from m [OF this] u' show "\<exists>u. p = Leave u \<and> at_return_with P env rgp s u"
      unfolding at_return_with_def by auto
  qed
  then show "\<exists>t. q = Next t \<and> leaves_asm P env t (at_return_with P env rgp s)" using t(1) by blast
qed

lemma completes_mono: "completes P n s Q \<Longrightarrow> (\<And>t. Q t \<Longrightarrow> Q' t) \<Longrightarrow> completes P n s Q'"
  by (auto simp: completes_def)

lemma leaves_asm_mono: "leaves_asm P env s Q \<Longrightarrow> (\<And>t. Q t \<Longrightarrow> Q' t) \<Longrightarrow> leaves_asm P env s Q'"
  by (auto simp: leaves_asm_def)

text \<open>A run on the machine of its own decides how every interrupted run ends.\<close>

lemma completes_covers:
  assumes "covers P t s" and "cpu_run n t = Next t'" and "\<And>s'. covers P t' s' \<Longrightarrow> Q s'"
  shows "completes P n s Q"
  using cpu_run_covers [OF _ assms(1,2)] assms(3) by (auto simp: completes_def)

lemma back_from_covers:
  assumes "covers P v' v" and "pc v' = pc s + 4" and "\<forall>r < 32. r \<noteq> A0 \<longrightarrow> rreg v' r = rreg s r"
    and "\<forall>f < 32. fregs v' f = fregs s f"
  shows "back_from s (rreg v' A0) v"
  using assms covers_rreg [OF assms(1)] by (simp add: back_from_def covers_def)

lemma handled_with:
  assumes ok: "intercept_ok env hook rgp s" and P: "P = owned env rgp s" and u: "covers P u' u"
    and ret: "at_return rgp 56 (confined P s) u'"
  shows "completes P 5 u (back_from s (rreg u' A0))"
proof -
  obtain v' where v': "cpu_run 5 u' = Next v'" "pc v' = pc s + 4" "rreg v' A0 = rreg u' A0"
      "\<forall>r < 32. r \<noteq> A0 \<longrightarrow> rreg v' r = rreg s r" "\<forall>f < 32. fregs v' f = fregs s f"
    using handled_return [OF confined_ok [OF ok, folded P] ret] by auto
  show ?thesis
    by (rule completes_covers [OF u v'(1)]) (use back_from_covers [OF _ v'(2,4,5)] v'(3) in simp)
qed

text \<open>The kernel, too, may let others run before it returns.\<close>

lemma forwarded_with:
  assumes ok: "intercept_ok env hook rgp s" and P: "P = owned env rgp s" and u: "covers P u' u"
    and ret: "at_return rgp 40 (confined P s) u'" and k: "kernel_returns rgp u k"
  shows "completes P 5 k (back_from s (rreg k A0))"
proof -
  let ?P = "\<lambda>x. in_range (rgp - 56) 56 x \<or> in_range (rreg s SP - 304) 304 x"
  let ?k = "k\<lparr>perm := (\<lambda>x. if ?P x then perm u' x else 0)\<rparr>"
  have sub: "P x" if "?P x" for x using that by (auto simp: P owned_def in_range_def)
  have sp: "rreg u' SP = rreg s SP - 304" using ret by (simp add: at_return_def)
  have "perm k x = perm u x \<and> mem k x = mem u x" if "?P x" for x
    using k that sp covers_rreg [OF u, of SP] by (auto simp: kernel_returns_def)
  then have covers: "covers ?P ?k k" and kern: "kernel_returns rgp u' ?k"
    using k u sub sp covers_rreg [OF u] by (auto simp: covers_def kernel_returns_def)
  from kernel_return [OF confined_ok [OF ok, folded P] ret kern]
  obtain v' where v': "cpu_run 5 ?k = Next v'" "pc v' = pc s + 4" "rreg v' A0 = rreg k A0"
      "\<forall>r < 32. r \<noteq> A0 \<longrightarrow> rreg v' r = rreg s r" "\<forall>f < 32. fregs v' f = fregs s f"
    by auto
  have "completes ?P 5 k (back_from s (rreg k A0))"
    by (rule completes_covers [OF covers v'(1)]) (use back_from_covers [OF _ v'(2,4,5)] v'(3) in simp)
  then show ?thesis
    using cpu_run_with_mono [where P = P and P' = ?P] sub unfolding completes_def by blast
qed

lemma call_answer_cases:
  "ret_a1 (call_answer env m s) = 0 \<and> ret_a0 (call_answer env m s) = rreg s A0 \<or> ret_a1 (call_answer env m s) = 1"
  by (auto simp: call_answer_def call_outcome_def syscall_hook_def Let_def split: prod.splits)

lemma makes_ecall_covers:
  assumes "covers P t s" and "cpu_run n t = Ecall t'" and "\<And>s'. covers P t' s' \<Longrightarrow> Q s'"
  shows "makes_ecall P n s Q"
  using cpu_run_covers_ecall [OF _ assms(1,2)] assms(3) by (auto simp: makes_ecall_def)

text \<open>How the call goes on at the return path, the hook having been asked in memory \<open>m\<close>.\<close>

definition comes_back :: "(u64 \<Rightarrow> bool) \<Rightarrow> hook_env \<Rightarrow> u64 \<Rightarrow> machine \<Rightarrow> memory \<Rightarrow> machine \<Rightarrow> bool" where
  "comes_back P env rgp s m u \<longleftrightarrow>
     (if ret_a1 (call_answer env m s) = 0
      then makes_ecall P 1 u (\<lambda>e. (\<forall>r < 32. r \<notin> {SP, GP, T0} \<longrightarrow> rreg e r = rreg s r) \<and>
        (\<forall>k. kernel_returns rgp e k \<longrightarrow> completes P 5 k (back_from s (rreg k A0))))
      else completes P 5 u (back_from s (ret_a0 (call_answer env m s))))"

lemma at_return_comes_back:
  assumes "intercept_ok env hook rgp s" and "rreg s A7 \<notin> {139, 220, 435}" and "P = owned env rgp s"
    and "at_return_with P env rgp s u"
  shows "\<exists>m. (\<forall>x. P x \<longrightarrow> m x = call_mem s x) \<and> comes_back P env rgp s m u"
proof -
  obtain m u' where u': "covers P u' u" "\<forall>x. P x \<longrightarrow> m x = call_mem s x"
      "at_return rgp (exit_offset (ret_a1 (call_answer env m s)) (rreg s A7)) (confined P s) u'"
      "rreg u' A0 = ret_a0 (call_answer env m s)"
    using assms(4) unfolding at_return_with_def by blast
  from call_answer_cases [of env m s] have "comes_back P env rgp s m u"
  proof
    assume f: "ret_a1 (call_answer env m s) = 0 \<and> ret_a0 (call_answer env m s) = rreg s A0"
    then have ret: "at_return rgp 40 (confined P s) u'"
      using u'(3) assms(2) by (simp add: exit_offset_def)
    then have "cpu_run 1 u' = Ecall u'"
      by (intro return_ecall [of u' "rgp - 56"]) (simp_all add: at_return_def)
    then have "makes_ecall P 1 u (\<lambda>e. (\<forall>r < 32. r \<notin> {SP, GP, T0} \<longrightarrow> rreg e r = rreg s r) \<and>
        (\<forall>k. kernel_returns rgp e k \<longrightarrow> completes P 5 k (back_from s (rreg k A0))))"
    proof (rule makes_ecall_covers [OF u'(1)])
      fix e assume e: "covers P u' e"
      then show "(\<forall>r < 32. r \<notin> {SP, GP, T0} \<longrightarrow> rreg e r = rreg s r) \<and>
          (\<forall>k. kernel_returns rgp e k \<longrightarrow> completes P 5 k (back_from s (rreg k A0)))"
        using ret f u'(4) covers_rreg [OF e] forwarded_with [OF assms(1,3) e ret] by (auto simp: at_return_def)
    qed
    with f show ?thesis by (simp add: comes_back_def)
  next
    assume h: "ret_a1 (call_answer env m s) = 1"
    then have ret: "at_return rgp 56 (confined P s) u'" using u'(3) by (simp add: exit_offset_def)
    show ?thesis using handled_with [OF assms(1,3) u'(1) ret] u'(4) h by (simp add: comes_back_def)
  qed
  with u'(2) show ?thesis by blast
qed

section \<open>Properties\<close>

text \<open>C6: interception is safe among threads. Before every instruction of the patched call, the trampoline,
  \<open>asm_syscall_hook\<close> and the return path other threads may run, as long as they leave alone the code of
  the library, the variable \<open>relocated_global_pointer\<close> and the 304 bytes of stack below the caller's stack
  pointer, and so does the hook. Every such run gets through: the hook is asked about the caller's number and arguments, in
  a memory in which the caller's frame is as the entry saved it; if it handles the call the program is
  back with its answer and every other register as it was, and otherwise the environment call is made
  with the caller's arguments and, once the kernel returns, the program is back with the kernel's answer.\<close>

theorem interception_interference_free:
  assumes "intercept_ok env hook rgp s" and "rreg s A7 \<notin> {139, 220, 435}" and "P = owned env rgp s"
    and "hook_spares env s P"
  shows "completes P 21 s (\<lambda>t. leaves_asm P env t (\<lambda>u.
    \<exists>m. (\<forall>x. P x \<longrightarrow> m x = call_mem s x) \<and> comes_back P env rgp s m u))"
proof -
  have "completes P 21 s (\<lambda>t. leaves_asm P env t (at_return_with P env rgp s))"
    using assms by (intro intercepted_with) auto
  then show ?thesis
    by (rule completes_mono) (erule leaves_asm_mono, rule at_return_comes_back [OF assms(1-3)])
qed

section \<open>Instances\<close>

lemma cpu_run_disturbed: "interferes P s s1 \<Longrightarrow> cpu_run_with P n s (cpu_run n s1)"
  using cpu_run_undisturbed [of P n s1]
  by (cases rule: cpu_run_with.cases) (auto intro: cpu_run_with.intros interferes_trans)

text \<open>A call the hook handles, after another thread has written to address \<open>0x100\<close>.\<close>

theorem interception_interference_free_witness:
  "\<exists>s t u v. interferes (owned sample_env 0x20800 (sample_call 64)) (sample_call 64) s \<and> mem s 0x100 = 9 \<and>
     cpu_run 21 s = Next t \<and> asm_run sample_env asm_syscall_hook 85 asm_syscall_hook t = Leave u \<and>
     cpu_run 5 u = Next v \<and> back_from (sample_call 64) 42 v"
proof -
  let ?P = "owned sample_env 0x20800 (sample_call 64)"
  let ?s = "(sample_call 64)\<lparr>mem := (mem (sample_call 64))(0x100 := 9)\<rparr>"
  have "\<not> ?P 0x100" by (simp add: owned_def sample_call_sel in_range_def sample_env_def)
  then have i: "interferes ?P (sample_call 64) ?s" by (auto simp: interferes_def)
  have c: "completes ?P 21 (sample_call 64) (\<lambda>t. leaves_asm ?P sample_env t (\<lambda>u.
      \<exists>m. (\<forall>x. ?P x \<longrightarrow> m x = call_mem (sample_call 64) x) \<and> comes_back ?P sample_env 0x20800 (sample_call 64) m u))"
    by (intro interception_interference_free [OF sample_call_ok])
       (simp_all add: sample_call_sel hook_spares_def call_outcome_def syscall_hook_def sample_env_def sample_hook_def)
  have ans: "call_answer sample_env m (sample_call 64) = \<lparr>ret_a0 = 42, ret_a1 = 1\<rparr>" for m
    by (simp add: call_answer_def call_outcome_def syscall_hook_def sample_env_def sample_hook_def sample_call_sel)
  obtain t where t: "cpu_run 21 ?s = Next t" "leaves_asm ?P sample_env t (\<lambda>u.
      \<exists>m. (\<forall>x. ?P x \<longrightarrow> m x = call_mem (sample_call 64) x) \<and> comes_back ?P sample_env 0x20800 (sample_call 64) m u)"
    using c cpu_run_disturbed [OF i, of 21] unfolding completes_def by blast
  then obtain u where u: "asm_run sample_env asm_syscall_hook 85 asm_syscall_hook t = Leave u"
      "completes ?P 5 u (back_from (sample_call 64) 42)"
    using asm_run_undisturbed [of ?P sample_env asm_syscall_hook 85 asm_syscall_hook t]
    unfolding leaves_asm_def by (fastforce simp: comes_back_def ans)
  then obtain v where "cpu_run 5 u = Next v" "back_from (sample_call 64) 42 v"
    using cpu_run_undisturbed [of ?P 5 u] unfolding completes_def by blast
  with i t(1) u(1) show ?thesis by (intro exI [of _ ?s] exI conjI) (assumption | simp)+
qed

end
