(* ===== verification/Sigsegv_Handler.thy ===== *)
theory Sigsegv_Handler
  imports Utils
begin

text \<open>
  \<open>src/sigsegv_handler.c\<close> and \<open>src/rv_opcodes.h\<close>: the relocated global pointer points into an
  execute-only page, so a load or store relative to \<open>gp\<close> faults; the handler decodes the faulting
  instruction, performs its access at the corresponding address of the original page and resumes
  after it. The saved context is the \<open>ucontext_t\<close> of the signal, in which \<open>__gregs[0]\<close> is the program
  counter. The library's decoder is compared with the ISA model's.
\<close>

section \<open>Definitions\<close>

definition LOAD_OPCODE :: u8 where "LOAD_OPCODE = 0x03"
definition LB_FUNCT3 :: u8 where "LB_FUNCT3 = 0x0"
definition LH_FUNCT3 :: u8 where "LH_FUNCT3 = 0x1"
definition LW_FUNCT3 :: u8 where "LW_FUNCT3 = 0x2"
definition LD_FUNCT3 :: u8 where "LD_FUNCT3 = 0x3"
definition LBU_FUNCT3 :: u8 where "LBU_FUNCT3 = 0x4"
definition LHU_FUNCT3 :: u8 where "LHU_FUNCT3 = 0x5"
definition LWU_FUNCT3 :: u8 where "LWU_FUNCT3 = 0x6"
definition FLOAD_OPCODE :: u8 where "FLOAD_OPCODE = 0x07"
definition FLW_FUNCT3 :: u8 where "FLW_FUNCT3 = 0x2"
definition FLD_FUNCT3 :: u8 where "FLD_FUNCT3 = 0x3"
definition STORE_OPCODE :: u8 where "STORE_OPCODE = 0x23"
definition SB_FUNCT3 :: u8 where "SB_FUNCT3 = 0x0"
definition SH_FUNCT3 :: u8 where "SH_FUNCT3 = 0x1"
definition SW_FUNCT3 :: u8 where "SW_FUNCT3 = 0x2"
definition SD_FUNCT3 :: u8 where "SD_FUNCT3 = 0x3"
definition FSTORE_OPCODE :: u8 where "FSTORE_OPCODE = 0x27"
definition FSW_FUNCT3 :: u8 where "FSW_FUNCT3 = 0x2"
definition FSD_FUNCT3 :: u8 where "FSD_FUNCT3 = 0x3"
definition C0_OPCODE :: u8 where "C0_OPCODE = 0x00"
definition C_FLD_FUNCT3 :: u8 where "C_FLD_FUNCT3 = 0x1"
definition C_LW_FUNCT3 :: u8 where "C_LW_FUNCT3 = 0x2"
definition C_LD_FUNCT3 :: u8 where "C_LD_FUNCT3 = 0x3"
definition C_FSD_FUNCT3 :: u8 where "C_FSD_FUNCT3 = 0x5"
definition C_SW_FUNCT3 :: u8 where "C_SW_FUNCT3 = 0x6"
definition C_SD_FUNCT3 :: u8 where "C_SD_FUNCT3 = 0x7"
definition C2_OPCODE :: u8 where "C2_OPCODE = 0x02"
definition C_FLDSP_FUNCT3 :: u8 where "C_FLDSP_FUNCT3 = 0x1"
definition C_LWSP_FUNCT3 :: u8 where "C_LWSP_FUNCT3 = 0x2"
definition C_LDSP_FUNCT3 :: u8 where "C_LDSP_FUNCT3 = 0x3"
definition C_FSDSP_FUNCT3 :: u8 where "C_FSDSP_FUNCT3 = 0x5"
definition C_SWSP_FUNCT3 :: u8 where "C_SWSP_FUNCT3 = 0x6"
definition C_SDSP_FUNCT3 :: u8 where "C_SDSP_FUNCT3 = 0x7"

lemmas opcode_defs =
  LOAD_OPCODE_def FLOAD_OPCODE_def STORE_OPCODE_def FSTORE_OPCODE_def C0_OPCODE_def C2_OPCODE_def
  LB_FUNCT3_def LH_FUNCT3_def LW_FUNCT3_def LD_FUNCT3_def LBU_FUNCT3_def LHU_FUNCT3_def LWU_FUNCT3_def
  FLW_FUNCT3_def FLD_FUNCT3_def SB_FUNCT3_def SH_FUNCT3_def SW_FUNCT3_def SD_FUNCT3_def
  FSW_FUNCT3_def FSD_FUNCT3_def
  C_FLD_FUNCT3_def C_LW_FUNCT3_def C_LD_FUNCT3_def C_FSD_FUNCT3_def C_SW_FUNCT3_def C_SD_FUNCT3_def
  C_FLDSP_FUNCT3_def C_LWSP_FUNCT3_def C_LDSP_FUNCT3_def C_FSDSP_FUNCT3_def C_SWSP_FUNCT3_def
  C_SDSP_FUNCT3_def

definition rvc_reg_map :: "u8 list" where
  "rvc_reg_map = [8, 9, 10, 11, 12, 13, 14, 15]"

definition get_field :: "u32 \<Rightarrow> nat \<Rightarrow> nat \<Rightarrow> u8" where
  "get_field instr start len = ucast (drop_bit start instr AND (push_bit len 1 - 1))"

record ucontext =
  uc_gregs :: "nat \<Rightarrow> u64"
  uc_fregs :: "nat \<Rightarrow> u64"

definition set_greg :: "u8 \<Rightarrow> u64 \<Rightarrow> ucontext \<Rightarrow> ucontext" where
  "set_greg r v ctx = ctx\<lparr>uc_gregs := (uc_gregs ctx)(unat r := v)\<rparr>"

definition set_freg :: "u8 \<Rightarrow> u64 \<Rightarrow> ucontext \<Rightarrow> ucontext" where
  "set_freg r v ctx = ctx\<lparr>uc_fregs := (uc_fregs ctx)(unat r := v)\<rparr>"

text \<open>The handler's own reads and writes through \<open>backup_addr\<close> fault without the permission.\<close>

definition checked :: "u32 \<Rightarrow> nat \<Rightarrow> u64 \<Rightarrow> machine \<Rightarrow> 'a \<Rightarrow> 'a result" where
  "checked want n a s v = (if allowed (perm s) want a n then Inr v else Inl (Segv a))"

definition emulate_load_instruction ::
  "machine \<Rightarrow> ucontext \<Rightarrow> u8 \<Rightarrow> u8 \<Rightarrow> u64 \<Rightarrow> (machine \<times> ucontext) result" where
  "emulate_load_instruction s ctx funct3 rd a =
     (if rd = 0 then Inr (s, ctx)
      else if funct3 = LB_FUNCT3 then checked PROT_READ 1 a s (s, set_greg rd (scast (load8 (mem s) a)) ctx)
      else if funct3 = LH_FUNCT3 then checked PROT_READ 2 a s (s, set_greg rd (scast (load16 (mem s) a)) ctx)
      else if funct3 = LW_FUNCT3 then checked PROT_READ 4 a s (s, set_greg rd (scast (load32 (mem s) a)) ctx)
      else if funct3 = LD_FUNCT3 then checked PROT_READ 8 a s (s, set_greg rd (load64 (mem s) a) ctx)
      else if funct3 = LBU_FUNCT3 then checked PROT_READ 1 a s (s, set_greg rd (ucast (load8 (mem s) a)) ctx)
      else if funct3 = LHU_FUNCT3 then checked PROT_READ 2 a s (s, set_greg rd (ucast (load16 (mem s) a)) ctx)
      else if funct3 = LWU_FUNCT3 then checked PROT_READ 4 a s (s, set_greg rd (ucast (load32 (mem s) a)) ctx)
      else Inl (Exit 1))"

definition emulate_fload_instruction ::
  "machine \<Rightarrow> ucontext \<Rightarrow> u8 \<Rightarrow> u8 \<Rightarrow> u64 \<Rightarrow> (machine \<times> ucontext) result" where
  "emulate_fload_instruction s ctx funct3 rd a =
     (if funct3 = FLW_FUNCT3 then
        checked PROT_READ 4 a s (s, set_freg rd (0xFFFFFFFF00000000 OR ucast (load32 (mem s) a)) ctx)
      else if funct3 = FLD_FUNCT3 then checked PROT_READ 8 a s (s, set_freg rd (load64 (mem s) a) ctx)
      else Inl (Exit 1))"

definition emulate_store_instruction ::
  "machine \<Rightarrow> ucontext \<Rightarrow> u8 \<Rightarrow> u8 \<Rightarrow> u64 \<Rightarrow> (machine \<times> ucontext) result" where
  "emulate_store_instruction s ctx funct3 rs2 a =
     (let v = (if rs2 = 0 then 0 else uc_gregs ctx (unat rs2)) in
      if funct3 = SB_FUNCT3 then checked PROT_WRITE 1 a s (s\<lparr>mem := store8 (mem s) a (ucast v)\<rparr>, ctx)
      else if funct3 = SH_FUNCT3 then checked PROT_WRITE 2 a s (s\<lparr>mem := store16 (mem s) a (ucast v)\<rparr>, ctx)
      else if funct3 = SW_FUNCT3 then checked PROT_WRITE 4 a s (s\<lparr>mem := store32 (mem s) a (ucast v)\<rparr>, ctx)
      else if funct3 = SD_FUNCT3 then checked PROT_WRITE 8 a s (s\<lparr>mem := store64 (mem s) a v\<rparr>, ctx)
      else Inl (Exit 1))"

definition emulate_fstore_instruction ::
  "machine \<Rightarrow> ucontext \<Rightarrow> u8 \<Rightarrow> u8 \<Rightarrow> u64 \<Rightarrow> (machine \<times> ucontext) result" where
  "emulate_fstore_instruction s ctx funct3 rs2 a =
     (let v = uc_fregs ctx (unat rs2) in
      if funct3 = FSW_FUNCT3 then checked PROT_WRITE 4 a s (s\<lparr>mem := store32 (mem s) a (ucast v)\<rparr>, ctx)
      else if funct3 = FSD_FUNCT3 then checked PROT_WRITE 8 a s (s\<lparr>mem := store64 (mem s) a v\<rparr>, ctx)
      else Inl (Exit 1))"

definition emulate_c_load_store_instruction ::
  "machine \<Rightarrow> ucontext \<Rightarrow> u8 \<Rightarrow> u8 \<Rightarrow> u64 \<Rightarrow> (machine \<times> ucontext) result" where
  "emulate_c_load_store_instruction s ctx funct3 reg a =
     (if funct3 = C_FLD_FUNCT3 then checked PROT_READ 8 a s (s, set_freg reg (load64 (mem s) a) ctx)
      else if funct3 = C_LW_FUNCT3 then checked PROT_READ 4 a s (s, set_greg reg (scast (load32 (mem s) a)) ctx)
      else if funct3 = C_LD_FUNCT3 then checked PROT_READ 8 a s (s, set_greg reg (load64 (mem s) a) ctx)
      else if funct3 = C_FSD_FUNCT3 then
        checked PROT_WRITE 8 a s (s\<lparr>mem := store64 (mem s) a (uc_fregs ctx (unat reg))\<rparr>, ctx)
      else if funct3 = C_SW_FUNCT3 then
        checked PROT_WRITE 4 a s (s\<lparr>mem := store32 (mem s) a (ucast (uc_gregs ctx (unat reg)))\<rparr>, ctx)
      else if funct3 = C_SD_FUNCT3 then
        checked PROT_WRITE 8 a s (s\<lparr>mem := store64 (mem s) a (uc_gregs ctx (unat reg))\<rparr>, ctx)
      else Inl (Exit 1))"

definition emulate_sp_rel_c_load_store_instruction ::
  "machine \<Rightarrow> ucontext \<Rightarrow> u8 \<Rightarrow> u8 \<Rightarrow> u8 \<Rightarrow> u64 \<Rightarrow> (machine \<times> ucontext) result" where
  "emulate_sp_rel_c_load_store_instruction s ctx funct3 rd rs2 a =
     (let v = (if rs2 = 0 then 0 else uc_gregs ctx (unat rs2)) in
      if funct3 = C_FLDSP_FUNCT3 then checked PROT_READ 8 a s (s, set_freg rd (load64 (mem s) a) ctx)
      else if funct3 = C_LWSP_FUNCT3 then
        (if rd \<noteq> 0 then checked PROT_READ 4 a s (s, set_greg rd (scast (load32 (mem s) a)) ctx) else Inr (s, ctx))
      else if funct3 = C_LDSP_FUNCT3 then
        (if rd \<noteq> 0 then checked PROT_READ 8 a s (s, set_greg rd (load64 (mem s) a) ctx) else Inr (s, ctx))
      else if funct3 = C_FSDSP_FUNCT3 then
        checked PROT_WRITE 8 a s (s\<lparr>mem := store64 (mem s) a (uc_fregs ctx (unat rs2))\<rparr>, ctx)
      else if funct3 = C_SWSP_FUNCT3 then checked PROT_WRITE 4 a s (s\<lparr>mem := store32 (mem s) a (ucast v)\<rparr>, ctx)
      else if funct3 = C_SDSP_FUNCT3 then checked PROT_WRITE 8 a s (s\<lparr>mem := store64 (mem s) a v\<rparr>, ctx)
      else Inl (Exit 1))"

text \<open>The body of the handler: the two switches over the opcode, then the fetch of the instruction at
  the saved program counter, its emulation at \<open>backup_addr\<close>, and the step past it.\<close>

definition emulate_32bit :: "machine \<Rightarrow> ucontext \<Rightarrow> u32 \<Rightarrow> u64 \<Rightarrow> (machine \<times> ucontext) result" where
  "emulate_32bit s ctx instr backup_addr =
     (let opcode = get_field instr 0 7; funct3 = get_field instr 12 3 in
      if opcode = LOAD_OPCODE then
        emulate_load_instruction s ctx funct3 (get_field instr 7 5) backup_addr
      else if opcode = FLOAD_OPCODE then
        emulate_fload_instruction s ctx funct3 (get_field instr 7 5) backup_addr
      else if opcode = STORE_OPCODE then
        emulate_store_instruction s ctx funct3 (get_field instr 20 5) backup_addr
      else if opcode = FSTORE_OPCODE then
        emulate_fstore_instruction s ctx funct3 (get_field instr 20 5) backup_addr
      else Inl (Exit 1))"

definition emulate_16bit :: "machine \<Rightarrow> ucontext \<Rightarrow> u16 \<Rightarrow> u64 \<Rightarrow> (machine \<times> ucontext) result" where
  "emulate_16bit s ctx c_instr backup_addr =
     (let opcode = get_field (ucast c_instr) 0 2; funct3 = get_field (ucast c_instr) 13 3 in
      if opcode = C0_OPCODE then
        let rvc_reg_idx = get_field (ucast c_instr) 2 3; reg = rvc_reg_map ! unat rvc_reg_idx in
        emulate_c_load_store_instruction s ctx funct3 reg backup_addr
      else if opcode = C2_OPCODE then
        emulate_sp_rel_c_load_store_instruction s ctx funct3
          (get_field (ucast c_instr) 7 5) (get_field (ucast c_instr) 2 5) backup_addr
      else Inl (Exit 1))"

definition emulate_at :: "machine \<Rightarrow> ucontext \<Rightarrow> u64 \<Rightarrow> (machine \<times> ucontext) result" where
  "emulate_at s ctx backup_addr =
     (let pc = uc_gregs ctx 0 in
      rbind (checked PROT_READ 2 pc s (load16 (mem s) pc)) (\<lambda>c_instr.
        let is_32bit = (c_instr AND 3 = 3) in
        rbind
          (if is_32bit then
             rbind (checked PROT_READ 4 pc s (load32 (mem s) pc)) (\<lambda>instr. emulate_32bit s ctx instr backup_addr)
           else emulate_16bit s ctx c_instr backup_addr)
          (\<lambda>(s', ctx').
             let pc_step = (if is_32bit then 4 else 2) in
             Inr (s', ctx'\<lparr>uc_gregs := (uc_gregs ctx')(0 := uc_gregs ctx' 0 + pc_step)\<rparr>))))"

definition segfault_handler :: "lib \<Rightarrow> nat \<Rightarrow> u64 \<Rightarrow> ucontext \<Rightarrow> (lib \<times> ucontext) result" where
  "segfault_handler g sig fault_addr ctx =
     (let xom_start = ret_sequence_page_addr (rsi g);
          xom_end = xom_start + protection_size (rsi g) - 1
      in if fault_addr < xom_start \<or> fault_addr > xom_end then Inl (Default_signal sig)
         else
           let offset = fault_addr - xom_start;
               backup_addr = start_addr_page (rsi g) + offset
           in rbind (emulate_at (cpu g) ctx backup_addr) (\<lambda>(s, ctx'). Inr (g\<lparr>cpu := s\<rparr>, ctx')))"

definition init_trap_handler :: "os \<Rightarrow> lib \<Rightarrow> lib result" where
  "init_trap_handler os g =
     (if os_sigaction os = - 1 then Inl (Exit 1) else Inr (g\<lparr>trap_handler := True\<rparr>))"

section \<open>Signal delivery\<close>

text \<open>The context the kernel saves for a machine, and the machine it resumes from a context.\<close>

definition ctx_of :: "machine \<Rightarrow> ucontext" where
  "ctx_of s = \<lparr>uc_gregs = (gregs s)(0 := pc s), uc_fregs = fregs s\<rparr>"

definition resume :: "machine \<Rightarrow> ucontext \<Rightarrow> machine" where
  "resume s ctx = s\<lparr>gregs := (uc_gregs ctx)(0 := gregs s 0), fregs := uc_fregs ctx, pc := uc_gregs ctx 0\<rparr>"

lemma resume_ctx_of: "resume s (ctx_of s) = s"
  by (simp add: resume_def ctx_of_def)

section \<open>The library's decoder against the ISA's\<close>

lemma unat_get_field:
  assumes "len \<le> 8"
  shows "unat (get_field w start len) = fld start len w"
proof -
  have "push_bit len 1 - 1 = (mask len :: u32)" by (simp add: mask_eq_exp_minus_1 push_bit_eq_mult)
  then have "get_field w start len = ucast (take_bit len (drop_bit start w))"
    by (simp add: get_field_def take_bit_eq_mask)
  moreover have "unat (take_bit len (drop_bit start w)) < 2 ^ 8"
    using power_increasing [OF assms, of "2 :: nat"]
      order_less_le_trans [of "unat (take_bit len (drop_bit start w))" "2 ^ len" "2 ^ 8"]
    by (simp add: unsigned_take_bit_eq)
  ultimately show ?thesis by (simp add: fld_def unsigned_ucast_eq take_bit_nat_eq_self)
qed

lemma get_field_eq:
  assumes "len \<le> 8"
  shows "get_field w start len = c \<longleftrightarrow> fld start len w = unat c"
  using unat_get_field [OF assms, of w start] by (auto simp: word_unat_eq_iff)

lemma fld_less: "fld start len w < 2 ^ len"
  by (simp add: fld_def unsigned_take_bit_eq)

text \<open>What an emulated access leaves: memory as the instruction would, and the context of the machine
  after it.\<close>

definition emulated :: "instr \<Rightarrow> u64 \<Rightarrow> machine \<Rightarrow> machine \<times> ucontext" where
  "emulated i a s = (s\<lparr>mem := mem (access_at i a s)\<rparr>, ctx_of (access_at i a s))"

lemma ctx_of_sel [simp]:
  "uc_gregs (ctx_of s) 0 = pc s" "uc_fregs (ctx_of s) = fregs s"
  "r \<noteq> 0 \<Longrightarrow> uc_gregs (ctx_of s) r = rreg s r"
  by (simp_all add: ctx_of_def rreg_def)

lemma ctx_of_mem [simp]: "ctx_of (s\<lparr>mem := m\<rparr>) = ctx_of s"
  by (simp add: ctx_of_def)

lemma set_greg_ctx: "rd \<noteq> 0 \<Longrightarrow> set_greg rd v (ctx_of s) = ctx_of (wreg (unat rd) v s)"
  by (auto simp: set_greg_def ctx_of_def wreg_def fun_eq_iff unat_eq_0)

lemma set_freg_ctx: "set_freg rd v (ctx_of s) = ctx_of (wfreg (unat rd) v s)"
  by (simp add: set_freg_def ctx_of_def wfreg_def)

lemma source_reg: "(if rs2 = 0 then 0 else uc_gregs (ctx_of s) (unat rs2)) = rreg s (unat rs2)"
  by (auto simp: unat_eq_0)

lemma nan_box: "0xFFFFFFFF00000000 OR ucast (v :: u32) = (word_cat (- 1 :: u32) v :: u64)"
proof -
  have m: "0xFFFFFFFF00000000 = (NOT (mask 32) :: u64)" by (simp add: mask_eq_exp_minus_1)
  show ?thesis unfolding m by (intro bit_word_eqI) (auto simp: bit_simps)
qed

lemmas emulate_defs =
  emulated_def checked_def Let_def set_greg_ctx set_freg_ctx source_reg nan_box opcode_defs

lemma emulate_load_ok:
  assumes "load_kinds (unat f) = Some k"
    and "rd = 0 \<or> allowed (perm s) PROT_READ a (access_width (LOAD k r b off))"
  shows "emulate_load_instruction s (ctx_of s) f rd a = Inr (emulated (LOAD k (unat rd) b off) a s)"
proof (cases "rd = 0")
  case True
  then show ?thesis by (simp add: emulate_load_instruction_def emulated_def wreg_def)
next
  case False
  with assms show ?thesis
    by (auto simp: emulate_load_instruction_def load_kinds_def emulate_defs word_unat_eq_iff [where v = f]
        split: if_splits)
qed

lemma emulate_fload_ok:
  assumes "fload_kinds (unat f) = Some k"
    and "allowed (perm s) PROT_READ a (access_width (FLOAD k r b off))"
  shows "emulate_fload_instruction s (ctx_of s) f rd a = Inr (emulated (FLOAD k (unat rd) b off) a s)"
  using assms
  by (auto simp: emulate_fload_instruction_def fload_kinds_def emulate_defs word_unat_eq_iff [where v = f]
      split: if_splits)

lemma emulate_store_ok:
  assumes "store_kinds (unat f) = Some k"
    and "allowed (perm s) PROT_WRITE a (access_width (STORE k r b off))"
  shows "emulate_store_instruction s (ctx_of s) f rs2 a = Inr (emulated (STORE k (unat rs2) b off) a s)"
  using assms
  by (auto simp: emulate_store_instruction_def store_kinds_def emulate_defs word_unat_eq_iff [where v = f]
      split: if_splits)

lemma emulate_fstore_ok:
  assumes "fstore_kinds (unat f) = Some k"
    and "allowed (perm s) PROT_WRITE a (access_width (FSTORE k r b off))"
  shows "emulate_fstore_instruction s (ctx_of s) f rs2 a = Inr (emulated (FSTORE k (unat rs2) b off) a s)"
  using assms
  by (auto simp: emulate_fstore_instruction_def fstore_kinds_def emulate_defs word_unat_eq_iff [where v = f]
      split: if_splits)

lemma decode32_access:
  assumes "decode32 w = Some i" and "is_access i"
  obtains
    (load) k where "fld 0 7 w = 0x03" "load_kinds (fld 12 3 w) = Some k" "i = LOAD k (fld 7 5 w) (fld 15 5 w) (imm_i w)"
  | (fload) k where "fld 0 7 w = 0x07" "fload_kinds (fld 12 3 w) = Some k" "i = FLOAD k (fld 7 5 w) (fld 15 5 w) (imm_i w)"
  | (store) k where "fld 0 7 w = 0x23" "store_kinds (fld 12 3 w) = Some k" "i = STORE k (fld 20 5 w) (fld 15 5 w) (imm_s w)"
  | (fstore) k where "fld 0 7 w = 0x27" "fstore_kinds (fld 12 3 w) = Some k" "i = FSTORE k (fld 20 5 w) (fld 15 5 w) (imm_s w)"
  using assms by (auto simp: decode32_def Let_def dest: decode_no_access split: if_splits)

definition resumed :: "instr \<Rightarrow> u64 \<Rightarrow> u64 \<Rightarrow> machine \<Rightarrow> machine \<times> ucontext" where
  "resumed i n a s = (s\<lparr>mem := mem (access_at i a s)\<rparr>, ctx_of (advance n (access_at i a s)))"

lemma resumed_emulated:
  "(case emulated i a s of (s', ctx') \<Rightarrow>
      (s', ctx'\<lparr>uc_gregs := (uc_gregs ctx')(0 := uc_gregs ctx' 0 + n)\<rparr>)) = resumed i n a s"
  by (simp add: emulated_def resumed_def ctx_of_def advance_def)

lemma emulate_32bit_ok:
  assumes "decode32 w = Some i" and "is_access i" and "allowed (perm s) (access_prot i) a (access_width i)"
  shows "emulate_32bit s (ctx_of s) w a = Inr (emulated i a s)"
proof -
  have fields: "unat (get_field w 12 3) = fld 12 3 w" "unat (get_field w 7 5) = fld 7 5 w"
      "unat (get_field w 20 5) = fld 20 5 w"
    by (simp_all add: unat_get_field)
  show ?thesis using assms(1,2)
  proof (cases rule: decode32_access)
    case (load k)
    have "emulate_load_instruction s (ctx_of s) (get_field w 12 3) (get_field w 7 5) a =
        Inr (emulated (LOAD k (unat (get_field w 7 5)) (fld 15 5 w) (imm_i w)) a s)"
      by (rule emulate_load_ok) (use assms(3) fields load in simp_all)
    with fields load show ?thesis by (simp add: emulate_32bit_def get_field_eq opcode_defs)
  next
    case (fload k)
    have "emulate_fload_instruction s (ctx_of s) (get_field w 12 3) (get_field w 7 5) a =
        Inr (emulated (FLOAD k (unat (get_field w 7 5)) (fld 15 5 w) (imm_i w)) a s)"
      by (rule emulate_fload_ok) (use assms(3) fields fload in simp_all)
    with fields fload show ?thesis by (simp add: emulate_32bit_def get_field_eq opcode_defs)
  next
    case (store k)
    have "emulate_store_instruction s (ctx_of s) (get_field w 12 3) (get_field w 20 5) a =
        Inr (emulated (STORE k (unat (get_field w 20 5)) (fld 15 5 w) (imm_s w)) a s)"
      by (rule emulate_store_ok) (use assms(3) fields store in simp_all)
    with fields store show ?thesis by (simp add: emulate_32bit_def get_field_eq opcode_defs)
  next
    case (fstore k)
    have "emulate_fstore_instruction s (ctx_of s) (get_field w 12 3) (get_field w 20 5) a =
        Inr (emulated (FSTORE k (unat (get_field w 20 5)) (fld 15 5 w) (imm_s w)) a s)"
      by (rule emulate_fstore_ok) (use assms(3) fields fstore in simp_all)
    with fields fstore show ?thesis by (simp add: emulate_32bit_def get_field_eq opcode_defs)
  qed
qed

lemma rvc_reg_map_fld:
  "fld 2 3 w < 8 \<and> unat (rvc_reg_map ! fld 2 3 w) = 8 + fld 2 3 w"
proof -
  have "list_all (\<lambda>n. unat (rvc_reg_map ! n) = 8 + n) [0..<8]" by code_simp
  then show ?thesis using fld_less [of 2 3 w] by (auto simp: list_all_iff)
qed

lemma emulate_16bit_ok:
  assumes "decode16 c = Some i" and "is_access i" and "allowed (perm s) (access_prot i) a (access_width i)"
  shows "emulate_16bit s (ctx_of s) c a = Inr (emulated i a s)"
proof -
  let ?w = "ucast c :: u32"
  let ?r = "rvc_reg_map ! unat (get_field ?w 2 3)"
  have fields: "unat (get_field ?w 7 5) = fld 7 5 ?w" "unat (get_field ?w 2 5) = fld 2 5 ?w"
      "unat ?r = 8 + fld 2 3 ?w" "?r \<noteq> 0"
    using rvc_reg_map_fld [of ?w] by (auto simp: unat_get_field)
  have rd0: "get_field ?w 7 5 = 0 \<longleftrightarrow> fld 7 5 ?w = 0" by (simp add: get_field_eq)
  have op: "fld 0 2 ?w = 0 \<or> fld 0 2 ?w = 2" and f3: "fld 13 3 ?w \<in> {1, 2, 3, 5, 6, 7}"
    using assms(1,2) by (auto simp: decode16_def decode_c0_def decode_c2_def Let_def dest: decode_no_access split: if_splits)
  from f3 op assms fields rd0 show ?thesis
    by (elim insertE disjE emptyE; clarsimp simp: emulate_16bit_def decode16_def decode_c0_def decode_c2_def Let_def get_field_eq
        opcode_defs emulate_c_load_store_instruction_def emulate_sp_rel_c_load_store_instruction_def
        emulated_def checked_def set_greg_ctx set_freg_ctx source_reg split: if_splits)
qed

text \<open>The whole emulation, for either length of instruction.\<close>

lemma emulate_at_ok:
  assumes "fetch s = (Some i, n)" and "is_access i" and "allowed (perm s) PROT_READ (pc s) (unat n)"
    and "allowed (perm s) (access_prot i) a (access_width i)"
  shows "emulate_at s (ctx_of s) a = Inr (resumed i n a s)"
proof (cases "load16 (mem s) (pc s) AND 3 = 3")
  case True
  then have n: "n = 4" and dec: "decode32 (load32 (mem s) (pc s)) = Some i"
    using assms(1) by (auto simp: fetch_def Let_def)
  with assms(3) have "allowed (perm s) PROT_READ (pc s) 4" "allowed (perm s) PROT_READ (pc s) 2"
    using allowed_inner [of "perm s" PROT_READ "pc s" 4 0 2] by simp_all
  with True n emulate_32bit_ok [OF dec assms(2,4)] resumed_emulated [where n = 4 and i = i and a = a and s = s]
  show ?thesis by (simp add: emulate_at_def checked_def Let_def split: prod.splits)
next
  case False
  then have n: "n = 2" and dec: "decode16 (load16 (mem s) (pc s)) = Some i"
    using assms(1) by (auto simp: fetch_def Let_def)
  with False assms(3) emulate_16bit_ok [OF dec assms(2,4)]
    resumed_emulated [where n = 2 and i = i and a = a and s = s]
  show ?thesis by (simp add: emulate_at_def checked_def Let_def split: prod.splits)
qed

lemma resume_resumed:
  "is_access i \<Longrightarrow> resumed i n a s = (t, ctx) \<Longrightarrow> resume t ctx = advance n (access_at i a s)"
  by (cases i) (auto simp: resumed_def resume_def ctx_of_def advance_def wreg_def wfreg_def fun_upd_idem)

section \<open>Redirection\<close>

definition backup_of :: "lib \<Rightarrow> u64 \<Rightarrow> u64" where
  "backup_of g a = start_addr_page (rsi g) + (a - ret_sequence_page_addr (rsi g))"

definition in_xom :: "lib \<Rightarrow> u64 \<Rightarrow> bool" where
  "in_xom g a \<longleftrightarrow> ret_sequence_page_addr (rsi g) \<le> a \<and>
     a \<le> ret_sequence_page_addr (rsi g) + protection_size (rsi g) - 1"

lemma segfault_handler_ok:
  assumes "fetch (cpu g) = (Some i, n)" and "is_access i" and "in_xom g a"
    and "allowed (perm (cpu g)) PROT_READ (pc (cpu g)) (unat n)"
    and "allowed (perm (cpu g)) (access_prot i) (backup_of g a) (access_width i)"
  shows "\<exists>t ctx. segfault_handler g sig a (ctx_of (cpu g)) = Inr (g\<lparr>cpu := t\<rparr>, ctx) \<and>
    resume t ctx = advance n (access_at i (backup_of g a) (cpu g))"
proof -
  obtain t ctx where r: "resumed i n (backup_of g a) (cpu g) = (t, ctx)" by fastforce
  with emulate_at_ok [OF assms(1,2,4,5)] assms(3)
  have "segfault_handler g sig a (ctx_of (cpu g)) = Inr (g\<lparr>cpu := t\<rparr>, ctx)"
    by (simp add: segfault_handler_def Let_def in_xom_def backup_of_def not_less [symmetric])
  with resume_resumed [OF assms(2) r] show ?thesis by blast
qed

lemma in_xom_range:
  assumes "0 < unat (protection_size (rsi g))"
    and "unat (ret_sequence_page_addr (rsi g)) + unat (protection_size (rsi g)) \<le> 2 ^ 64"
  shows "in_xom g a \<longleftrightarrow> in_range (ret_sequence_page_addr (rsi g)) (unat (protection_size (rsi g))) a"
proof -
  define p n where "p = ret_sequence_page_addr (rsi g)" and "n = protection_size (rsi g)"
  have n: "0 < unat n" "unat p + unat n \<le> 2 ^ 64" using assms by (simp_all add: p_def n_def)
  have "unat (n - 1) = unat n - 1" using n(1) by (simp add: unat_diff_cases)
  moreover have "unat (p + (n - 1)) = unat p + unat (n - 1)"
    using n calculation by (simp add: unat_plus_if')
  ultimately have e: "unat (p + n - 1) = unat p + unat n - 1" using n by (simp add: algebra_simps)
  have "in_xom g a \<longleftrightarrow> unat p \<le> unat a \<and> unat a \<le> unat p + unat n - 1"
    unfolding in_xom_def p_def [symmetric] n_def [symmetric] word_le_nat_alt e ..
  also have "\<dots> \<longleftrightarrow> in_range p (unat n) a"
    using n unat_lt_64 [of a] unat_lt_64 [of p] by (auto simp: in_range_def unat_diff_cases)
  finally show ?thesis by (simp add: p_def n_def)
qed

text \<open>The layout of \<open>define_ret_sequence_info\<close> and \<open>allocate_ret_sequence_page\<close>: the address of an
  access through the relocated global pointer goes back to the one through the original.\<close>

lemma backup_of_gp:
  assumes "page_size_ok os"
    and "allocate_ret_sequence_page os lk (define_ret_sequence_info os g) = Inr g'"
    and "rsi h = rsi g'"
  shows "backup_of h (relocated_gp (rsi h) + d) =
    (if 56 \<le> unat (virtual_global_pointer g) mod unat (os_page_size os)
     then virtual_global_pointer g + d else virtual_global_pointer g + d - os_page_size os)"
proof -
  obtain k where k: "k < 32" "os_page_size os = 2 ^ k" "unat (os_page_size os) = 2 ^ k"
    using assms(1) by (rule page_size_okE)
  let ?g = "define_ret_sequence_info os g"
  have off: "unat (gp_offset (rsi ?g)) = unat (virtual_global_pointer g) mod unat (os_page_size os)"
    using k by (simp add: unat_mod_pow2 unat_pow2)
  have r: "start_addr_page (rsi h) = start_addr_page (rsi ?g)" "relocated_gp (rsi h) = ret_sequence_page_addr (rsi h) + gp_offset (rsi ?g)"
    using assms(2,3) by (auto simp: allocate_ret_sequence_page_ok Let_def)
  have "start_addr_page (rsi ?g) = virtual_global_pointer g - gp_offset (rsi ?g) -
      (if 56 \<le> unat (gp_offset (rsi ?g)) then 0 else os_page_size os)"
    using ret_info_pages [OF assms(1), of g] by (cases "unat (gp_offset (rsi ?g)) = 0") auto
  then show ?thesis
    unfolding backup_of_def r off by (simp add: algebra_simps split: if_splits)
qed

lemma displacement_bound: "unat (0x800 + scast (d :: 12 word) :: u64) < 0x1000"
proof -
  have "0x800 + scast d = (of_int (0x800 + sint d) :: u64)" by (simp only: of_int_add of_int_sint of_int_numeral)
  then have u: "uint (0x800 + scast d :: u64) = take_bit 64 (0x800 + sint d)"
    by (simp only: unsigned_of_int) simp
  have b: "- 0x800 \<le> sint d" "sint d < 0x800"
    using sint_ge [of d] sint_lt [of d] by simp_all
  then have "take_bit 64 (0x800 + sint d) = 0x800 + sint d"
    by (intro take_bit_int_eq_self) simp_all
  with u b(2) have "uint (0x800 + scast d :: u64) < 0x1000" by linarith
  then show ?thesis unfolding unat_eq_nat_uint by linarith
qed

section \<open>Properties\<close>

text \<open>C7: the handler is the ISA's own semantics at the redirected address. For every load and store the
  ISA model decodes at the faulting program counter, of 32 or 16 bits, integer or floating point,
  when the faulting address lies in the execute-only pages, the program resumes in the state the
  instruction would have left had it accessed the corresponding address of the original pages.\<close>

theorem segfault_handler_redirects:
  assumes "fetch (cpu g) = (Some i, n)" and "is_access i" and "in_xom g (eff_addr i (cpu g))"
    and "allowed (perm (cpu g)) PROT_READ (pc (cpu g)) (unat n)"
    and "allowed (perm (cpu g)) (access_prot i) (backup_of g (eff_addr i (cpu g))) (access_width i)"
  shows "\<exists>t ctx. segfault_handler g sig (eff_addr i (cpu g)) (ctx_of (cpu g)) = Inr (g\<lparr>cpu := t\<rparr>, ctx) \<and>
    resume t ctx = advance n (access_at i (backup_of g (eff_addr i (cpu g))) (cpu g))"
  using assms by (rule segfault_handler_ok)

text \<open>C13: with the layout the library computes and the global pointer at least 56 bytes into its page,
  a load or store relative to the relocated global pointer that falls in the execute-only pages has
  the effect it would have had relative to the original one.\<close>

theorem gp_access_transparent:
  assumes "page_size_ok os" and "56 \<le> unat (virtual_global_pointer g) mod unat (os_page_size os)"
    and "allocate_ret_sequence_page os lk (define_ret_sequence_info os g) = Inr g'" and "rsi h = rsi g'"
    and "fetch (cpu h) = (Some i, n)" and "is_access i"
    and "eff_addr i (cpu h) = relocated_gp (rsi h) + d" and "in_xom h (relocated_gp (rsi h) + d)"
    and "allowed (perm (cpu h)) PROT_READ (pc (cpu h)) (unat n)"
    and "allowed (perm (cpu h)) (access_prot i) (virtual_global_pointer g + d) (access_width i)"
  shows "\<exists>t ctx. segfault_handler h sig (eff_addr i (cpu h)) (ctx_of (cpu h)) = Inr (h\<lparr>cpu := t\<rparr>, ctx) \<and>
    resume t ctx = advance n (access_at i (virtual_global_pointer g + d) (cpu h))"
proof -
  have "backup_of h (relocated_gp (rsi h) + d) = virtual_global_pointer g + d"
    using backup_of_gp [OF assms(1,3,4)] assms(2) by simp
  then show ?thesis using segfault_handler_ok [OF assms(5,6,8,9)] assms(7,10) by simp
qed

text \<open>C27: with 4 KiB pages and the global pointer in the middle of its page, where linkers put it, every
  12-bit displacement from the relocated global pointer falls in the execute-only pages.\<close>

theorem gp_displacements_covered:
  assumes "page_size_ok os" and "os_page_size os = 0x1000"
    and "virtual_global_pointer g mod 0x1000 = 0x800"
    and "allocate_ret_sequence_page os lk (define_ret_sequence_info os g) = Inr g'"
    and "unat (ret_sequence_page_addr (rsi g')) + 0x1000 \<le> 2 ^ 64"
  shows "in_xom g' (relocated_gp (rsi g') + scast (d :: 12 word))"
proof -
  have "unat (virtual_global_pointer g mod 2 ^ 12) = 0x800" using assms(3) by simp
  then have "unat (virtual_global_pointer g) mod unat (os_page_size os) = 0x800"
    using assms(2) unat_mod_pow2 [of "virtual_global_pointer g" 12] by simp
  then have ps: "protection_size (rsi g') = 0x1000"
    and rgp: "relocated_gp (rsi g') = ret_sequence_page_addr (rsi g') + 0x800"
    using assms(2,3,4) protection_size_cases [OF assms(1), of g]
    by (auto simp: allocate_ret_sequence_page_ok Let_def)
  have "unat (0x800 + scast d :: u64) < 0x1000" by (rule displacement_bound)
  then show ?thesis
    using assms(5) by (simp add: in_xom_range ps in_range_def rgp add.assoc)
qed


text \<open>C39: with the global pointer fewer than 56 bytes into its page, the address the handler redirects
  an access to is a whole page too low.\<close>

theorem gp_access_one_page_low:
  assumes "page_size_ok os" and "unat (virtual_global_pointer g) mod unat (os_page_size os) < 56"
    and "allocate_ret_sequence_page os lk (define_ret_sequence_info os g) = Inr g'" and "rsi h = rsi g'"
    and "fetch (cpu h) = (Some i, n)" and "is_access i"
    and "eff_addr i (cpu h) = relocated_gp (rsi h) + d" and "in_xom h (relocated_gp (rsi h) + d)"
    and "allowed (perm (cpu h)) PROT_READ (pc (cpu h)) (unat n)"
    and "allowed (perm (cpu h)) (access_prot i) (virtual_global_pointer g + d - os_page_size os) (access_width i)"
  shows "\<exists>t ctx. segfault_handler h sig (eff_addr i (cpu h)) (ctx_of (cpu h)) = Inr (h\<lparr>cpu := t\<rparr>, ctx) \<and>
    resume t ctx = advance n (access_at i (virtual_global_pointer g + d - os_page_size os) (cpu h))"
proof -
  have "backup_of h (relocated_gp (rsi h) + d) = virtual_global_pointer g + d - os_page_size os"
    using backup_of_gp [OF assms(1,3,4)] assms(2) by simp
  then show ?thesis using segfault_handler_ok [OF assms(5,6,8,9)] assms(7,10) by simp
qed


section \<open>Instances\<close>

text \<open>A program stopped at the instruction word \<open>w\<close>, at address 0, with \<open>gp\<close> relocated from \<open>v\<close>.\<close>

definition sample_fault :: "u64 \<Rightarrow> u32 \<Rightarrow> lib" where
  "sample_fault v w =
     (let g = sample_allocated v in
      g\<lparr>cpu := \<lparr>gregs = (\<lambda>r. if r = GP then relocated_gp (rsi g) else of_nat r), fregs = of_nat, pc = 0,
                mem = store32 (\<lambda>_. 0x5a) 0 w, perm = (\<lambda>_. 7)\<rparr>\<rparr>)"

lemma sample_fault_sel [simp]:
  "rsi (sample_fault v w) = rsi (sample_allocated v)" "pc (cpu (sample_fault v w)) = 0"
  "mem (cpu (sample_fault v w)) = store32 (\<lambda>_. 0x5a) 0 w" "perm (cpu (sample_fault v w)) = (\<lambda>_. 7)"
  "rreg (cpu (sample_fault v w)) GP = relocated_gp (rsi (sample_allocated v))"
  by (simp_all add: sample_fault_def Let_def rreg_def)

lemma sample_allocated_rsi:
  "ret_sequence_page_addr (rsi (sample_allocated v)) = 0x40000000"
  "relocated_gp (rsi (sample_allocated v)) = 0x40000000 + v mod 0x1000"
  "protection_size (rsi (sample_allocated v)) = protection_size (rsi (define_ret_sequence_info sample_os (sample_lib v)))"
  "start_addr_page (rsi (sample_allocated v)) = (v - 56) AND NOT 0xfff"
  using sample_allocated [of v]
  by (auto simp: allocate_ret_sequence_page_ok Let_def sample_os_def sample_lib_def
      define_ret_sequence_info_def RET_SEQUENCE_SIZE_def)

lemma sample_size:
  "protection_size (rsi (sample_allocated 0x50800)) = 0x1000"
  "protection_size (rsi (sample_allocated 0x50010)) = 0x2000"
  by (simp_all add: sample_allocated_rsi define_ret_sequence_info_def Let_def sample_os_def sample_lib_def
      RET_SEQUENCE_SIZE_def)

text \<open>\<open>0x0101b503\<close> is \<open>ld a0, 16(gp)\<close>.\<close>

lemma sample_fetch: "fetch (cpu (sample_fault v 0x0101b503)) = (Some (LOAD LD A0 GP 16), 4)"
proof -
  have "load32 (store32 (\<lambda>_. 0x5a) 0 0x0101b503) 0 = 0x0101b503" by (simp add: mem32.ld_st)
  moreover have "load16 (store32 (\<lambda>_. 0x5a) 0 0x0101b503) 0 = 0xb503" by code_simp
  moreover have "decode32 0x0101b503 = Some (LOAD LD A0 GP 16)" by (simp add: decode_defs)
  ultimately show ?thesis by (simp add: fetch_def Let_def)
qed

lemma sample_in_xom:
  "in_xom (sample_fault 0x50800 w) 0x40000810" "in_xom (sample_fault 0x50010 w) 0x40000020"
  by (simp_all add: in_xom_def sample_allocated_rsi(1) sample_size)

theorem segfault_handler_redirects_witness:
  "\<exists>t ctx. segfault_handler (sample_fault 0x50800 0x0101b503) 11 0x40000810
       (ctx_of (cpu (sample_fault 0x50800 0x0101b503))) = Inr ((sample_fault 0x50800 0x0101b503)\<lparr>cpu := t\<rparr>, ctx) \<and>
     pc (resume t ctx) = 4"
proof -
  let ?g = "sample_fault 0x50800 0x0101b503"
  obtain t ctx where "segfault_handler ?g 11 0x40000810 (ctx_of (cpu ?g)) = Inr (?g\<lparr>cpu := t\<rparr>, ctx)"
      "resume t ctx = advance 4 (access_at (LOAD LD A0 GP 16) (backup_of ?g 0x40000810) (cpu ?g))"
    using segfault_handler_redirects [OF sample_fetch, of "0x50800" 11] sample_in_xom(1)
    by (auto simp: allowed_all sample_allocated_rsi)
  then show ?thesis by (intro exI conjI) (assumption, simp add: advance_def)
qed

theorem gp_access_transparent_witness:
  "\<exists>t ctx. segfault_handler (sample_fault 0x50800 0x0101b503) 11 0x40000810
       (ctx_of (cpu (sample_fault 0x50800 0x0101b503))) = Inr ((sample_fault 0x50800 0x0101b503)\<lparr>cpu := t\<rparr>, ctx) \<and>
     rreg (resume t ctx) A0 = load64 (mem (cpu (sample_fault 0x50800 0x0101b503))) 0x50810"
proof -
  let ?g = "sample_fault 0x50800 0x0101b503"
  have v: "unat (virtual_global_pointer (sample_lib 0x50800)) mod unat (os_page_size sample_os) = 0x800"
      "virtual_global_pointer (sample_lib 0x50800) = 0x50800"
    by (simp_all add: sample_lib_def sample_os_def)
  obtain t ctx where "segfault_handler ?g 11 0x40000810 (ctx_of (cpu ?g)) = Inr (?g\<lparr>cpu := t\<rparr>, ctx)"
      "resume t ctx = advance 4 (access_at (LOAD LD A0 GP 16) 0x50810 (cpu ?g))"
    using gp_access_transparent [OF sample_os_ok(1) _ sample_allocated _ sample_fetch, of "0x50800" "0x50800" 16 11]
      sample_in_xom(1) [of "0x0101b503"] v
    by (auto simp: allowed_all sample_allocated_rsi)
  then show ?thesis
    by (intro exI conjI) (assumption, simp add: advance_def rreg_def wreg_def)
qed

theorem gp_displacements_covered_witness:
  "in_xom (sample_allocated 0x50800) (relocated_gp (rsi (sample_allocated 0x50800)) + scast (0x800 :: 12 word))"
  using gp_displacements_covered [OF sample_os_ok(1) _ _ sample_allocated, of "0x50800" "0x800"]
  by (simp add: sample_os_def sample_lib_def sample_allocated_rsi)


theorem gp_access_one_page_low_witness:
  "\<exists>t ctx. segfault_handler (sample_fault 0x50010 0x0101b503) 11 0x40000020
       (ctx_of (cpu (sample_fault 0x50010 0x0101b503))) = Inr ((sample_fault 0x50010 0x0101b503)\<lparr>cpu := t\<rparr>, ctx) \<and>
     rreg (resume t ctx) A0 = load64 (mem (cpu (sample_fault 0x50010 0x0101b503))) 0x4f020"
proof -
  let ?g = "sample_fault 0x50010 0x0101b503"
  have v: "unat (virtual_global_pointer (sample_lib 0x50010)) mod unat (os_page_size sample_os) = 0x10"
      "virtual_global_pointer (sample_lib 0x50010) = 0x50010" "os_page_size sample_os = 0x1000"
    by (simp_all add: sample_lib_def sample_os_def)
  obtain t ctx where "segfault_handler ?g 11 0x40000020 (ctx_of (cpu ?g)) = Inr (?g\<lparr>cpu := t\<rparr>, ctx)"
      "resume t ctx = advance 4 (access_at (LOAD LD A0 GP 16) 0x4f020 (cpu ?g))"
    using gp_access_one_page_low [OF sample_os_ok(1) _ sample_allocated _ sample_fetch, of "0x50010" "0x50010" 16 11]
      sample_in_xom(2) [of "0x0101b503"] v
    by (auto simp: allowed_all sample_allocated_rsi)
  then show ?thesis
    by (intro exI conjI) (assumption, simp add: advance_def rreg_def wreg_def)
qed


end
