(* ===== verification/Rewriter.thy ===== *)
theory Rewriter
  imports Utils
begin

text \<open>
  The binary rewriting of \<open>src/main.c\<close>: \<open>disassemble_and_rewrite\<close> sweeps an executable mapping with
  the Capstone disassembler and overwrites every \<open>ecall\<close> it meets with \<open>jalr gp, gp, 0\<close>. Capstone is
  not part of the sources: what \<open>cs_disasm_iter\<close> answers is a parameter, and so are the results of
  the calls that open and configure it. The context is a value; the page it is kept in, mapped at the
  start of a rewriting and unmapped at its end by \<open>intercept_disasm_destroy\<close>, is not part of the memory.
\<close>

section \<open>Definitions\<close>

text \<open>
  \<open>cs_disasm_iter\<close> on the code at an address with a number of bytes available: \<open>None\<close> when nothing
  can be decoded, otherwise the size of the instruction and whether its \<open>id\<close> is \<open>RISCV_INS_ECALL\<close>.
\<close>

type_synonym disasm = "memory \<Rightarrow> u64 \<Rightarrow> nat \<Rightarrow> (nat \<times> bool) option"

record capstone =
  cs_open :: int
  cs_option_detail :: int
  cs_option_mem :: int
  cs_malloc :: u64
  cs_disasm_iter :: disasm

record intercept_disasm_context =
  ctx_begin :: u64
  ctx_end :: u64

record intercept_disasm_result =
  res_address :: u64
  res_is_syscall :: bool
  res_length :: nat

definition intercept_disasm_init ::
  "os \<Rightarrow> capstone \<Rightarrow> u64 \<Rightarrow> u64 \<Rightarrow> intercept_disasm_context result" where
  "intercept_disasm_init os cs b e =
     (let context = os_mmap os 32 in
      if context = MAP_FAILED then Inl (Segv (context + 16))
      else if cs_open cs \<noteq> 0 then Inl (Exit 1)
      else if cs_option_detail cs \<noteq> 0 then Inl (Exit 1)
      else if cs_option_mem cs \<noteq> 0 then Inl (Exit 1)
      else if cs_malloc cs = 0 then Inl (Exit 1)
      else Inr \<lparr>ctx_begin = b, ctx_end = e\<rparr>)"

definition intercept_disasm_next_instruction ::
  "capstone \<Rightarrow> intercept_disasm_context \<Rightarrow> memory \<Rightarrow> u64 \<Rightarrow> intercept_disasm_result result" where
  "intercept_disasm_next_instruction cs context m code =
     (let size = unat (ctx_end context - code + 1) in
      case cs_disasm_iter cs m code size of
        None \<Rightarrow> Inr \<lparr>res_address = code, res_is_syscall = False, res_length = 0\<rparr>
      | Some (insn_size, is_ecall) \<Rightarrow>
          if insn_size = 0 then Inl (Exit 1)
          else Inr \<lparr>res_address = code, res_is_syscall = is_ecall, res_length = insn_size\<rparr>)"

text \<open>The loop of \<open>disassemble_and_rewrite\<close>; \<open>None\<close> would mean that it does not end.\<close>

partial_function (option) rewrite_loop ::
  "capstone \<Rightarrow> intercept_disasm_context \<Rightarrow> u64 \<Rightarrow> u64 \<Rightarrow> machine \<Rightarrow> machine result option" where
  "rewrite_loop cs context code_end code s =
     (if code \<le> code_end then
        (case intercept_disasm_next_instruction cs context (mem s) code of
           Inl h \<Rightarrow> Some (Inl h)
         | Inr r \<Rightarrow>
             if res_length r = 0 then rewrite_loop cs context code_end (code + 1) s
             else
               (case (if res_is_syscall r then poke32 (res_address r) 0x000181e7 s else Inr s) of
                  Inl h \<Rightarrow> Some (Inl h)
                | Inr s' \<Rightarrow> rewrite_loop cs context code_end (code + of_nat (res_length r)) s'))
      else Some (Inr s))"

definition disassemble_and_rewrite ::
  "os \<Rightarrow> capstone \<Rightarrow> u64 \<Rightarrow> u64 \<Rightarrow> u64 \<Rightarrow> u32 \<Rightarrow> machine \<Rightarrow> machine result option" where
  "disassemble_and_rewrite os cs pg code code_size mem_prot s =
     (let rwx = PROT_WRITE OR PROT_READ OR PROT_EXEC in
      if os_mprotect os code code_size rwx \<noteq> 0 then Some (Inl (Exit 1))
      else
        let code_end = code + code_size - 1 in
        case intercept_disasm_init os cs code code_end of
          Inl h \<Rightarrow> Some (Inl h)
        | Inr context \<Rightarrow>
            map_option
              (\<lambda>r. rbind r (\<lambda>s'.
                 if os_mprotect os code code_size mem_prot \<noteq> 0 then Inl (Exit 1)
                 else Inr (protect_pages pg code code_size mem_prot s')))
              (rewrite_loop cs context code_end code (protect_pages pg code code_size rwx s)))"

section \<open>What Capstone is documented to do\<close>

text \<open>
  An instruction has two bytes, or four when its two low bits are set, and never more than are
  available; the answer depends on the available bytes only, and that for an instruction on its own
  bytes; the word \<open>0x00000073\<close>, and it
  alone, is an \<open>ecall\<close>; and the words \<open>ecall\<close> and \<open>jalr gp, gp, 0\<close> are decoded.
\<close>

definition disasm_ok :: "disasm \<Rightarrow> bool" where
  "disasm_ok d \<longleftrightarrow>
     (\<forall>m a n l e. d m a n = Some (l, e) \<longrightarrow>
        l \<in> {2, 4} \<and> l \<le> n \<and> (e \<longleftrightarrow> l = 4 \<and> load32 m a = 0x73)) \<and>
     (\<forall>m m' a n. (\<forall>x. in_range a n x \<longrightarrow> m x = m' x) \<longrightarrow> d m a n = d m' a n) \<and>
     (\<forall>m m' a n l e. d m a n = Some (l, e) \<longrightarrow> (\<forall>x. in_range a l x \<longrightarrow> m x = m' x) \<longrightarrow>
        d m' a n = Some (l, e)) \<and>
     (\<forall>m a n. 4 \<le> n \<longrightarrow> load32 m a \<in> {0x73, 0x000181e7} \<longrightarrow> d m a n = Some (4, load32 m a = 0x73))"

section \<open>The sweep as a specification\<close>

text \<open>The instructions a linear sweep over \<open>n\<close> bytes from \<open>a\<close> meets, and the \<open>ecall\<close>s among them.\<close>

function sweep :: "disasm \<Rightarrow> memory \<Rightarrow> u64 \<Rightarrow> nat \<Rightarrow> (u64 \<times> nat \<times> bool) list" where
  "sweep d m a n =
     (if n = 0 then []
      else case d m a n of
        None \<Rightarrow> sweep d m (a + 1) (n - 1)
      | Some (l, e) \<Rightarrow> (a, l, e) # sweep d m (a + of_nat l) (n - max 1 l))"
  by pat_completeness auto
termination by (relation "measure (\<lambda>(d, m, a, n). n)") auto

declare sweep.simps [simp del]

definition ecall_sites :: "disasm \<Rightarrow> memory \<Rightarrow> u64 \<Rightarrow> nat \<Rightarrow> u64 list" where
  "ecall_sites d m a n = map fst (filter (\<lambda>(b, l, e). e) (sweep d m a n))"

definition patched :: "u64 list \<Rightarrow> memory \<Rightarrow> memory" where
  "patched sites m = fold (\<lambda>a m. store32 m a 0x000181e7) sites m"

lemma disasm_okD:
  assumes "disasm_ok d"
  shows "d m a n = Some (l, e) \<Longrightarrow> l \<in> {2, 4} \<and> l \<le> n \<and> (e \<longleftrightarrow> l = 4 \<and> load32 m a = 0x73)"
    and "(\<And>x. in_range a n x \<Longrightarrow> m x = m' x) \<Longrightarrow> d m a n = d m' a n"
    and "4 \<le> n \<Longrightarrow> load32 m a \<in> {0x73, 0x000181e7} \<Longrightarrow> d m a n = Some (4, load32 m a = 0x73)"
    and "d m a n = Some (l, e) \<Longrightarrow> (\<And>x. in_range a l x \<Longrightarrow> m x = m' x) \<Longrightarrow> d m' a n = Some (l, e)"
  using assms unfolding disasm_ok_def by blast+

lemma in_range_tail:
  assumes "in_range (a + of_nat k) (n - k) x" and "k \<le> n" and "n < 2 ^ 64"
  shows "in_range a n x"
  using in_range_inner [of "of_nat k" "n - k" n a x] assms
  by (simp add: unat_of_nat take_bit_eq_mod)

lemma sweep_Some:
  assumes "disasm_ok d" and "0 < n" and "d m a n = Some (l, e)"
  shows "sweep d m a n = (a, l, e) # sweep d m (a + of_nat l) (n - l)" and "0 < l" and "l \<le> n"
proof -
  have l: "l \<in> {2, 4}" "l \<le> n" using disasm_okD(1) [OF assms(1,3)] by blast+
  then show "0 < l" "l \<le> n" by auto
  with assms l show "sweep d m a n = (a, l, e) # sweep d m (a + of_nat l) (n - l)"
    by (auto simp: sweep.simps [of d m a n] max_def)
qed

lemma sweep_None:
  "0 < n \<Longrightarrow> d m a n = None \<Longrightarrow> sweep d m a n = sweep d m (a + 1) (n - 1)"
  by (simp add: sweep.simps [of d m a n])

text \<open>The sweep only looks at the bytes it is given, and stays inside them.\<close>

lemma sweep_cong:
  assumes ok: "disasm_ok d" and "n < 2 ^ 64" and "\<And>x. in_range a n x \<Longrightarrow> m x = m' x"
  shows "sweep d m a n = sweep d m' a n"
  using assms(2,3)
proof (induction n arbitrary: a rule: less_induct)
  case (less n)
  have same: "d m a n = d m' a n" using disasm_okD(2) [OF ok] less.prems(2) by blast
  have tail: "sweep d m (a + of_nat k) (n - k) = sweep d m' (a + of_nat k) (n - k)" if "0 < k" "k \<le> n" for k
    using that less.prems in_range_tail [of a k n] by (intro less.IH) auto
  show ?case
  proof (cases "n = 0")
    case True
    then show ?thesis by (simp add: sweep.simps)
  next
    case False
    show ?thesis
    proof (cases "d m a n")
      case None
      with False same tail [of 1] show ?thesis by (simp add: sweep.simps [of d _ a n])
    next
      case (Some r)
      obtain l e where r: "r = (l, e)" by (cases r)
      have n: "0 < n" using False by simp
      have dm: "d m a n = Some (l, e)" "d m' a n = Some (l, e)" using Some r same by simp_all
      show ?thesis
        using sweep_Some [OF ok n dm(1)] sweep_Some(1) [OF ok n dm(2)] tail [of l] by simp
    qed
  qed
qed

text \<open>A patch at the head of the range does not change the sweep of the rest.\<close>

lemma sweep_after_store:
  assumes "disasm_ok d" and "4 \<le> n" and "n < 2 ^ 64"
  shows "sweep d (store32 m a w) (a + 4) (n - 4) = sweep d m (a + 4) (n - 4)"
proof (rule sweep_cong [OF assms(1)])
  fix x assume x: "in_range (a + 4) (n - 4) x"
  have "separate a 4 (a + of_nat 4) (n - 4)" if "n - 4 \<noteq> 0"
    using assms that by (intro separate_next) auto
  moreover have "n - 4 \<noteq> 0" using x by (auto simp: in_range_def)
  ultimately have "\<not> in_range a 4 x" using separate_disjoint x by fastforce
  then show "store32 m a w x = m x" by (rule mem32.st_frame)
qed (use assms in simp)

lemma ecall_sites_step:
  assumes "disasm_ok d" and "0 < n"
  shows "d m a n = None \<Longrightarrow> ecall_sites d m a n = ecall_sites d m (a + 1) (n - 1)"
    and "d m a n = Some (l, False) \<Longrightarrow> ecall_sites d m a n = ecall_sites d m (a + of_nat l) (n - l)"
    and "d m a n = Some (l, True) \<Longrightarrow> ecall_sites d m a n = a # ecall_sites d m (a + of_nat l) (n - l)"
  using assms(2) sweep_Some(1) [OF assms, of m a l False] sweep_Some(1) [OF assms, of m a l True]
  by (simp_all add: ecall_sites_def sweep_None)

lemma code_step:
  fixes code :: u64
  assumes "unat code + n < 2 ^ 64" and "code_end = code + of_nat n - 1"
  shows "code \<le> code_end \<longleftrightarrow> 0 < n \<or> code = 0 \<and> n = 0"
    and "0 < n \<Longrightarrow> unat (code_end - code + 1) = n"
    and "k \<le> n \<Longrightarrow> unat (code + of_nat k) + (n - k) < 2 ^ 64"
    and "k \<le> n \<Longrightarrow> code_end = code + of_nat k + of_nat (n - k) - 1"
proof -
  have k: "unat (code + of_nat k) = unat code + k" if "k \<le> n" for k
    using assms(1) that by (simp add: unat_word_ariths unat_of_nat take_bit_eq_mod)
  show "k \<le> n \<Longrightarrow> unat (code + of_nat k) + (n - k) < 2 ^ 64" using k [of k] assms(1) by simp
  show "k \<le> n \<Longrightarrow> code_end = code + of_nat k + of_nat (n - k) - 1" using assms(2) by (simp add: of_nat_diff)
  show "0 < n \<Longrightarrow> unat (code_end - code + 1) = n"
    using assms by (simp add: unat_of_nat take_bit_eq_mod)
  show "code \<le> code_end \<longleftrightarrow> 0 < n \<or> code = 0 \<and> n = 0"
  proof (cases "n = 0")
    case True
    show ?thesis
    proof (cases "code = 0")
      case False
      then have pos: "0 < unat code" using unat_eq_0 [of code] by linarith
      then have "unat (code - 1) = unat code - 1" by (simp add: unat_diff_cases)
      then show ?thesis using pos True assms(2) False by (simp add: word_le_nat_alt)
    qed (use True in simp)
  next
    case False
    then have "code_end = code + of_nat (n - 1)" using assms(2) by (simp add: of_nat_diff)
    then have "unat code_end = unat code + (n - 1)" using k [of "n - 1"] by simp
    then show ?thesis using False by (simp add: word_le_nat_alt)
  qed
qed

text \<open>One turn of the loop, by what the disassembler finds.\<close>

lemma rewrite_loop_step:
  assumes le: "code \<le> code_end" and n: "unat (ctx_end context - code + 1) = n"
  shows "cs_disasm_iter cs (mem s) code n = None \<Longrightarrow>
      rewrite_loop cs context code_end code s = rewrite_loop cs context code_end (code + 1) s"
    and "cs_disasm_iter cs (mem s) code n = Some (l, False) \<Longrightarrow> 0 < l \<Longrightarrow>
      rewrite_loop cs context code_end code s = rewrite_loop cs context code_end (code + of_nat l) s"
    and "cs_disasm_iter cs (mem s) code n = Some (4, True) \<Longrightarrow> allowed (perm s) PROT_WRITE code 4 \<Longrightarrow>
      rewrite_loop cs context code_end code s =
      rewrite_loop cs context code_end (code + 4) (s\<lparr>mem := store32 (mem s) code 0x000181e7\<rparr>)"
  using le n
  by (simp_all add: rewrite_loop.simps [of cs "context" code_end code]
      intercept_disasm_next_instruction_def Let_def poke32_def)

text \<open>The loop ends and patches exactly the sites of the sweep.\<close>

lemma rewrite_loop_patches:
  assumes ok: "disasm_ok (cs_disasm_iter cs)" and "ctx_end context = code_end"
    and "unat code + n < 2 ^ 64" and "code_end = code + of_nat n - 1" and "code \<noteq> 0"
    and "allowed (perm s) PROT_WRITE code n"
  shows "rewrite_loop cs context code_end code s =
    Some (Inr (s\<lparr>mem := patched (ecall_sites (cs_disasm_iter cs) (mem s) code n) (mem s)\<rparr>))"
  using assms(3-)
proof (induction n arbitrary: code s rule: less_induct)
  case (less n)
  let ?d = "cs_disasm_iter cs"
  note step = code_step [OF less.prems(1,2)]
  have tail: "rewrite_loop cs context code_end (code + of_nat k) t =
      Some (Inr (t\<lparr>mem := patched (ecall_sites ?d (mem t) (code + of_nat k) (n - k)) (mem t)\<rparr>))"
    if "0 < k" "k \<le> n" "perm t = perm s" for k t
  proof (rule less.IH)
    have "unat (code + of_nat k) = unat code + k"
      using less.prems(1) that(2) by (simp add: unat_word_ariths unat_of_nat take_bit_eq_mod)
    then show "code + of_nat k \<noteq> 0" using that(1) by (auto simp: unat_eq_0 [symmetric])
    show "allowed (perm t) PROT_WRITE (code + of_nat k) (n - k)"
      using that less.prems(1,4)
      by (auto intro!: allowed_inner simp: unat_of_nat take_bit_eq_mod)
  qed (use that step(3) [of k] step(4) [of k] in simp_all)
  consider "n = 0" | (skip) "0 < n" "?d (mem s) code n = None"
    | (other) l where "0 < n" "?d (mem s) code n = Some (l, False)"
    | (ecall) l where "0 < n" "?d (mem s) code n = Some (l, True)" by fastforce
  then show ?case
  proof cases
    case 1
    then have "\<not> code \<le> code_end" using step(1) less.prems(3) by simp
    then show ?thesis using 1 by (simp add: rewrite_loop.simps ecall_sites_def sweep.simps patched_def)
  next
    case skip
    then show ?thesis
      using rewrite_loop_step(1) step(1,2) assms(2) tail [of 1 s] ecall_sites_step(1) [OF ok] by simp
  next
    case other
    then show ?thesis
      using rewrite_loop_step(2) step(1,2) assms(2) sweep_Some [OF ok _ other(2)] tail [of l s]
        ecall_sites_step(2) [OF ok, where n = n and a = code and l = l] by simp
  next
    case ecall
    then have l: "l = 4" "4 \<le> n" using disasm_okD(1) [OF ok ecall(2)] by simp_all
    let ?t = "s\<lparr>mem := store32 (mem s) code 0x000181e7\<rparr>"
    have "allowed (perm s) PROT_WRITE code 4" using allowed_inner [OF less.prems(4), of 0 4] l by simp
    moreover have "ecall_sites ?d (mem ?t) (code + 4) (n - 4) = ecall_sites ?d (mem s) (code + 4) (n - 4)"
      using sweep_after_store [OF ok, of n] l less.prems(1) ecall by (simp add: ecall_sites_def)
    ultimately show ?thesis
      using rewrite_loop_step(3) step(1,2) assms(2) ecall l tail [of 4 ?t]
        ecall_sites_step(3) [OF ok, where n = n and a = code and l = 4]
      by (simp add: patched_def)
  qed
qed

section \<open>The patched memory\<close>

lemma patched_Cons: "patched (a # sites) m = patched sites (store32 m a 0x000181e7)"
  by (simp add: patched_def)

lemma patched_frame:
  "(\<And>a. a \<in> set sites \<Longrightarrow> \<not> in_range a 4 x) \<Longrightarrow> patched sites m x = m x"
proof (induction sites arbitrary: m)
  case Nil
  then show ?case by (simp add: patched_def)
next
  case (Cons a sites)
  then have "\<not> in_range a 4 x" by simp
  with Cons show ?case by (simp add: patched_Cons mem32.st_frame)
qed

lemma patched_cong: "m x = m' x \<Longrightarrow> patched sites m x = patched sites m' x"
proof (induction sites arbitrary: m m')
  case Nil
  then show ?case by (simp add: patched_def)
next
  case (Cons a sites)
  have "store32 m a w x = store32 m' a w x" for w
    using Cons.prems by (simp add: store32_def store16_def store8_def)
  then show ?case unfolding patched_Cons by (rule Cons.IH)
qed

text \<open>The sites of a sweep lie in the swept range.\<close>

lemma ecall_sites_range:
  assumes ok: "disasm_ok d" and "n < 2 ^ 64" and "b \<in> set (ecall_sites d m a n)" and "in_range b 4 x"
  shows "in_range a n x"
  using assms(2,3)
proof (induction n arbitrary: a rule: less_induct)
  case (less n)
  have n: "0 < n" using less.prems(2) by (cases "n = 0") (auto simp: ecall_sites_def sweep.simps)
  have tail: "in_range a n x" if "b \<in> set (ecall_sites d m (a + of_nat k) (n - k))" "0 < k" "k \<le> n" for k
  proof (rule in_range_tail)
    show "in_range (a + of_nat k) (n - k) x"
      using that less.prems(1) n by (intro less.IH) auto
  qed (use that less.prems in simp_all)
  show ?case
  proof (cases "d m a n")
    case None
    then show ?thesis using ecall_sites_step(1) [OF ok n] less.prems(2) tail [of 1] n by simp
  next
    case (Some r)
    obtain l e where r: "d m a n = Some (l, e)" using Some by (cases r) auto
    note l = sweep_Some(2,3) [OF ok n r]
    have l4: "l = 4" if e using that disasm_okD(1) [OF ok r] by simp
    show ?thesis
    proof (cases "b = a \<and> e")
      case True
      with assms(4) l l4 show ?thesis by (simp add: in_range_def)
    next
      case False
      then have "b \<in> set (ecall_sites d m (a + of_nat l) (n - l))"
        using less.prems(2) ecall_sites_step(2,3) [OF ok n] r by (cases e) auto
      then show ?thesis using tail l by blast
    qed
  qed
qed

lemma tail_off_head:
  fixes a :: u64
  assumes "in_range (a + of_nat k) (n - k) x" and "k \<le> n" and "n < 2 ^ 64"
  shows "\<not> in_range a k x"
proof
  assume h: "in_range a k x"
  then have "0 < k" by (auto simp: in_range_def)
  moreover have "n - k \<noteq> 0" using assms(1) by (auto simp: in_range_def)
  ultimately have "separate a k (a + of_nat k) (n - k)"
    using assms(2,3) by (intro separate_next) auto
  then show False using separate_disjoint h assms(1) by blast
qed

text \<open>Patching the tail leaves the head alone, and each site ends up patched.\<close>

lemma patched_tail:
  assumes "disasm_ok d" and "n < 2 ^ 64" and "k \<le> n" and "in_range a k x"
  shows "patched (ecall_sites d m (a + of_nat k) (n - k)) m' x = m' x"
proof (rule patched_frame)
  fix b assume b: "b \<in> set (ecall_sites d m (a + of_nat k) (n - k))"
  show "\<not> in_range b 4 x"
  proof
    assume "in_range b 4 x"
    then have "in_range (a + of_nat k) (n - k) x"
      using ecall_sites_range [OF assms(1) _ b] assms(2) by simp
    then show False using tail_off_head assms(2-4) by blast
  qed
qed

lemma ecall_sites_after_store:
  assumes "disasm_ok d" and "4 \<le> n" and "n < 2 ^ 64"
  shows "ecall_sites d (store32 m a w) (a + 4) (n - 4) = ecall_sites d m (a + 4) (n - 4)"
  using sweep_after_store [OF assms] by (simp add: ecall_sites_def)

lemma patched_site:
  assumes ok: "disasm_ok d" and "n < 2 ^ 64" and "b \<in> set (ecall_sites d m a n)"
  shows "load32 (patched (ecall_sites d m a n) m) b = 0x000181e7"
  using assms(2,3)
proof (induction n arbitrary: a m rule: less_induct)
  case (less n)
  have n: "0 < n" using less.prems(2) by (cases "n = 0") (auto simp: ecall_sites_def sweep.simps)
  show ?case
  proof (cases "d m a n")
    case None
    then show ?thesis
      using ecall_sites_step(1) [OF ok n] less.IH [of "n - 1" m "a + 1"] less.prems n by simp
  next
    case (Some r)
    obtain l e where r: "d m a n = Some (l, e)" using Some by (cases r) auto
    note l = sweep_Some(2,3) [OF ok n r]
    show ?thesis
    proof (cases e)
      case False
      then show ?thesis
        using ecall_sites_step(2) [OF ok n] r l less.IH [of "n - l" m "a + of_nat l"] less.prems by simp
    next
      case True
      then have l4: "l = 4" using disasm_okD(1) [OF ok r] by simp
      let ?m = "store32 m a 0x000181e7"
      have sites: "ecall_sites d m a n = a # ecall_sites d ?m (a + 4) (n - 4)"
        using ecall_sites_step(3) [OF ok n] r True l l4 ecall_sites_after_store [OF ok _ less.prems(1)] by simp
      show ?thesis
      proof (cases "b \<in> set (ecall_sites d ?m (a + 4) (n - 4))")
        case True
        then show ?thesis
          using less.IH [of "n - 4" ?m "a + 4"] less.prems n unfolding sites patched_Cons by simp
      next
        case False
        then have "b = a" using less.prems(2) sites by simp
        moreover have "load32 (patched (ecall_sites d ?m (a + 4) (n - 4)) ?m) a = load32 ?m a"
          using patched_tail [OF ok less.prems(1), of 4 a] l l4 by (intro mem32.ld_cong) simp
        ultimately show ?thesis unfolding sites patched_Cons by (simp add: mem32.ld_st)
      qed
    qed
  qed
qed

text \<open>The sweep decoded every byte of the range.\<close>

definition decoded :: "disasm \<Rightarrow> memory \<Rightarrow> u64 \<Rightarrow> nat \<Rightarrow> bool" where
  "decoded d m a n \<longleftrightarrow> sum_list (map (\<lambda>(b, l, e). l) (sweep d m a n)) = n"

lemma sweep_sum_le:
  assumes ok: "disasm_ok d"
  shows "sum_list (map (\<lambda>(b, l, e). l) (sweep d m a n)) \<le> n"
proof (induction n arbitrary: a rule: less_induct)
  case (less n)
  show ?case
  proof (cases "n = 0")
    case True
    then show ?thesis by (simp add: sweep.simps)
  next
    case False
    then have n: "0 < n" by simp
    show ?thesis
    proof (cases "d m a n")
      case None
      then show ?thesis using less [of "n - 1" "a + 1"] n by (simp add: sweep_None)
    next
      case (Some r)
      obtain l e where r: "d m a n = Some (l, e)" using Some by (cases r) auto
      show ?thesis
        using sweep_Some [OF ok n r] less [of "n - l" "a + of_nat l"] by simp
    qed
  qed
qed

lemma decoded_step:
  assumes ok: "disasm_ok d" and "decoded d m a n" and n: "0 < n"
  obtains l e where "d m a n = Some (l, e)" "0 < l" "l \<le> n" "decoded d m (a + of_nat l) (n - l)"
    "sweep d m a n = (a, l, e) # sweep d m (a + of_nat l) (n - l)"
proof (cases "d m a n")
  case None
  then have "sum_list (map (\<lambda>(b, l, e). l) (sweep d m a n)) \<le> n - 1"
    using sweep_sum_le [OF ok, of m "a + 1" "n - 1"] n by (simp add: sweep_None)
  then show ?thesis using assms(2) n by (simp add: decoded_def)
next
  case (Some r)
  obtain l e where r: "d m a n = Some (l, e)" using Some by (cases r) auto
  with that sweep_Some [OF ok n r] assms(2) show ?thesis by (auto simp: decoded_def)
qed

text \<open>After patching, the sweep finds the same instructions and no \<open>ecall\<close>.\<close>

text \<open>An instruction is decoded as before once its bytes are patched, and is then no \<open>ecall\<close>.\<close>

lemma patched_head:
  assumes ok: "disasm_ok d" and r: "d m a n = Some (l, e)" "l \<le> n"
    and head: "\<And>x. in_range a l x \<Longrightarrow> m' x = (if e then store32 m a 0x000181e7 else m) x"
  shows "d m' a n = Some (l, False)"
proof (cases e)
  case True
  then have l4: "l = 4" using disasm_okD(1) [OF ok r(1)] by simp
  then have "load32 m' a = load32 (store32 m a 0x000181e7) a" using head True by (intro mem32.ld_cong) simp
  then show ?thesis using disasm_okD(3) [OF ok, of n m' a] r(2) l4 by (simp add: mem32.ld_st)
next
  case False
  then show ?thesis using disasm_okD(4) [OF ok r(1)] head by simp
qed

lemma sweep_patched:
  assumes ok: "disasm_ok d" and "n < 2 ^ 64" and "decoded d m a n"
    and "\<And>x. in_range a n x \<Longrightarrow> m' x = patched (ecall_sites d m a n) m x"
  shows "sweep d m' a n = map (\<lambda>(b, l, e). (b, l, False)) (sweep d m a n)"
  using assms(2-)
proof (induction n arbitrary: a rule: less_induct)
  case (less n)
  show ?case
  proof (cases "n = 0")
    case True
    then show ?thesis by (simp add: sweep.simps)
  next
    case False
    then have n: "0 < n" by simp
    obtain l e where r: "d m a n = Some (l, e)" "0 < l" "l \<le> n" "decoded d m (a + of_nat l) (n - l)"
        "sweep d m a n = (a, l, e) # sweep d m (a + of_nat l) (n - l)"
      using decoded_step [OF ok less.prems(2) n] by blast
    let ?sites = "ecall_sites d m (a + of_nat l) (n - l)"
    define m0 where "m0 = (if e then store32 m a 0x000181e7 else m)"
    have l4: "l = 4" if e using that disasm_okD(1) [OF ok r(1)] by simp
    have eq: "m' x = patched ?sites m0 x" if "in_range a n x" for x
      using less.prems(3) [OF that] ecall_sites_step(2,3) [OF ok n] r(1)
      by (cases e) (auto simp: m0_def patched_Cons)
    have head: "m' x = m0 x" if "in_range a l x" for x
    proof -
      have "in_range a n x" using that r(3) by (simp add: in_range_def)
      then show ?thesis using eq patched_tail [OF ok less.prems(1) r(3) that] by simp
    qed
    then have "d m' a n = Some (l, False)"
      using patched_head [OF ok r(1,3)] by (simp add: m0_def)
    moreover have "sweep d m' (a + of_nat l) (n - l) =
        map (\<lambda>(b, l, e). (b, l, False)) (sweep d m (a + of_nat l) (n - l))"
    proof (rule less.IH)
      fix x assume x: "in_range (a + of_nat l) (n - l) x"
      have "in_range a n x" using in_range_tail [OF x r(3) less.prems(1)] .
      then have "m' x = patched ?sites m0 x" by (rule eq)
      also have "\<dots> = patched ?sites m x"
        using tail_off_head [OF x r(3) less.prems(1)] l4
        by (intro patched_cong) (auto simp: m0_def mem32.st_frame)
      finally show "m' x = patched ?sites m x" .
    qed (use r less.prems in simp_all)
    ultimately show ?thesis
      using sweep_Some(1) [OF ok n, of m' a l False] r(5) by simp
  qed
qed

section \<open>The whole rewriting of a mapping\<close>

text \<open>The calls the rewriting makes all succeed, and the range does not wrap.\<close>

definition rewrite_ready :: "os \<Rightarrow> capstone \<Rightarrow> u64 \<Rightarrow> u64 \<Rightarrow> u64 \<Rightarrow> bool" where
  "rewrite_ready os cs pg code code_size \<longleftrightarrow>
     os_mmap os 32 \<noteq> MAP_FAILED \<and>
     cs_open cs = 0 \<and> cs_option_detail cs = 0 \<and> cs_option_mem cs = 0 \<and> cs_malloc cs \<noteq> 0 \<and>
     disasm_ok (cs_disasm_iter cs) \<and> 0 < pg \<and> code \<noteq> 0 \<and> unat code + unat code_size < 2 ^ 64"

definition rewrite_ok :: "os \<Rightarrow> capstone \<Rightarrow> u64 \<Rightarrow> u64 \<Rightarrow> u64 \<Rightarrow> u32 \<Rightarrow> bool" where
  "rewrite_ok os cs pg code code_size mem_prot \<longleftrightarrow>
     rewrite_ready os cs pg code code_size \<and>
     os_mprotect os code code_size (PROT_WRITE OR PROT_READ OR PROT_EXEC) = 0 \<and>
     os_mprotect os code code_size mem_prot = 0"

lemma protect_pages_allowed:
  assumes "0 < pg" and "w AND want = want"
  shows "allowed (perm (protect_pages pg a n w s)) want a (unat n)"
proof (rule allowed_range)
  fix x assume "in_range a (unat n) x"
  moreover have "unat n \<le> round_up (unat pg) (unat n)"
    using assms(1) by (intro round_up_le) (simp add: word_less_nat_alt)
  ultimately show "perm (protect_pages pg a n w s) x AND want = want"
    using assms(2) by (simp add: protect_pages_def set_prot_def in_range_def)
qed (rule unat_lt_64)

lemma set_prot_twice: "set_prot a n v (set_prot a n w p) = set_prot a n v p"
  by (auto simp: set_prot_def)

lemma disassemble_and_rewrite_cases:
  assumes "rewrite_ready os cs pg code code_size"
    and "os_mprotect os code code_size (PROT_WRITE OR PROT_READ OR PROT_EXEC) = 0"
  shows "disassemble_and_rewrite os cs pg code code_size mem_prot s =
    Some (if os_mprotect os code code_size mem_prot \<noteq> 0 then Inl (Exit 1)
      else Inr (protect_pages pg code code_size mem_prot
        (s\<lparr>mem := patched (ecall_sites (cs_disasm_iter cs) (mem s) code (unat code_size)) (mem s)\<rparr>)))"
proof -
  let ?rwx = "PROT_WRITE OR PROT_READ OR PROT_EXEC"
  let ?s = "protect_pages pg code code_size ?rwx s"
  let ?stop = "code + code_size - 1"
  note ok = assms(1) [unfolded rewrite_ready_def]
  have init: "intercept_disasm_init os cs code ?stop = Inr \<lparr>ctx_begin = code, ctx_end = ?stop\<rparr>"
    using ok by (simp add: intercept_disasm_init_def Let_def)
  have "allowed (perm ?s) PROT_WRITE code (unat code_size)"
    using ok by (intro protect_pages_allowed) (simp_all add: prot_defs)
  then have loop: "rewrite_loop cs \<lparr>ctx_begin = code, ctx_end = ?stop\<rparr> ?stop code ?s =
    Some (Inr (?s\<lparr>mem := patched (ecall_sites (cs_disasm_iter cs) (mem ?s) code (unat code_size)) (mem ?s)\<rparr>))"
    using ok by (intro rewrite_loop_patches) simp_all
  show ?thesis
    unfolding disassemble_and_rewrite_def Let_def assms(2) init
    by (simp add: loop) (simp add: protect_pages_def set_prot_twice)
qed

lemma disassemble_and_rewrite_ok:
  assumes "rewrite_ok os cs pg code code_size mem_prot"
  shows "disassemble_and_rewrite os cs pg code code_size mem_prot s =
    Some (Inr (protect_pages pg code code_size mem_prot
      (s\<lparr>mem := patched (ecall_sites (cs_disasm_iter cs) (mem s) code (unat code_size)) (mem s)\<rparr>)))"
  using assms disassemble_and_rewrite_cases [of os cs pg code code_size mem_prot s]
  by (simp add: rewrite_ok_def)

section \<open>Properties\<close>

text \<open>C8: the rewriting of a mapping ends, and replaces by \<open>jalr gp, gp, 0\<close> exactly the \<open>ecall\<close>
  instructions a linear sweep of the mapping meets: every such word reads \<open>0x000181e7\<close> afterwards, no
  other byte of memory has changed, registers are untouched, and the mapping has the protection it
  is given.\<close>

theorem rewrite_patches_ecalls:
  assumes "rewrite_ok os cs pg code code_size mem_prot"
  shows "\<exists>s'. disassemble_and_rewrite os cs pg code code_size mem_prot s = Some (Inr s') \<and>
    (let sites = ecall_sites (cs_disasm_iter cs) (mem s) code (unat code_size) in
     (\<forall>a \<in> set sites. load32 (mem s') a = 0x000181e7) \<and>
     (\<forall>x. (\<forall>a \<in> set sites. \<not> in_range a 4 x) \<longrightarrow> mem s' x = mem s x)) \<and>
    gregs s' = gregs s \<and> fregs s' = fregs s \<and> pc s' = pc s \<and>
    perm s' = set_prot code (round_up (unat pg) (unat code_size)) mem_prot (perm s)"
proof -
  have ok: "disasm_ok (cs_disasm_iter cs)" "unat code_size < 2 ^ 64"
    using assms by (simp_all add: rewrite_ok_def rewrite_ready_def)
  show ?thesis
    using disassemble_and_rewrite_ok [OF assms, of s] patched_site [OF ok]
    by (auto simp: Let_def protect_pages_def patched_frame)
qed

text \<open>C20: when the sweep decodes the whole mapping, sweeping it again after the rewriting finds
  instructions at the same addresses with the same lengths, and none of them is an \<open>ecall\<close>; so a
  second rewriting changes nothing.\<close>

theorem rewrite_leaves_no_ecall:
  assumes "rewrite_ok os cs pg code code_size mem_prot"
    and "decoded (cs_disasm_iter cs) (mem s) code (unat code_size)"
    and "disassemble_and_rewrite os cs pg code code_size mem_prot s = Some (Inr s')"
  shows "sweep (cs_disasm_iter cs) (mem s') code (unat code_size) =
      map (\<lambda>(b, l, e). (b, l, False)) (sweep (cs_disasm_iter cs) (mem s) code (unat code_size)) \<and>
    disassemble_and_rewrite os cs pg code code_size mem_prot s' = Some (Inr s')"
proof -
  let ?d = "cs_disasm_iter cs"
  have ok: "disasm_ok ?d" "unat code_size < 2 ^ 64" using assms(1) by (simp_all add: rewrite_ok_def rewrite_ready_def)
  have s': "s' = protect_pages pg code code_size mem_prot
      (s\<lparr>mem := patched (ecall_sites ?d (mem s) code (unat code_size)) (mem s)\<rparr>)"
    using disassemble_and_rewrite_ok [OF assms(1), of s] assms(3) by simp
  then have sw: "sweep ?d (mem s') code (unat code_size) =
      map (\<lambda>(b, l, e). (b, l, False)) (sweep ?d (mem s) code (unat code_size))"
    by (intro sweep_patched [OF ok assms(2)]) simp
  then have "ecall_sites ?d (mem s') code (unat code_size) = []"
    by (auto simp: ecall_sites_def filter_empty_conv)
  then have "disassemble_and_rewrite os cs pg code code_size mem_prot s' = Some (Inr s')"
    using disassemble_and_rewrite_ok [OF assms(1), of s'] s'
    by (simp add: patched_def protect_pages_def set_prot_twice)
  with sw show ?thesis by simp
qed

text \<open>C33: every failure ends the program: an \<open>mprotect\<close> that fails before or after the patching and a
  Capstone call that fails exit with status 1, and a failing \<open>mmap\<close>, whose result is not
  tested, makes the store to the context's third word fault at address 15.\<close>

theorem rewrite_fails:
  "(os_mprotect os code code_size (PROT_WRITE OR PROT_READ OR PROT_EXEC) \<noteq> 0 \<longrightarrow>
      disassemble_and_rewrite os cs pg code code_size mem_prot s = Some (Inl (Exit 1))) \<and>
   (os_mprotect os code code_size (PROT_WRITE OR PROT_READ OR PROT_EXEC) = 0 \<longrightarrow> os_mmap os 32 = MAP_FAILED \<longrightarrow>
      disassemble_and_rewrite os cs pg code code_size mem_prot s = Some (Inl (Segv 15))) \<and>
   (os_mprotect os code code_size (PROT_WRITE OR PROT_READ OR PROT_EXEC) = 0 \<longrightarrow> os_mmap os 32 \<noteq> MAP_FAILED \<longrightarrow>
      cs_open cs \<noteq> 0 \<or> cs_option_detail cs \<noteq> 0 \<or> cs_option_mem cs \<noteq> 0 \<or> cs_malloc cs = 0 \<longrightarrow>
      disassemble_and_rewrite os cs pg code code_size mem_prot s = Some (Inl (Exit 1))) \<and>
   (rewrite_ready os cs pg code code_size \<longrightarrow>
      os_mprotect os code code_size (PROT_WRITE OR PROT_READ OR PROT_EXEC) = 0 \<longrightarrow>
      os_mprotect os code code_size mem_prot \<noteq> 0 \<longrightarrow>
      disassemble_and_rewrite os cs pg code code_size mem_prot s = Some (Inl (Exit 1)))"
proof (intro conjI impI)
  assume "rewrite_ready os cs pg code code_size"
    and "os_mprotect os code code_size (PROT_WRITE OR PROT_READ OR PROT_EXEC) = 0"
      "os_mprotect os code code_size mem_prot \<noteq> 0"
  then show "disassemble_and_rewrite os cs pg code code_size mem_prot s = Some (Inl (Exit 1))"
    using disassemble_and_rewrite_cases [of os cs pg code code_size mem_prot s] by simp
qed (auto simp: disassemble_and_rewrite_def intercept_disasm_init_def Let_def MAP_FAILED_def)

section \<open>Instances\<close>

text \<open>A disassembler that satisfies the documentation: the length rule of the ISA.\<close>

definition isa_disasm :: disasm where
  "isa_disasm m a n =
     (if n < 2 then None
      else if load16 m a AND 3 = 3 then (if n < 4 then None else Some (4, load32 m a = 0x73))
      else Some (2, False))"

lemma load16_low: "load16 m a = ucast (load32 m a)"
  by (simp add: load32_def) (intro bit_word_eqI, auto simp: bit_simps)

lemma load16_high: "load16 m (a + 2) = ucast (drop_bit 16 (load32 m a))"
  by (simp add: load32_def) (intro bit_word_eqI, auto simp: bit_simps)

lemma isa_disasm_ok: "disasm_ok isa_disasm"
  unfolding disasm_ok_def
proof (intro conjI allI impI)
  fix m a n l e assume "isa_disasm m a n = Some (l, e)"
  then show "l \<in> {2, 4}" "l \<le> n" "e = (l = 4 \<and> load32 m a = 0x73)"
    by (auto simp: isa_disasm_def split: if_splits)
next
  fix m m' :: memory and a n assume same: "\<forall>x. in_range a n x \<longrightarrow> m x = m' x"
  have "load16 m a = load16 m' a" if "2 \<le> n" using same that by (intro mem16.ld_cong) (auto simp: in_range_def)
  moreover have "load32 m a = load32 m' a" if "4 \<le> n" using same that by (intro mem32.ld_cong) (auto simp: in_range_def)
  ultimately show "isa_disasm m a n = isa_disasm m' a n" by (auto simp: isa_disasm_def)
next
  fix m m' :: memory and a n l e
  assume d: "isa_disasm m a n = Some (l, e)" and same: "\<forall>x. in_range a l x \<longrightarrow> m x = m' x"
  have l: "l = 2 \<or> l = 4" using d by (auto simp: isa_disasm_def split: if_splits)
  have "load16 m a = load16 m' a" using same l by (intro mem16.ld_cong) (auto simp: in_range_def)
  moreover have "load32 m a = load32 m' a" if "l = 4" using same that by (intro mem32.ld_cong) auto
  ultimately show "isa_disasm m' a n = Some (l, e)"
    using d by (auto simp: isa_disasm_def split: if_splits)
next
  fix m a and n :: nat assume "4 \<le> n" "load32 m a \<in> {0x73, 0x000181e7}"
  then show "isa_disasm m a n = Some (4, load32 m a = 0x73)"
    by (auto simp: isa_disasm_def load16_low)
qed

definition sample_capstone :: capstone where
  "sample_capstone = \<lparr>cs_open = 0, cs_option_detail = 0, cs_option_mem = 0, cs_malloc = 0x6000,
     cs_disasm_iter = isa_disasm\<rparr>"

text \<open>Eight bytes of code: \<open>ecall\<close>, then two compressed instructions.\<close>

definition sample_text :: machine where
  "sample_text = sample_cpu\<lparr>mem := words_memory 0x10000 [0x00000073, 0x00010001] (\<lambda>_. 0)\<rparr>"

lemma sample_rewrite_ok: "rewrite_ok sample_os sample_capstone 4096 0x10000 8 5"
  by (simp add: rewrite_ok_def rewrite_ready_def sample_os_def sample_capstone_def isa_disasm_ok MAP_FAILED_def)

lemma sample_sweep:
  "sweep isa_disasm (mem sample_text) 0x10000 8 = [(0x10000, 4, True), (0x10004, 2, False), (0x10006, 2, False)]"
proof -
  have "code_at (mem sample_text) 0x10000 [0x00000073, 0x00010001]"
    by (simp add: sample_text_def code_at_words_memory del: code_at.simps words_memory.simps)
  then have w: "load32 (mem sample_text) 0x10000 = 0x73" "load32 (mem sample_text) 0x10004 = 0x10001"
    by simp_all
  then have "load16 (mem sample_text) 0x10000 = 0x73" "load16 (mem sample_text) 0x10004 = 1"
    "load16 (mem sample_text) 0x10006 = 1"
    using load16_high [of "mem sample_text" "0x10004"] by (simp_all add: load16_low [of _ "0x10000"] load16_low [of _ "0x10004"])
  with w show ?thesis by (simp add: sweep.simps isa_disasm_def)
qed

theorem rewrite_patches_ecalls_witness:
  "\<exists>s'. disassemble_and_rewrite sample_os sample_capstone 4096 0x10000 8 5 sample_text = Some (Inr s') \<and>
     load32 (mem s') 0x10000 = 0x000181e7 \<and> mem s' 0x10004 = mem sample_text 0x10004 \<and> perm s' 0x10000 = 5"
  using rewrite_patches_ecalls [OF sample_rewrite_ok, of sample_text] sample_sweep
  by (auto simp: ecall_sites_def sample_capstone_def Let_def in_range_def set_prot_def round_up_def)

theorem rewrite_leaves_no_ecall_witness:
  "\<exists>s'. disassemble_and_rewrite sample_os sample_capstone 4096 0x10000 8 5 sample_text = Some (Inr s') \<and>
     disassemble_and_rewrite sample_os sample_capstone 4096 0x10000 8 5 s' = Some (Inr s')"
proof -
  obtain s' where s': "disassemble_and_rewrite sample_os sample_capstone 4096 0x10000 8 5 sample_text = Some (Inr s')"
    using disassemble_and_rewrite_ok [OF sample_rewrite_ok] by blast
  have "decoded (cs_disasm_iter sample_capstone) (mem sample_text) 0x10000 (unat (8 :: u64))"
    using sample_sweep by (simp add: decoded_def sample_capstone_def)
  from rewrite_leaves_no_ecall [OF sample_rewrite_ok this s'] s' show ?thesis by blast
qed

theorem rewrite_fails_witness:
  "disassemble_and_rewrite (sample_os\<lparr>os_mmap := (\<lambda>_. MAP_FAILED)\<rparr>) sample_capstone 4096 0x10000 8 5 sample_text =
     Some (Inl (Segv 15))"
  using rewrite_fails [of "sample_os\<lparr>os_mmap := (\<lambda>_. MAP_FAILED)\<rparr>" "0x10000" 8 sample_capstone 4096 5 sample_text]
  by (simp add: sample_os_def)

end
