(* ===== verification/Maps_Parser.thy ===== *)
theory Maps_Parser
  imports Rewriter
begin

text \<open>
  \<open>rewrite_code\<close> of \<open>src/main.c\<close>: the library reads \<open>/proc/self/maps\<close> line by line, picks the
  mappings whose line names \<open>libc.so.6\<close> and that are executable, and rewrites them. The functions of
  the C library it parses with (\<open>fgets\<close>, \<open>strstr\<close>, \<open>strtok\<close>, \<open>strncpy\<close>, \<open>strtol\<close>) are modelled on
  strings without their terminating NUL.
\<close>

section \<open>The C library functions\<close>

text \<open>\<open>fgets(buf, n, fp)\<close>: at most \<open>n - 1\<close> characters, up to and including the first newline;
  \<open>None\<close> at the end of the file.\<close>

definition fgets :: "nat \<Rightarrow> string \<Rightarrow> (string \<times> string) option" where
  "fgets n file =
     (if file = [] then None
      else
        let window = take (n - 1) file;
            line = takeWhile (\<lambda>c. c \<noteq> CHR 0x0A) window;
            len = (if length line < length window then length line + 1 else length line)
        in Some (take len file, drop len file))"

fun strstr :: "string \<Rightarrow> string \<Rightarrow> bool" where
  "strstr [] needle = (needle = [])"
| "strstr (c # hay) needle = (take (length needle) (c # hay) = needle \<or> strstr hay needle)"

text \<open>One call of \<open>strtok\<close> with the delimiter \<open>" "\<close>: the next token and what remains.\<close>

definition strtok :: "string \<Rightarrow> (string \<times> string) option" where
  "strtok str =
     (let rest = dropWhile (\<lambda>c. c = CHR '' '') str in
      if rest = [] then None
      else Some (takeWhile (\<lambda>c. c \<noteq> CHR '' '') rest, drop 1 (dropWhile (\<lambda>c. c \<noteq> CHR '' '') rest)))"

text \<open>\<open>strtol(s, NULL, 16)\<close>: white space, a sign, an optional \<open>0x\<close>, hexadecimal digits; the value is
  clamped to the range of \<open>long\<close>.\<close>

definition hexval :: "char \<Rightarrow> nat option" where
  "hexval c =
     (let n = of_char c :: nat in
      if 48 \<le> n \<and> n \<le> 57 then Some (n - 48)
      else if 97 \<le> n \<and> n \<le> 102 then Some (n - 87)
      else if 65 \<le> n \<and> n \<le> 70 then Some (n - 55)
      else None)"

fun scan_hex :: "nat \<Rightarrow> string \<Rightarrow> nat" where
  "scan_hex acc [] = acc"
| "scan_hex acc (c # cs) = (case hexval c of None \<Rightarrow> acc | Some d \<Rightarrow> scan_hex (16 * acc + d) cs)"

definition isspace :: "char \<Rightarrow> bool" where
  "isspace c \<longleftrightarrow> c = CHR '' '' \<or> (9 \<le> (of_char c :: nat) \<and> (of_char c :: nat) \<le> 13)"

definition skip_0x :: "string \<Rightarrow> string" where
  "skip_0x str =
     (case str of
        z # x # d # rest \<Rightarrow>
          if z = CHR ''0'' \<and> (x = CHR ''x'' \<or> x = CHR ''X'') \<and> hexval d \<noteq> None then d # rest else str
      | _ \<Rightarrow> str)"

definition clamp_long :: "int \<Rightarrow> int" where
  "clamp_long v = max (- (2 ^ 63)) (min (2 ^ 63 - 1) v)"

definition strtol16 :: "string \<Rightarrow> int" where
  "strtol16 str =
     (let s1 = dropWhile isspace str;
          neg = (s1 \<noteq> [] \<and> hd s1 = CHR ''-'');
          s2 = (if s1 \<noteq> [] \<and> (hd s1 = CHR ''-'' \<or> hd s1 = CHR ''+'') then tl s1 else s1);
          v = int (scan_hex 0 (skip_0x s2))
      in clamp_long (if neg then - v else v))"

section \<open>Definitions\<close>

definition mem_prot_of :: "string \<Rightarrow> u32" where
  "mem_prot_of c = fold (\<lambda>ch p.
     let p1 = (if ch = CHR ''r'' then p OR PROT_READ else p);
         p2 = (if ch = CHR ''w'' then p1 OR PROT_WRITE else p1)
     in if ch = CHR ''x'' then p2 OR PROT_EXEC else p2) c 0"

text \<open>
  The work of the inner loop on one line: which range to rewrite with which protection, if any. The
  array \<open>addr\<close> has 65 bytes; without a dash in it \<open>k\<close> is its length, and \<open>addr[k + 1]\<close> is inside the
  zero-filled array unless \<open>k\<close> is 64.
\<close>

definition line_range :: "string \<Rightarrow> (u64 \<times> u64 \<times> u32) option result" where
  "line_range buf =
     (if \<not> strstr buf ''libc.so.6'' then Inr None
      else case strtok buf of
        None \<Rightarrow> Inr None
      | Some (c0, rest) \<Rightarrow>
          let addr = take 64 c0 in
          case strtok rest of
            None \<Rightarrow> Inr None
          | Some (c1, _) \<Rightarrow>
              let mem_prot = mem_prot_of c1 in
              if mem_prot AND PROT_EXEC = 0 then Inr None
              else
                let k = length (takeWhile (\<lambda>ch. ch \<noteq> CHR ''-'') addr);
                    from = strtol16 (take k addr)
                in if from = 0 then Inr None
                   else if k = 64 then Inl Out_of_bounds
                   else
                     let to = strtol16 (drop (k + 1) addr)
                     in Inr (Some (of_int from, of_int (to - from), mem_prot)))"

lemma fgets_shorter: "fgets 4096 file = Some (buf, file') \<Longrightarrow> length file' < length file"
  by (cases "file = []") (auto simp: fgets_def Let_def neq_Nil_conv split: if_splits)

function rewrite_lines :: "os \<Rightarrow> capstone \<Rightarrow> u64 \<Rightarrow> string \<Rightarrow> machine \<Rightarrow> machine result option" where
  "rewrite_lines os cs pg file s =
     (case fgets 4096 file of
        None \<Rightarrow> Some (Inr s)
      | Some (buf, file') \<Rightarrow>
          (case line_range buf of
             Inl h \<Rightarrow> Some (Inl h)
           | Inr None \<Rightarrow> rewrite_lines os cs pg file' s
           | Inr (Some (from, len, mem_prot)) \<Rightarrow>
               (case disassemble_and_rewrite os cs pg from len mem_prot s of
                  None \<Rightarrow> None
                | Some (Inl h) \<Rightarrow> Some (Inl h)
                | Some (Inr s') \<Rightarrow> rewrite_lines os cs pg file' s')))"
  by pat_completeness auto
termination by (relation "measure (\<lambda>(os, cs, pg, file, s). length file)") (auto dest: fgets_shorter)

declare rewrite_lines.simps [simp del]

text \<open>\<open>/proc/self/maps\<close> is a parameter: \<open>None\<close> when it cannot be opened, otherwise its text.\<close>

definition rewrite_code :: "os \<Rightarrow> capstone \<Rightarrow> string option \<Rightarrow> lib \<Rightarrow> lib result option" where
  "rewrite_code os cs maps g =
     (case maps of
        None \<Rightarrow> Some (Inl (Exit 1))
      | Some file \<Rightarrow>
          map_option (\<lambda>r. rbind r (\<lambda>s. Inr (g\<lparr>cpu := s\<rparr>))) (rewrite_lines os cs (page_size g) file (cpu g)))"

section \<open>The format of the kernel\<close>

text \<open>A line of \<open>/proc/self/maps\<close>: the bounds in hexadecimal with at least eight digits, four letters
  for the permissions, then offset, device, inode and path name.\<close>

record mapping =
  vm_start :: u64
  vm_end :: u64
  vm_read :: bool
  vm_write :: bool
  vm_exec :: bool
  vm_shared :: bool
  vm_name :: string

definition hexchar :: "nat \<Rightarrow> char" where
  "hexchar d = char_of (if d < 10 then 48 + d else 87 + d)"

fun hex_digits :: "nat \<Rightarrow> string" where
  "hex_digits n = (if n < 16 then [hexchar n] else hex_digits (n div 16) @ [hexchar (n mod 16)])"

declare hex_digits.simps [simp del]

definition hex8 :: "nat \<Rightarrow> string" where
  "hex8 n = (let ds = hex_digits n in replicate (8 - length ds) (CHR ''0'') @ ds)"

definition perm_letters :: "mapping \<Rightarrow> string" where
  "perm_letters v =
     [if vm_read v then CHR ''r'' else CHR ''-'', if vm_write v then CHR ''w'' else CHR ''-'',
      if vm_exec v then CHR ''x'' else CHR ''-'', if vm_shared v then CHR ''s'' else CHR ''p'']"

definition maps_line :: "mapping \<Rightarrow> string" where
  "maps_line v =
     hex8 (unat (vm_start v)) @ CHR ''-'' # hex8 (unat (vm_end v)) @ CHR '' '' # perm_letters v
       @ CHR '' '' # vm_name v @ [CHR 0x0A]"

definition prot_of :: "mapping \<Rightarrow> u32" where
  "prot_of v =
     (if vm_read v then PROT_READ else 0) OR (if vm_write v then PROT_WRITE else 0)
       OR (if vm_exec v then PROT_EXEC else 0)"

text \<open>Addresses of user space, and a path name that keeps the line in one piece.\<close>

definition mapping_ok :: "mapping \<Rightarrow> bool" where
  "mapping_ok v \<longleftrightarrow>
     0 < unat (vm_start v) \<and> unat (vm_start v) \<le> unat (vm_end v) \<and> unat (vm_end v) < 2 ^ 63 \<and>
     CHR 0x0A \<notin> set (vm_name v) \<and> length (maps_line v) < 4096"

text \<open>The mappings \<open>rewrite_code\<close> is after.\<close>

definition libc_text :: "mapping \<Rightarrow> bool" where
  "libc_text v \<longleftrightarrow> strstr (maps_line v) ''libc.so.6'' \<and> vm_exec v"

section \<open>Reading back what the kernel writes\<close>

lemma hexval_hexchar: "d < 16 \<Longrightarrow> hexval (hexchar d) = Some d"
  by (auto simp: hexval_def hexchar_def Let_def)

definition is_hex :: "char \<Rightarrow> bool" where
  "is_hex c \<longleftrightarrow> c \<in> hexchar ` {..<16}"

lemma is_hex_hexchar: "d < 16 \<Longrightarrow> is_hex (hexchar d)"
  by (simp add: is_hex_def)

lemma is_hex_0: "is_hex (CHR ''0'')"
proof -
  have "hexchar 0 = CHR ''0''" by code_simp
  then show ?thesis using is_hex_hexchar [of 0] by simp
qed

lemma is_hex_facts:
  assumes "is_hex c"
  shows "hexval c \<noteq> None" "c \<noteq> CHR ''-''" "c \<noteq> CHR ''+''" "c \<noteq> CHR '' ''" "c \<noteq> CHR ''x''" "c \<noteq> CHR ''X''"
    "c \<noteq> CHR 0x0A" "\<not> isspace c"
proof -
  have "list_all (\<lambda>d. let c = hexchar d in c \<noteq> CHR ''-'' \<and> c \<noteq> CHR ''+'' \<and> c \<noteq> CHR '' '' \<and> c \<noteq> CHR ''x'' \<and>
      c \<noteq> CHR ''X'' \<and> c \<noteq> CHR 0x0A \<and> \<not> isspace c) [0..<16]"
    by code_simp
  moreover obtain d where "d < 16" "c = hexchar d" using assms by (auto simp: is_hex_def)
  ultimately show "hexval c \<noteq> None" "c \<noteq> CHR ''-''" "c \<noteq> CHR ''+''" "c \<noteq> CHR '' ''" "c \<noteq> CHR ''x''"
    "c \<noteq> CHR ''X''" "c \<noteq> CHR 0x0A" "\<not> isspace c"
    by (auto simp: list_all_iff Let_def hexval_hexchar)
qed

lemma hex_digits_hex: "list_all is_hex (hex_digits n)" "hex_digits n \<noteq> []"
proof (induction n rule: hex_digits.induct)
  case (1 n)
  { case 1 with "1.IH" show ?case by (subst hex_digits.simps) (auto simp: is_hex_hexchar) }
  { case 2 with "1.IH" show ?case by (subst hex_digits.simps) auto }
qed

lemma scan_hex_append:
  "list_all is_hex xs \<Longrightarrow> scan_hex acc (xs @ ys) = scan_hex (scan_hex acc xs) ys"
proof (induction xs arbitrary: acc)
  case (Cons c xs)
  then obtain d where "hexval c = Some d" using is_hex_facts(1) by fastforce
  with Cons show ?case by simp
qed simp

lemma scan_hex_digits: "scan_hex acc (hex_digits n) = acc * 16 ^ length (hex_digits n) + n"
proof (induction n arbitrary: acc rule: hex_digits.induct)
  case (1 n)
  show ?case
  proof (cases "n < 16")
    case True
    then show ?thesis by (simp add: hex_digits.simps [of n] hexval_hexchar)
  next
    case False
    have "scan_hex acc (hex_digits n) =
        16 * (acc * 16 ^ length (hex_digits (n div 16)) + n div 16) + n mod 16"
      using False 1 by (simp add: hex_digits.simps [of n] scan_hex_append hex_digits_hex hexval_hexchar)
    then show ?thesis using False by (simp add: hex_digits.simps [of n])
  qed
qed

lemma scan_hex_zeros: "scan_hex 0 (replicate k (CHR ''0'')) = 0"
  by (induction k) (auto simp: hexval_def)

lemma hex8_hex: "list_all is_hex (hex8 n)" "8 \<le> length (hex8 n)"
proof -
  show "list_all is_hex (hex8 n)"
    using hex_digits_hex(1) [of n] is_hex_0 by (auto simp: hex8_def Let_def list_all_iff)
  show "8 \<le> length (hex8 n)" by (simp add: hex8_def Let_def)
qed

lemma scan_hex8: "scan_hex 0 (hex8 n) = n"
proof -
  have "list_all is_hex (replicate k (CHR ''0''))" for k using is_hex_0 by (simp add: list_all_iff)
  then show ?thesis
    by (simp add: hex8_def Let_def scan_hex_append scan_hex_zeros scan_hex_digits)
qed

lemma strtol16_hex8:
  assumes "n < 2 ^ 63"
  shows "strtol16 (hex8 n) = int n"
proof -
  obtain a b c rest where h: "hex8 n = a # b # c # rest"
    using hex8_hex(2) [of n] by (cases "hex8 n"; cases "tl (hex8 n)"; cases "tl (tl (hex8 n))") auto
  have "is_hex a" "is_hex b" using hex8_hex(1) [of n] h by simp_all
  then have "dropWhile isspace (hex8 n) = hex8 n" "hd (hex8 n) \<noteq> CHR ''-''" "hd (hex8 n) \<noteq> CHR ''+''"
    "skip_0x (hex8 n) = hex8 n"
    using is_hex_facts [of a] is_hex_facts [of b] h by (simp_all add: skip_0x_def)
  with assms show ?thesis by (simp add: strtol16_def Let_def scan_hex8 clamp_long_def)
qed

lemma take_hex8:
  "takeWhile (\<lambda>c. c \<noteq> CHR ''-'') (hex8 n @ CHR ''-'' # rest) = hex8 n"
  "takeWhile (\<lambda>c. c \<noteq> CHR '' '') (hex8 n @ ys) = hex8 n @ takeWhile (\<lambda>c. c \<noteq> CHR '' '') ys"
  "dropWhile (\<lambda>c. c \<noteq> CHR '' '') (hex8 n @ ys) = dropWhile (\<lambda>c. c \<noteq> CHR '' '') ys"
  using hex8_hex(1) [of n] is_hex_facts(2,4)
  by (auto simp: list_all_iff takeWhile_append dropWhile_append)

lemma hex_digits_length: "n < 16 ^ k \<Longrightarrow> 0 < k \<Longrightarrow> length (hex_digits n) \<le> k"
proof (induction n arbitrary: k rule: hex_digits.induct)
  case (1 n)
  show ?case
  proof (cases "n < 16")
    case True
    with 1 show ?thesis by (simp add: hex_digits.simps [of n])
  next
    case False
    then obtain k' where k: "k = Suc k'" "0 < k'"
      using 1(2,3) by (cases k; cases "k - 1") auto
    then have "n div 16 < 16 ^ k'" using 1(2) by (simp add: less_mult_imp_div_less mult.commute)
    with 1(1) [OF False, of k'] k False show ?thesis by (simp add: hex_digits.simps [of n])
  qed
qed

lemma hex8_length: "n < 2 ^ 63 \<Longrightarrow> length (hex8 n) \<le> 16"
  using hex_digits_length [of n 16] by (simp add: hex8_def Let_def)

lemma mem_prot_of_letters: "mem_prot_of (perm_letters v) = prot_of v"
  by (simp add: mem_prot_of_def perm_letters_def prot_of_def Let_def prot_defs)

lemma prot_of_exec: "prot_of v AND PROT_EXEC = 0 \<longleftrightarrow> \<not> vm_exec v"
  by (simp add: prot_of_def prot_defs)

text \<open>The two tokens of a line.\<close>

lemma maps_line_tokens:
  "\<exists>rest. strtok (maps_line v) =
      Some (hex8 (unat (vm_start v)) @ CHR ''-'' # hex8 (unat (vm_end v)), rest) \<and>
    (\<exists>rest'. strtok rest = Some (perm_letters v, rest'))"
proof -
  let ?a = "hex8 (unat (vm_start v))" and ?b = "hex8 (unat (vm_end v))"
  let ?tail = "perm_letters v @ CHR '' '' # vm_name v @ [CHR 0x0A]"
  obtain c cs where h: "?a = c # cs" "is_hex c"
    using hex8_hex [of "unat (vm_start v)"] by (cases ?a) auto
  have "c \<noteq> CHR '' ''" using is_hex_facts(4) [OF h(2)] .
  then have "dropWhile (\<lambda>c. c = CHR '' '') (maps_line v) = maps_line v"
    by (simp add: maps_line_def h(1))
  moreover have "takeWhile (\<lambda>c. c \<noteq> CHR '' '') (maps_line v) = ?a @ CHR ''-'' # ?b"
    and "dropWhile (\<lambda>c. c \<noteq> CHR '' '') (maps_line v) = CHR '' '' # ?tail"
    by (simp_all add: maps_line_def take_hex8(2,3))
  moreover have "maps_line v \<noteq> []" by (simp add: maps_line_def)
  ultimately have "strtok (maps_line v) = Some (?a @ CHR ''-'' # ?b, ?tail)"
    by (simp add: strtok_def)
  moreover have "\<exists>rest'. strtok ?tail = Some (perm_letters v, rest')"
    by (simp add: strtok_def Let_def perm_letters_def)
  ultimately show ?thesis by blast
qed

lemma line_range_maps_line:
  assumes "mapping_ok v"
  shows "line_range (maps_line v) =
    Inr (if libc_text v then Some (vm_start v, vm_end v - vm_start v, prot_of v) else None)"
proof -
  let ?a = "hex8 (unat (vm_start v))" and ?b = "hex8 (unat (vm_end v))"
  have b: "unat (vm_start v) < 2 ^ 63" "unat (vm_end v) < 2 ^ 63" "0 < unat (vm_start v)"
    using assms by (simp_all add: mapping_ok_def)
  obtain rest rest' where tok: "strtok (maps_line v) = Some (?a @ CHR ''-'' # ?b, rest)"
      "strtok rest = Some (perm_letters v, rest')"
    using maps_line_tokens by blast
  have len: "length ?a \<le> 16" "length ?b \<le> 16" using hex8_length b by blast+
  have "take 64 (?a @ CHR ''-'' # ?b) = ?a @ CHR ''-'' # ?b" using len by simp
  moreover have "takeWhile (\<lambda>c. c \<noteq> CHR ''-'') (?a @ CHR ''-'' # ?b) = ?a" by (rule take_hex8(1))
  moreover have "strtol16 ?a = int (unat (vm_start v))" "strtol16 ?b = int (unat (vm_end v))"
    using strtol16_hex8 b by blast+
  moreover have "uint (vm_start v) \<noteq> 0" using b(3) by (auto simp: uint_0_iff)
  ultimately show ?thesis
    using tok len b by (auto simp: line_range_def Let_def libc_text_def mem_prot_of_letters prot_of_exec)
qed

lemma fgets_line:
  assumes "CHR 0x0A \<notin> set l" and "length l + 1 \<le> 4095"
  shows "fgets 4096 (l @ CHR 0x0A # file) = Some (l @ [CHR 0x0A], file)"
proof -
  have "take 4095 (l @ CHR 0x0A # file) = l @ CHR 0x0A # take (4094 - length l) file"
    using assms(2) by (simp add: take_Cons' )
  moreover have "takeWhile (\<lambda>c. c \<noteq> CHR 0x0A) (l @ CHR 0x0A # xs) = l" for xs
    using assms(1) by (subst takeWhile_append2) auto
  ultimately show ?thesis by (simp add: fgets_def Let_def)
qed

lemma fgets_maps_line:
  assumes "mapping_ok v"
  shows "fgets 4096 (maps_line v @ file) = Some (maps_line v, file)"
proof -
  let ?l = "hex8 (unat (vm_start v)) @ CHR ''-'' # hex8 (unat (vm_end v)) @ CHR '' '' # perm_letters v
       @ CHR '' '' # vm_name v"
  have line: "maps_line v = ?l @ [CHR 0x0A]" by (simp add: maps_line_def)
  have "CHR 0x0A \<notin> set (hex8 n)" for n
    using hex8_hex(1) [of n] is_hex_facts(7) by (auto simp: list_all_iff)
  then have "CHR 0x0A \<notin> set ?l" using assms by (auto simp: mapping_ok_def perm_letters_def)
  moreover have "length ?l + 1 \<le> 4095" using assms line by (simp add: mapping_ok_def)
  ultimately show ?thesis using fgets_line [of ?l "file"] by (simp add: line)
qed

section \<open>All the mappings\<close>

text \<open>Rewriting a list of mappings one after the other.\<close>

fun rewrite_mappings :: "os \<Rightarrow> capstone \<Rightarrow> u64 \<Rightarrow> mapping list \<Rightarrow> machine \<Rightarrow> machine result option" where
  "rewrite_mappings os cs pg [] s = Some (Inr s)"
| "rewrite_mappings os cs pg (v # vs) s =
     (case disassemble_and_rewrite os cs pg (vm_start v) (vm_end v - vm_start v) (prot_of v) s of
        None \<Rightarrow> None
      | Some (Inl h) \<Rightarrow> Some (Inl h)
      | Some (Inr s') \<Rightarrow> rewrite_mappings os cs pg vs s')"

lemma rewrite_lines_maps:
  assumes "list_all mapping_ok vs"
  shows "rewrite_lines os cs pg (concat (map maps_line vs)) s = rewrite_mappings os cs pg (filter libc_text vs) s"
  using assms
proof (induction vs arbitrary: s)
  case Nil
  show ?case by (simp add: rewrite_lines.simps fgets_def)
next
  case (Cons v vs)
  then show ?case
    by (subst rewrite_lines.simps)
       (simp add: fgets_maps_line line_range_maps_line split: option.splits sum.splits)
qed

text \<open>Their bytes, and the \<open>ecall\<close>s a sweep of each of them meets.\<close>

definition vm_size :: "mapping \<Rightarrow> u64" where
  "vm_size v = vm_end v - vm_start v"

definition in_mapping :: "mapping \<Rightarrow> u64 \<Rightarrow> bool" where
  "in_mapping v x \<longleftrightarrow> in_range (vm_start v) (unat (vm_size v)) x"

definition apart :: "mapping \<Rightarrow> mapping \<Rightarrow> bool" where
  "apart v w \<longleftrightarrow> (\<forall>x. in_mapping v x \<longrightarrow> \<not> in_mapping w x)"

definition mapping_sites :: "disasm \<Rightarrow> memory \<Rightarrow> mapping \<Rightarrow> u64 list" where
  "mapping_sites d m v = ecall_sites d m (vm_start v) (unat (vm_size v))"

definition all_sites :: "disasm \<Rightarrow> memory \<Rightarrow> mapping list \<Rightarrow> u64 list" where
  "all_sites d m vs = concat (map (mapping_sites d m) vs)"


lemma patched_append: "patched (xs @ ys) m = patched ys (patched xs m)"
  by (simp add: patched_def)

lemma patched_mapping_frame:
  assumes "disasm_ok d" and "\<not> in_mapping v x"
  shows "patched (mapping_sites d m v) m' x = m' x"
proof (rule patched_frame)
  fix a assume "a \<in> set (mapping_sites d m v)"
  then show "\<not> in_range a 4 x"
    using ecall_sites_range [OF assms(1), of "unat (vm_size v)" a m "vm_start v" x] assms(2) unat_lt_64
    by (auto simp: mapping_sites_def in_mapping_def)
qed

lemma mapping_sites_cong:
  assumes "disasm_ok d" and "\<And>x. in_mapping v x \<Longrightarrow> m x = m' x"
  shows "mapping_sites d m v = mapping_sites d m' v"
  using sweep_cong [OF assms(1), of "unat (vm_size v)" "vm_start v" m m'] assms(2) unat_lt_64
  by (simp add: mapping_sites_def ecall_sites_def in_mapping_def)

lemma all_sites_after:
  assumes "disasm_ok d" and "\<forall>w \<in> set vs. apart v w"
  shows "all_sites d (patched (mapping_sites d m v) m) vs = all_sites d m vs"
proof -
  have "mapping_sites d (patched (mapping_sites d m v) m) w = mapping_sites d m w" if "w \<in> set vs" for w
    using assms(2) that
    by (intro mapping_sites_cong [OF assms(1)] patched_mapping_frame [OF assms(1)]) (auto simp: apart_def)
  then show ?thesis by (simp add: all_sites_def cong: map_cong)
qed

lemma patched_all_frame:
  assumes "disasm_ok d" and "\<forall>v \<in> set vs. \<not> in_mapping v x"
  shows "patched (all_sites d m vs) m' x = m' x"
  using assms(2)
proof (induction vs arbitrary: m')
  case Nil
  then show ?case by (simp add: all_sites_def patched_def)
next
  case (Cons v vs)
  then show ?case
    using patched_mapping_frame [OF assms(1), of v x]
    by (simp add: all_sites_def patched_append)
qed

text \<open>With the mappings apart, every site of every mapping ends up patched.\<close>

lemma patched_all_site:
  assumes ok: "disasm_ok d" and "sorted_wrt apart vs" and "a \<in> set (all_sites d m vs)"
  shows "load32 (patched (all_sites d m vs) m) a = 0x000181e7"
  using assms(2,3)
proof (induction vs arbitrary: m)
  case Nil
  then show ?case by (simp add: all_sites_def)
next
  case (Cons v vs)
  let ?m = "patched (mapping_sites d m v) m"
  have rest: "all_sites d ?m vs = all_sites d m vs"
    using Cons.prems(1) by (intro all_sites_after [OF ok]) simp
  have eq: "patched (all_sites d m (v # vs)) m = patched (all_sites d ?m vs) ?m"
    unfolding rest by (simp add: all_sites_def patched_append)
  show ?case
  proof (cases "a \<in> set (all_sites d m vs)")
    case True
    then show ?thesis using Cons.IH [of ?m] Cons.prems(1) unfolding eq rest by simp
  next
    case False
    then have a: "a \<in> set (mapping_sites d m v)" using Cons.prems(2) by (simp add: all_sites_def)
    have "load32 (patched (all_sites d ?m vs) ?m) a = load32 ?m a"
    proof (rule mem32.ld_cong)
      fix x assume "in_range a 4 x"
      then have "in_mapping v x"
        using ecall_sites_range [OF ok, of "unat (vm_size v)" a m "vm_start v" x] a unat_lt_64
        by (simp add: mapping_sites_def in_mapping_def)
      then show "patched (all_sites d ?m vs) ?m x = ?m x"
        using Cons.prems(1) by (intro patched_all_frame [OF ok]) (auto simp: apart_def)
    qed
    also have "\<dots> = 0x000181e7"
      using a unat_lt_64 by (simp add: mapping_sites_def patched_site [OF ok])
    finally show ?thesis unfolding eq .
  qed
qed

lemma round_up_multiple: "0 < pg \<Longrightarrow> pg dvd n \<Longrightarrow> round_up pg n = n"
proof -
  assume pg: "0 < pg" "pg dvd n"
  then obtain k where "n = pg * k" by blast
  with pg show ?thesis using div_nat_eqI [of pg k "n + (pg - 1)"] by (simp add: round_up_def)
qed

text \<open>Whole pages, and calls that succeed: what rewriting a list of mappings then does.\<close>

definition rewritable :: "os \<Rightarrow> capstone \<Rightarrow> u64 \<Rightarrow> mapping \<Rightarrow> bool" where
  "rewritable os cs pg v \<longleftrightarrow>
     rewrite_ok os cs pg (vm_start v) (vm_size v) (prot_of v) \<and> unat pg dvd unat (vm_size v)"

lemma rewrite_mapping_step:
  assumes "rewritable os cs pg v"
  shows "disassemble_and_rewrite os cs pg (vm_start v) (vm_end v - vm_start v) (prot_of v) s =
    Some (Inr (s\<lparr>mem := patched (mapping_sites (cs_disasm_iter cs) (mem s) v) (mem s),
      perm := (\<lambda>x. if in_mapping v x then prot_of v else perm s x)\<rparr>))"
proof -
  have ok: "rewrite_ok os cs pg (vm_start v) (vm_end v - vm_start v) (prot_of v)" "0 < unat pg"
      "unat pg dvd unat (vm_size v)"
    using assms by (simp_all add: rewritable_def vm_size_def rewrite_ok_def rewrite_ready_def word_less_nat_alt)
  then show ?thesis
    using disassemble_and_rewrite_ok [OF ok(1), of s]
    by (simp add: mapping_sites_def protect_pages_def set_prot_def in_mapping_def round_up_multiple vm_size_def)
qed

lemma rewrite_mappings_ok:
  assumes "list_all (rewritable os cs pg) vs" and "sorted_wrt apart vs" and "disasm_ok (cs_disasm_iter cs)"
  shows "\<exists>s'. rewrite_mappings os cs pg vs s = Some (Inr s') \<and>
    mem s' = patched (all_sites (cs_disasm_iter cs) (mem s) vs) (mem s) \<and>
    gregs s' = gregs s \<and> fregs s' = fregs s \<and> pc s' = pc s \<and>
    (\<forall>x. (\<forall>v \<in> set vs. \<not> in_mapping v x) \<longrightarrow> perm s' x = perm s x) \<and>
    (\<forall>v \<in> set vs. \<forall>x. in_mapping v x \<longrightarrow> perm s' x = prot_of v)"
  using assms(1,2)
proof (induction vs arbitrary: s)
  case Nil
  then show ?case by (simp add: all_sites_def patched_def)
next
  case (Cons v vs)
  let ?d = "cs_disasm_iter cs"
  let ?s = "s\<lparr>mem := patched (mapping_sites ?d (mem s) v) (mem s),
      perm := (\<lambda>x. if in_mapping v x then prot_of v else perm s x)\<rparr>"
  have step: "disassemble_and_rewrite os cs pg (vm_start v) (vm_end v - vm_start v) (prot_of v) s = Some (Inr ?s)"
    using Cons.prems(1) by (intro rewrite_mapping_step) simp
  have sites: "all_sites ?d (mem ?s) vs = all_sites ?d (mem s) vs"
    using Cons.prems(2) all_sites_after [OF assms(3), of vs v] by simp
  obtain s' where s': "rewrite_mappings os cs pg vs ?s = Some (Inr s')"
      "mem s' = patched (all_sites ?d (mem ?s) vs) (mem ?s)"
      "gregs s' = gregs ?s" "fregs s' = fregs ?s" "pc s' = pc ?s"
      "\<forall>x. (\<forall>v \<in> set vs. \<not> in_mapping v x) \<longrightarrow> perm s' x = perm ?s x"
      "\<forall>v \<in> set vs. \<forall>x. in_mapping v x \<longrightarrow> perm s' x = prot_of v"
    using Cons.IH [of ?s] Cons.prems by auto
  have "mem s' = patched (all_sites ?d (mem s) (v # vs)) (mem s)"
    using s'(2) unfolding sites by (simp add: all_sites_def patched_append)
  moreover have "perm s' x = prot_of v" if "in_mapping v x" for x
    using that s'(6) Cons.prems(2) by (auto simp: apart_def)
  ultimately show ?case using s' step by auto
qed



section \<open>Properties\<close>

text \<open>C22: the parser reads back what the kernel writes. For a mapping of user space whose line fits
  the buffer, the line yields the mapping's own bounds and protection when it names
  \<open>libc.so.6\<close> and is executable, and nothing otherwise.\<close>

theorem maps_line_roundtrip:
  assumes "mapping_ok v"
  shows "line_range (maps_line v) =
    Inr (if strstr (maps_line v) ''libc.so.6'' \<and> vm_exec v
         then Some (vm_start v, vm_end v - vm_start v, prot_of v) else None)"
  using line_range_maps_line [OF assms] by (simp add: libc_text_def)

text \<open>C21: on a memory map the kernel wrote, \<open>rewrite_code\<close> is the rewriting of the executable mappings
  of \<open>libc.so.6\<close>, each with its own bounds and protection, in the order of the file, and of no
  other mapping.\<close>

theorem rewrite_code_selects:
  assumes "list_all mapping_ok vs"
  shows "rewrite_code os cs (Some (concat (map maps_line vs))) g =
    map_option (\<lambda>r. rbind r (\<lambda>s. Inr (g\<lparr>cpu := s\<rparr>)))
      (rewrite_mappings os cs (page_size g) (filter libc_text vs) (cpu g))"
  using rewrite_lines_maps [OF assms] by (simp add: rewrite_code_def)

text \<open>C12: when its calls succeed, \<open>rewrite_code\<close> leaves \<open>jalr gp, gp, 0\<close> at every \<open>ecall\<close> a sweep of an
  executable mapping of \<open>libc.so.6\<close> meets, changes no byte outside these mappings, gives each
  mapping its protection back and no other page another one.\<close>

theorem rewrite_code_patches_libc:
  assumes "list_all mapping_ok vs" and "list_all (rewritable os cs (page_size g)) (filter libc_text vs)"
    and "sorted_wrt apart (filter libc_text vs)" and "disasm_ok (cs_disasm_iter cs)"
  shows "\<exists>s'. rewrite_code os cs (Some (concat (map maps_line vs))) g = Some (Inr (g\<lparr>cpu := s'\<rparr>)) \<and>
    (\<forall>a \<in> set (all_sites (cs_disasm_iter cs) (mem (cpu g)) (filter libc_text vs)).
       load32 (mem s') a = 0x000181e7) \<and>
    (\<forall>x. (\<forall>v \<in> set (filter libc_text vs). \<not> in_mapping v x) \<longrightarrow>
       mem s' x = mem (cpu g) x \<and> perm s' x = perm (cpu g) x) \<and>
    (\<forall>v \<in> set (filter libc_text vs). \<forall>x. in_mapping v x \<longrightarrow> perm s' x = prot_of v) \<and>
    gregs s' = gregs (cpu g)"
proof -
  define ls where "ls = filter libc_text vs"
  have ls: "list_all (rewritable os cs (page_size g)) ls" "sorted_wrt apart ls"
    using assms(2,3) by (simp_all add: ls_def)
  obtain s' where s': "rewrite_mappings os cs (page_size g) ls (cpu g) = Some (Inr s')"
      "mem s' = patched (all_sites (cs_disasm_iter cs) (mem (cpu g)) ls) (mem (cpu g))"
      "gregs s' = gregs (cpu g)"
      "\<forall>x. (\<forall>v \<in> set ls. \<not> in_mapping v x) \<longrightarrow> perm s' x = perm (cpu g) x"
      "\<forall>v \<in> set ls. \<forall>x. in_mapping v x \<longrightarrow> perm s' x = prot_of v"
    using rewrite_mappings_ok [OF ls assms(4), of "cpu g"] by blast
  have "rewrite_code os cs (Some (concat (map maps_line vs))) g = Some (Inr (g\<lparr>cpu := s'\<rparr>))"
    using rewrite_lines_maps [OF assms(1), of os cs "page_size g" "cpu g"] s'(1)
    by (simp add: rewrite_code_def ls_def)
  moreover have "\<forall>a \<in> set (all_sites (cs_disasm_iter cs) (mem (cpu g)) ls). load32 (mem s') a = 0x000181e7"
    using patched_all_site [OF assms(4) ls(2)] unfolding s'(2) by blast
  moreover have "\<forall>x. (\<forall>v \<in> set ls. \<not> in_mapping v x) \<longrightarrow> mem s' x = mem (cpu g) x \<and> perm s' x = perm (cpu g) x"
    using patched_all_frame [OF assms(4), of ls] s'(4) unfolding s'(2) by blast
  ultimately show ?thesis
    unfolding ls_def [symmetric] using s'(3,5) by (intro exI [of _ s']) blast
qed


section \<open>Instances\<close>

definition sample_libc :: mapping where
  "sample_libc = \<lparr>vm_start = 0x10000, vm_end = 0x11000, vm_read = True, vm_write = False, vm_exec = True,
     vm_shared = False, vm_name = ''00000000 08:01 1042 /usr/lib/libc.so.6''\<rparr>"

definition sample_heap :: mapping where
  "sample_heap = \<lparr>vm_start = 0x50000, vm_end = 0x52000, vm_read = True, vm_write = True, vm_exec = False,
     vm_shared = False, vm_name = ''00000000 00:00 0 [heap]''\<rparr>"

lemma hexchar_table:
  "hexchar 0 = CHR ''0''" "hexchar (Suc 0) = CHR ''1''" "hexchar 2 = CHR ''2''" "hexchar 5 = CHR ''5''"
  by code_simp+

lemma sample_lines:
  "maps_line sample_libc = ''00010000-00011000 r-xp 00000000 08:01 1042 /usr/lib/libc.so.6'' @ [CHR 0x0A]"
  "maps_line sample_heap = ''00050000-00052000 rw-p 00000000 00:00 0 [heap]'' @ [CHR 0x0A]"
  by (simp_all add: maps_line_def sample_libc_def sample_heap_def hex8_def hex_digits.simps hexchar_table
      perm_letters_def numeral_3_eq_3)

lemma sample_mappings_ok: "list_all mapping_ok [sample_heap, sample_libc]"
  by (simp add: mapping_ok_def sample_lines) (simp add: sample_libc_def sample_heap_def)

lemma sample_libc_text: "filter libc_text [sample_heap, sample_libc] = [sample_libc]"
  by (simp add: libc_text_def sample_lines) (simp add: sample_libc_def sample_heap_def)

definition sample_loaded :: lib where
  "sample_loaded = (sample_lib 0)\<lparr>cpu := sample_text, page_size := 4096\<rparr>"

lemma sample_rewritable: "list_all (rewritable sample_os sample_capstone (page_size sample_loaded)) [sample_libc]"
  by (simp add: rewritable_def rewrite_ok_def rewrite_ready_def sample_os_def sample_capstone_def isa_disasm_ok
      MAP_FAILED_def sample_libc_def vm_size_def sample_loaded_def)

lemma sample_site: "0x10000 \<in> set (all_sites isa_disasm (mem sample_text) [sample_libc])"
proof -
  have "code_at (mem sample_text) 0x10000 [0x00000073, 0x00010001]"
    by (simp add: sample_text_def code_at_words_memory del: code_at.simps words_memory.simps)
  then have "isa_disasm (mem sample_text) 0x10000 0x1000 = Some (4, True)"
    by (simp add: isa_disasm_def load16_low)
  from ecall_sites_step(3) [OF isa_disasm_ok _ this] show ?thesis
    by (simp add: all_sites_def mapping_sites_def sample_libc_def vm_size_def)
qed

theorem maps_line_roundtrip_witness:
  "line_range (''00010000-00011000 r-xp 00000000 08:01 1042 /usr/lib/libc.so.6'' @ [CHR 0x0A]) =
     Inr (Some (0x10000, 0x1000, 5))"
  using maps_line_roundtrip [of sample_libc] sample_mappings_ok
  by (simp add: sample_lines) (simp add: sample_libc_def prot_of_def prot_defs)

theorem rewrite_code_selects_witness:
  "rewrite_code sample_os sample_capstone (Some (maps_line sample_heap @ maps_line sample_libc)) sample_loaded =
     map_option (\<lambda>r. rbind r (\<lambda>s. Inr (sample_loaded\<lparr>cpu := s\<rparr>)))
       (rewrite_mappings sample_os sample_capstone 4096 [sample_libc] sample_text)"
  using rewrite_code_selects [OF sample_mappings_ok, of sample_os sample_capstone sample_loaded] sample_libc_text
  by (simp add: sample_loaded_def)

theorem rewrite_code_patches_libc_witness:
  "\<exists>s'. rewrite_code sample_os sample_capstone (Some (maps_line sample_heap @ maps_line sample_libc)) sample_loaded =
       Some (Inr (sample_loaded\<lparr>cpu := s'\<rparr>)) \<and> load32 (mem s') 0x10000 = 0x000181e7"
proof -
  have "disasm_ok (cs_disasm_iter sample_capstone)" by (simp add: sample_capstone_def isa_disasm_ok)
  from rewrite_code_patches_libc [OF sample_mappings_ok _ _ this, of sample_os sample_loaded] obtain s'
    where "rewrite_code sample_os sample_capstone (Some (maps_line sample_heap @ maps_line sample_libc)) sample_loaded =
        Some (Inr (sample_loaded\<lparr>cpu := s'\<rparr>))"
      "\<forall>a \<in> set (all_sites (cs_disasm_iter sample_capstone) (mem (cpu sample_loaded)) [sample_libc]).
         load32 (mem s') a = 0x000181e7"
    using sample_rewritable unfolding sample_libc_text by auto
  with sample_site show ?thesis
    by (intro exI [of _ s']) (simp add: sample_capstone_def sample_loaded_def)
qed


end
