(* ===== verification/Vp_Init.thy ===== *)
theory Vp_Init
  imports Trampoline Sigsegv_Handler Maps_Parser
begin

text \<open>
  The life of the library in \<open>src/main.c\<close>: the constructor \<open>__vpoline_init\<close>, which runs the set-up of
  the other components in order, \<open>load_hook_lib\<close>, which finds the user's hook, and the wrapper of
  \<open>__libc_start_main\<close>. The dynamic loader and the environment are parameters.
\<close>

section \<open>Definitions\<close>

text \<open>
  \<open>ld_dlopen\<close> and \<open>ld_hook_init\<close> run code of the hook library, so they may change the machine;
  pointers are addresses, \<open>0\<close> for \<open>NULL\<close>. \<open>ld_hook_init f a b p\<close> is the call \<open>f(a, b, &p)\<close>: the machine
  afterwards, the \<open>int\<close> returned and the pointer stored, or how it ended the program.
\<close>

record loader =
  ld_getenv :: "string \<Rightarrow> string option"
  ld_dlopen :: "string \<Rightarrow> machine \<Rightarrow> machine \<times> u64"
  ld_dlsym :: "u64 \<Rightarrow> string \<Rightarrow> u64"
  ld_hook_init :: "u64 \<Rightarrow> u64 \<Rightarrow> u64 \<Rightarrow> u64 \<Rightarrow> machine \<Rightarrow> (machine \<times> u32 \<times> u64) result"
  ld_next :: "string \<Rightarrow> u64"

definition load_hook_lib :: "loader \<Rightarrow> link \<Rightarrow> lib \<Rightarrow> lib result" where
  "load_hook_lib ld lk g =
     (case ld_getenv ld ''LIBVPHOOK'' of
        None \<Rightarrow> Inr g
      | Some filename \<Rightarrow>
          let (c, handle) = ld_dlopen ld filename (cpu g) in
          if handle = 0 then Inl (Exit 1)
          else
            let hook_init = ld_dlsym ld handle ''__hook_init'' in
            if hook_init = 0 then Inl (Exit 1)
            else
              rbind (ld_hook_init ld hook_init 0 (sym_syscall_no_intercept lk) 0 c)
                (\<lambda>(c', init_state, user_hook_ptr).
                   if init_state \<noteq> 0 then Inl (Exit 1)
                   else Inr (g\<lparr>cpu := c', hook_fn := user_hook_ptr\<rparr>)))"

text \<open>\<open>mv %0, gp\<close> and \<open>mv gp, %0\<close>.\<close>

definition save_gp :: "lib \<Rightarrow> lib" where
  "save_gp g = g\<lparr>virtual_global_pointer := rreg (cpu g) GP\<rparr>"

definition relocate_gp :: "lib \<Rightarrow> lib" where
  "relocate_gp g = g\<lparr>cpu := wreg GP (relocated_gp (rsi g)) (cpu g)\<rparr>"

text \<open>The calls between the two moves.\<close>

definition install :: "os \<Rightarrow> link \<Rightarrow> lib \<Rightarrow> lib result" where
  "install os lk g =
     rbind (init_trap_handler os (define_ret_sequence_info os g)) (\<lambda>g.
     rbind (allocate_ret_sequence_page os lk g) (\<lambda>g.
     rbind (setup_shadow_page_trampoline lk g) (setup_return os)))"

definition vpoline_init ::
  "os \<Rightarrow> capstone \<Rightarrow> link \<Rightarrow> loader \<Rightarrow> string option \<Rightarrow> lib \<Rightarrow> lib result option" where
  "vpoline_init os cs lk ld maps g =
     (case install os lk (save_gp g) of
        Inl h \<Rightarrow> Some (Inl h)
      | Inr g' \<Rightarrow> map_option (\<lambda>r. rbind r (load_hook_lib ld lk)) (rewrite_code os cs maps (relocate_gp g')))"

text \<open>
  The check of a debug build: the base name of the running executable against the target, which is
  the variable \<open>VPOLINE_TARGET\<close>, or the base name of the first word of the command line, or
  \<open>dummy_exec\<close>. \<open>readlink\<close> is given 4095 bytes, and so is \<open>fread\<close>.
\<close>

record procfs =
  proc_exe :: "string option"
  proc_cmdline :: "string option"

definition after_slash :: "string \<Rightarrow> string" where
  "after_slash str = rev (takeWhile (\<lambda>c. c \<noteq> CHR ''/'') (rev str))"

definition c_string :: "string \<Rightarrow> string" where
  "c_string buf = takeWhile (\<lambda>c. c \<noteq> CHR 0x00) buf"

definition expected_target :: "loader \<Rightarrow> procfs \<Rightarrow> string" where
  "expected_target ld pr =
     (case ld_getenv ld ''VPOLINE_TARGET'' of
        Some t \<Rightarrow> t
      | None \<Rightarrow>
          (case proc_cmdline pr of
             None \<Rightarrow> ''dummy_exec''
           | Some text \<Rightarrow> let r = take 4095 text in
               if r = [] then ''dummy_exec'' else after_slash (c_string r)))"

definition is_target :: "loader \<Rightarrow> procfs \<Rightarrow> bool" where
  "is_target ld pr =
     (case proc_exe pr of
        None \<Rightarrow> False
      | Some path \<Rightarrow> path \<noteq> [] \<and> after_slash (c_string (take 4095 path)) = expected_target ld pr)"

definition vpoline_init_debug ::
  "os \<Rightarrow> capstone \<Rightarrow> link \<Rightarrow> loader \<Rightarrow> procfs \<Rightarrow> string option \<Rightarrow> lib \<Rightarrow> lib result option" where
  "vpoline_init_debug os cs lk ld pr maps g =
     (if is_target ld pr then vpoline_init os cs lk ld maps g else Some (Inr (save_gp g)))"

text \<open>The wrapper of \<open>__libc_start_main\<close>: the function it goes on to, and the state it does so in. The
  result of \<open>dlsym\<close> is called without a test.\<close>

definition libc_start_main :: "loader \<Rightarrow> lib \<Rightarrow> (u64 \<times> lib) result" where
  "libc_start_main ld g =
     (let orig_libc_start_main = ld_next ld ''__libc_start_main'';
          g' = relocate_gp g
      in if orig_libc_start_main = 0 then Inl (Segv 0) else Inr (orig_libc_start_main, g'))"

section \<open>What the set-up installs\<close>

text \<open>The global pointer is far enough from both ends of its page for the two code sequences.\<close>

definition gp_fits :: "os \<Rightarrow> u64 \<Rightarrow> bool" where
  "gp_fits os v \<longleftrightarrow>
     56 \<le> unat v mod unat (os_page_size os) \<and>
     unat v mod unat (os_page_size os) + 80 \<le> unat (os_page_size os)"

text \<open>The state after a successful \<open>install\<close>: both code sequences around the relocated global pointer, in
  a page that can only be executed; the pointer in the variable the assembly reads; and the page
  where the fault handler looks for it, with the addresses of the original page behind it.\<close>

definition shadow_page :: "lib \<Rightarrow> u64 \<Rightarrow> bool" where
  "shadow_page g x \<longleftrightarrow> in_range (ret_sequence_page_addr (rsi g)) (unat (protection_size (rsi g))) x"

definition shadows :: "lib \<Rightarrow> bool" where
  "shadows g \<longleftrightarrow>
     (\<forall>x. shadow_page g x \<longrightarrow> in_xom g x) \<and>
     (\<forall>d. backup_of g (relocated_gp (rsi g) + d) = virtual_global_pointer g + d)"

definition installed :: "link \<Rightarrow> lib \<Rightarrow> bool" where
  "installed lk g \<longleftrightarrow>
     (let rgp = relocated_gp (rsi g) in
      code_at (mem (cpu g)) (rgp - 56) (return_words @ trampoline_words (sym_asm_syscall_hook lk)) \<and>
      (\<forall>x. in_range (rgp - 56) 136 x \<longrightarrow> shadow_page g x) \<and>
      (\<forall>x. shadow_page g x \<longrightarrow> perm (cpu g) x = PROT_EXEC) \<and>
      load64 (mem (cpu g)) (sym_relocated_global_pointer lk) = rgp \<and> shadows g)"

lemma installed_frame:
  assumes inst: "installed lk g" and "rsi g' = rsi g" and "virtual_global_pointer g' = virtual_global_pointer g"
    and same: "\<And>x. shadow_page g x \<Longrightarrow> mem (cpu g') x = mem (cpu g) x \<and> perm (cpu g') x = perm (cpu g) x"
    and "\<And>x. in_range (sym_relocated_global_pointer lk) 8 x \<Longrightarrow> mem (cpu g') x = mem (cpu g) x"
  shows "installed lk g'"
proof -
  let ?ws = "return_words @ trampoline_words (sym_asm_syscall_hook lk)" and ?rgp = "relocated_gp (rsi g)"
  have len: "length ?ws = 34" by (simp add: length_words)
  have page: "shadow_page g' = shadow_page g" "shadows g' = shadows g"
    using assms(2,3) by (simp_all add: shadow_page_def shadows_def backup_of_def in_xom_def fun_eq_iff)
  have in_page: "shadow_page g x" if "in_range (?rgp - 56) 136 x" for x
    using inst that by (simp add: installed_def Let_def)
  have "code_at (mem (cpu g')) (?rgp - 56) ?ws = code_at (mem (cpu g)) (?rgp - 56) ?ws"
    using same in_page len by (intro code_at_cong) auto
  moreover have "load64 (mem (cpu g')) (sym_relocated_global_pointer lk) = load64 (mem (cpu g)) (sym_relocated_global_pointer lk)"
    using assms(5) by (rule mem64.ld_cong)
  ultimately show ?thesis using inst same assms(2) by (simp add: installed_def Let_def page)
qed

text \<open>The variable lies outside the new mapping.\<close>

definition var_apart :: "os \<Rightarrow> link \<Rightarrow> bool" where
  "var_apart os lk \<longleftrightarrow>
     (\<forall>x. in_range (sym_relocated_global_pointer lk) 8 x \<longrightarrow>
        \<not> in_range (os_mmap os (os_page_size os)) (unat (os_page_size os)) x)"

lemma install_page:
  assumes ok: "page_size_ok os" "mmap_ok os" and fits: "gp_fits os (virtual_global_pointer g)"
    and alloc: "allocate_ret_sequence_page os lk (define_ret_sequence_info os g) = Inr g1"
  shows "ret_sequence_page_addr (rsi g1) = os_mmap os (os_page_size os)"
    and "start_addr (rsi g1) = relocated_gp (rsi g1) - 56" and "page_size g1 = os_page_size os"
    and "ret_sequence_page_addr (rsi g1) mod os_page_size os = 0"
    and "round_up (unat (os_page_size os)) (unat (virtual_global_pointer g mod os_page_size os)) = unat (os_page_size os)"
    and "load64 (mem (cpu g1)) (sym_relocated_global_pointer lk) = relocated_gp (rsi g1)"
    and "ucast (56 + start_offset (rsi g1)) = virtual_global_pointer g mod os_page_size os"
proof -
  obtain k where k: "12 \<le> k" "k < 32" "os_page_size os = 2 ^ k" "unat (os_page_size os) = 2 ^ k"
    using ok(1) by (rule page_size_okE)
  define off where "off = virtual_global_pointer g mod os_page_size os"
  have off: "unat off = unat (virtual_global_pointer g) mod unat (os_page_size os)"
    using k(2) by (simp add: off_def k(3) unat_mod_pow2 unat_pow2)
  have b: "56 \<le> unat off" "unat off + 80 \<le> 2 ^ k" using fits off k(4) by (simp_all add: gp_fits_def)
  have k31: "(2 :: nat) ^ k \<le> 2 ^ 31" using k(2) by (intro power_increasing) auto
  have ps: "protection_size (rsi (define_ret_sequence_info os g)) = os_page_size os"
    using protection_size_cases [OF ok(1), of g] fits by (simp add: gp_fits_def Let_def)
  let ?page = "os_mmap os (os_page_size os)"
  have al: "?page mod os_page_size os = 0" and "?page \<noteq> MAP_FAILED"
    using alloc ok(2) ps by (auto simp: allocate_ret_sequence_page_ok mmap_ok_def)
  have r: "ret_sequence_page_addr (rsi g1) = ?page" "relocated_gp (rsi g1) = ?page + off"
    "start_addr (rsi g1) = relocated_gp (rsi g1) - 56" "page_size g1 = os_page_size os"
    "start_offset (rsi g1) = ucast ((relocated_gp (rsi g1) - 56) mod os_page_size os)"
    "load64 (mem (cpu g1)) (sym_relocated_global_pointer lk) = relocated_gp (rsi g1)"
    using alloc ps by (auto simp: allocate_ret_sequence_page_ok Let_def off_def mem64.ld_st)
  show "ret_sequence_page_addr (rsi g1) = ?page" "start_addr (rsi g1) = relocated_gp (rsi g1) - 56"
    "page_size g1 = os_page_size os" "ret_sequence_page_addr (rsi g1) mod os_page_size os = 0"
    "load64 (mem (cpu g1)) (sym_relocated_global_pointer lk) = relocated_gp (rsi g1)"
    using r al by simp_all
  have "(?page + off) mod 2 ^ k = off"
    using page_plus_offset [of ?page k "virtual_global_pointer g"] al k(3) by (simp add: off_def)
  moreover have "unat (?page + off) mod 2 ^ k = unat off"
    using arg_cong [OF calculation, of unat] by (simp add: unat_mod_pow2)
  ultimately have "(relocated_gp (rsi g1) - 56) mod os_page_size os = off - 56"
    using page_sub [of 56 "?page + off" k] b(1) r(2) k(3) by simp
  then have "56 + start_offset (rsi g1) = (ucast off :: u32)"
    using r(5) ucast_lower [of "off - 56" 56] by simp
  moreover have "ucast (ucast off :: u32) = off"
    using b(2) k31 by (simp add: word_eq_iff_unsigned [where ?'a = nat] unsigned_ucast_eq unsigned_take_bit_eq take_bit_nat_eq_self_iff)
  ultimately show "ucast (56 + start_offset (rsi g1)) = virtual_global_pointer g mod os_page_size os"
    by (simp add: off_def)
  show "round_up (unat (os_page_size os)) (unat (virtual_global_pointer g mod os_page_size os)) = unat (os_page_size os)"
    using b k(4) by (simp add: round_up_one off_def)
qed

text \<open>The kernel registers the handler, and maps and seals the page.\<close>

definition kernel_grants :: "os \<Rightarrow> u64 \<Rightarrow> bool" where
  "kernel_grants os v \<longleftrightarrow>
     os_sigaction os \<noteq> - 1 \<and> os_mmap os (os_page_size os) \<noteq> MAP_FAILED \<and>
     os_mprotect os (os_mmap os (os_page_size os)) (v mod os_page_size os) PROT_EXEC \<noteq> - 1"

text \<open>When the global pointer fits, the stores of \<open>install\<close> cannot fault; what remains are the answers of
  the kernel.\<close>

lemma allocate_trap:
  "allocate_ret_sequence_page os lk (g\<lparr>trap_handler := t\<rparr>) =
     rbind (allocate_ret_sequence_page os lk g) (\<lambda>g. Inr (g\<lparr>trap_handler := t\<rparr>))"
  by (simp add: allocate_ret_sequence_page_def Let_def)

lemma allocated_range:
  assumes "page_size_ok os" and "gp_fits os (virtual_global_pointer g)"
    and g1: "allocate_ret_sequence_page os lk (define_ret_sequence_info os g) = Inr g1"
  shows "allowed (perm (cpu g1)) PROT_WRITE (relocated_gp (rsi g1) - 56) 136"
    and "in_range (relocated_gp (rsi g1) - 56) 136 x \<Longrightarrow> in_range (ret_sequence_page_addr (rsi g1)) (unat (os_page_size os)) x"
    and "ret_sequence_page_addr (rsi g1) = os_mmap os (os_page_size os)"
    and "\<not> in_range (os_mmap os (os_page_size os)) (unat (os_page_size os)) x \<Longrightarrow>
      \<not> in_range (sym_relocated_global_pointer lk) 8 x \<Longrightarrow> mem (cpu g1) x = mem (cpu g) x"
proof -
  have b: "56 \<le> unat (virtual_global_pointer g) mod unat (os_page_size os)"
    "unat (virtual_global_pointer g) mod unat (os_page_size os) + 80 \<le> unat (os_page_size os)"
    using assms(2) by (simp_all add: gp_fits_def)
  note inside = ret_sequence_inside [OF assms(1) b g1]
  have start: "start_addr (rsi g1) = relocated_gp (rsi g1) - 56"
    using g1 by (auto simp: allocate_ret_sequence_page_ok Let_def)
  show "allowed (perm (cpu g1)) PROT_WRITE (relocated_gp (rsi g1) - 56) 136"
    using inside(2,3) start by (intro allowed_range) (auto simp: set_prot_def prot_defs)
  show "in_range (relocated_gp (rsi g1) - 56) 136 x \<Longrightarrow> in_range (ret_sequence_page_addr (rsi g1)) (unat (os_page_size os)) x"
    using inside(3) start by simp
  have ps: "protection_size (rsi (define_ret_sequence_info os g)) = os_page_size os"
    using protection_size_cases [OF assms(1), of g] assms(2) by (simp add: gp_fits_def Let_def)
  then show "ret_sequence_page_addr (rsi g1) = os_mmap os (os_page_size os)"
    using g1 by (auto simp: allocate_ret_sequence_page_ok Let_def)
  show "mem (cpu g1) x = mem (cpu g) x"
    if "\<not> in_range (os_mmap os (os_page_size os)) (unat (os_page_size os)) x" "\<not> in_range (sym_relocated_global_pointer lk) 8 x"
    using that g1 ps by (auto simp: allocate_ret_sequence_page_ok Let_def map_anonymous_def mem64.st_frame)
qed

lemma trampoline_emitted:
  assumes "page_size_ok os" and "gp_fits os (virtual_global_pointer g)"
    and g1: "allocate_ret_sequence_page os lk (define_ret_sequence_info os g) = Inr g1"
  shows "setup_shadow_page_trampoline lk (g1\<lparr>trap_handler := t\<rparr>) =
    Inr (g1\<lparr>trap_handler := t, cpu := (cpu g1)\<lparr>mem := words_memory (relocated_gp (rsi g1))
      (trampoline_words (sym_asm_syscall_hook lk)) (mem (cpu g1))\<rparr>\<rparr>)"
  using allowed_inner [OF allocated_range(1) [OF assms], of 56 80]
    setup_shadow_page_trampoline_ok [of "g1\<lparr>trap_handler := t\<rparr>" lk] by simp

lemma install_eq:
  assumes "page_size_ok os" and "gp_fits os (virtual_global_pointer g)"
  shows "install os lk g =
    (if os_sigaction os = - 1 then Inl (Exit 1)
     else rbind (allocate_ret_sequence_page os lk (define_ret_sequence_info os g)) (\<lambda>g1.
       setup_return os (g1\<lparr>trap_handler := True, cpu := (cpu g1)\<lparr>mem := words_memory (relocated_gp (rsi g1))
         (trampoline_words (sym_asm_syscall_hook lk)) (mem (cpu g1))\<rparr>\<rparr>)))"
  by (cases "allocate_ret_sequence_page os lk (define_ret_sequence_info os g)")
     (simp_all add: install_def init_trap_handler_def allocate_trap trampoline_emitted [OF assms])

lemma install_result:
  assumes ok: "page_size_ok os" "mmap_ok os" and fits: "gp_fits os (virtual_global_pointer g)"
  shows "kernel_grants os (virtual_global_pointer g) \<Longrightarrow> \<exists>g'. install os lk g = Inr g'"
    and "\<not> kernel_grants os (virtual_global_pointer g) \<Longrightarrow> install os lk g = Inl (Exit 1)"
proof -
  let ?page = "os_mmap os (os_page_size os)"
  have "install os lk g = Inl (Exit 1) \<and> \<not> kernel_grants os (virtual_global_pointer g) \<or>
      (\<exists>g'. install os lk g = Inr g') \<and> kernel_grants os (virtual_global_pointer g)"
  proof (cases "?page = MAP_FAILED")
    case True
    moreover have "protection_size (rsi (define_ret_sequence_info os g)) = os_page_size os"
      using protection_size_cases [OF ok(1), of g] fits by (simp add: gp_fits_def Let_def)
    ultimately show ?thesis
      by (simp add: install_eq [OF ok(1) fits] allocate_ret_sequence_page_def kernel_grants_def)
  next
    case False
    moreover have "protection_size (rsi (define_ret_sequence_info os g)) = os_page_size os"
      using protection_size_cases [OF ok(1), of g] fits by (simp add: gp_fits_def Let_def)
    ultimately obtain g1 where g1: "allocate_ret_sequence_page os lk (define_ret_sequence_info os g) = Inr g1"
      by (simp add: allocate_ret_sequence_page_def Let_def)
    note page = install_page [OF ok fits g1]
    have "allowed (perm (cpu g1)) PROT_WRITE (start_addr (rsi g1)) 56"
      using allowed_inner [OF allocated_range(1) [OF ok(1) fits g1], of 0 56] page(2) by simp
    then show ?thesis
      using page(1,3,4,7) g1 False by (simp add: install_eq [OF ok(1) fits] setup_return_ok Let_def kernel_grants_def)
  qed
  then show "kernel_grants os (virtual_global_pointer g) \<Longrightarrow> \<exists>g'. install os lk g = Inr g'"
    and "\<not> kernel_grants os (virtual_global_pointer g) \<Longrightarrow> install os lk g = Inl (Exit 1)" by blast+
qed

lemma install_shape:
  assumes ok: "page_size_ok os" "mmap_ok os" and fits: "gp_fits os (virtual_global_pointer g)"
    and ins: "install os lk g = Inr g'"
  obtains g1 where "allocate_ret_sequence_page os lk (define_ret_sequence_info os g) = Inr g1"
    "rsi g' = rsi g1" "trap_handler g'" "page_size g' = os_page_size os" "gregs (cpu g') = gregs (cpu g)"
    "hook_fn g' = hook_fn g" "virtual_global_pointer g' = virtual_global_pointer g"
    "mem (cpu g') = words_memory (relocated_gp (rsi g1) - 56) return_words
       (words_memory (relocated_gp (rsi g1)) (trampoline_words (sym_asm_syscall_hook lk)) (mem (cpu g1)))"
    "perm (cpu g') = set_prot (os_mmap os (os_page_size os)) (unat (os_page_size os)) PROT_EXEC (perm (cpu g1))"
proof -
  obtain g1 where g1: "allocate_ret_sequence_page os lk (define_ret_sequence_info os g) = Inr g1"
    and seal: "setup_return os (g1\<lparr>trap_handler := True, cpu := (cpu g1)\<lparr>mem := words_memory (relocated_gp (rsi g1))
         (trampoline_words (sym_asm_syscall_hook lk)) (mem (cpu g1))\<rparr>\<rparr>) = Inr g'"
    using ins by (auto simp: install_eq [OF ok(1) fits] rbind_eq_Inr split: if_splits)
  note g' = setup_return_Inr(3) [OF seal] and page = install_page [OF ok fits g1]
  have "mem (cpu g') = words_memory (relocated_gp (rsi g1) - 56) return_words
       (words_memory (relocated_gp (rsi g1)) (trampoline_words (sym_asm_syscall_hook lk)) (mem (cpu g1)))"
    "perm (cpu g') = set_prot (os_mmap os (os_page_size os)) (unat (os_page_size os)) PROT_EXEC (perm (cpu g1))"
    using g' page by (simp_all add: protect_pages_def)
  moreover have "gregs (cpu g') = gregs (cpu g)" "hook_fn g' = hook_fn g" "page_size g' = os_page_size os"
    "virtual_global_pointer g' = virtual_global_pointer g"
    using g' g1 page(3)
    by (auto simp: allocate_ret_sequence_page_ok Let_def map_anonymous_def define_ret_sequence_info_def)
  ultimately show thesis using that [OF g1] g' by simp
qed

text \<open>A page does not wrap around the end of the address space.\<close>

lemma page_no_wrap:
  assumes "page_size_ok os" and "p mod os_page_size os = 0"
  shows "0 < unat (os_page_size os)" and "unat p + unat (os_page_size os) \<le> 2 ^ 64"
proof -
  obtain k where k: "k < 32" "os_page_size os = 2 ^ k" "unat (os_page_size os) = 2 ^ k"
    using assms(1) by (rule page_size_okE)
  then show "0 < unat (os_page_size os)" by simp
  have "unat p mod 2 ^ k = 0" using assms(2) k(2) unat_mod_pow2 [of p k] by simp
  then obtain q where q: "unat p = 2 ^ k * q" by (metis mod_0_imp_dvd dvdE)
  have pow: "(2 :: nat) ^ 64 = 2 ^ k * 2 ^ (64 - k)" using k(1) by (simp flip: power_add)
  then have "q < 2 ^ (64 - k)" using q unat_lt_64 [of p] by (metis nat_mult_less_cancel_disj)
  then have "2 ^ k * (q + 1) \<le> (2 :: nat) ^ 64" unfolding pow by (intro mult_le_mono2) simp
  then show "unat p + unat (os_page_size os) \<le> 2 ^ 64" using q k(3) by simp
qed

text \<open>Two code sequences, one after the other.\<close>

lemma code_at_two:
  assumes "length xs = 14" and "length ys = 20"
  shows "code_at (words_memory (a - 56) xs (words_memory a ys m)) (a - 56) (xs @ ys)"
proof -
  let ?m1 = "words_memory a ys m" and ?m2 = "words_memory (a - 56) xs (words_memory a ys m)"
  have "separate (a - 56) 56 (a - 56 + of_nat 56) 80" by (intro separate_next) simp_all
  then have "\<not> in_range (a - 56) 56 x" if "in_range a 80 x" for x
    using that separate_disjoint by fastforce
  then have "?m2 x = ?m1 x" if "in_range a 80 x" for x
    using that assms by (simp add: words_memory_frame)
  then have "code_at ?m2 a ys = code_at ?m1 a ys"
    using assms by (intro code_at_cong) simp_all
  then show ?thesis using assms by (simp add: code_at_append code_at_words_memory)
qed

lemma install_ok:
  assumes ok: "page_size_ok os" "mmap_ok os" and fits: "gp_fits os (virtual_global_pointer g)"
    and var: "var_apart os lk" and ins: "install os lk g = Inr g'"
  shows "installed lk g'"
    and "relocated_gp (rsi g') = os_mmap os (os_page_size os) + virtual_global_pointer g mod os_page_size os"
    and "shadow_page g' x \<longleftrightarrow> in_range (os_mmap os (os_page_size os)) (unat (os_page_size os)) x"
    and "\<not> shadow_page g' x \<Longrightarrow> \<not> in_range (sym_relocated_global_pointer lk) 8 x \<Longrightarrow> mem (cpu g') x = mem (cpu g) x"
proof -
  obtain g1 where g1: "allocate_ret_sequence_page os lk (define_ret_sequence_info os g) = Inr g1"
    and rsi: "rsi g' = rsi g1" and vgp: "virtual_global_pointer g' = virtual_global_pointer g"
    and mem: "mem (cpu g') = words_memory (relocated_gp (rsi g1) - 56) return_words
       (words_memory (relocated_gp (rsi g1)) (trampoline_words (sym_asm_syscall_hook lk)) (mem (cpu g1)))"
    and perm: "perm (cpu g') = set_prot (os_mmap os (os_page_size os)) (unat (os_page_size os)) PROT_EXEC (perm (cpu g1))"
    using install_shape [OF ok fits ins] by metis
  note page = install_page [OF ok fits g1] and range = allocated_range [OF ok(1) fits g1]
  let ?rgp = "relocated_gp (rsi g1)"
  have ps: "protection_size (rsi g') = os_page_size os"
    using ret_sequence_inside(1) [OF ok(1) _ _ g1] fits rsi by (simp add: gp_fits_def)
  then show shadow: "shadow_page g' x \<longleftrightarrow> in_range (os_mmap os (os_page_size os)) (unat (os_page_size os)) x" for x
    using page(1) rsi by (simp add: shadow_page_def)
  show "relocated_gp (rsi g') = os_mmap os (os_page_size os) + virtual_global_pointer g mod os_page_size os"
    using g1 range(3) rsi by (auto simp: allocate_ret_sequence_page_ok Let_def)
  have inner: "in_range (?rgp - 56) 136 x" if "in_range ?rgp 80 x \<or> in_range (?rgp - 56) 56 x" for x
    using that in_range_inner [of 56 80 136 "?rgp - 56" x] by (auto simp: in_range_def)
  have out: "mem (cpu g') x = mem (cpu g1) x" if "\<not> shadow_page g' x" for x
  proof -
    have "\<not> in_range ?rgp 80 x" "\<not> in_range (?rgp - 56) 56 x" using that range(2,3) inner shadow by auto
    then show ?thesis by (simp add: mem words_memory_frame length_words)
  qed
  show "mem (cpu g') x = mem (cpu g) x" if "\<not> shadow_page g' x" "\<not> in_range (sym_relocated_global_pointer lk) 8 x"
    using out [OF that(1)] range(4) [of x] that shadow by simp
  have "load64 (mem (cpu g')) (sym_relocated_global_pointer lk) = load64 (mem (cpu g1)) (sym_relocated_global_pointer lk)"
    using out var shadow by (intro mem64.ld_cong) (auto simp: var_apart_def)
  moreover have "in_xom g' x \<longleftrightarrow> shadow_page g' x" for x
    unfolding shadow_page_def
    by (rule in_xom_range) (use page_no_wrap [OF ok(1)] page(1,4) rsi ps in simp_all)
  then have "shadows g'"
    using backup_of_gp [OF ok(1) g1 rsi] fits by (simp add: shadows_def vgp gp_fits_def)
  moreover have "code_at (mem (cpu g')) (?rgp - 56) (return_words @ trampoline_words (sym_asm_syscall_hook lk))"
    unfolding mem by (rule code_at_two) (simp_all add: length_words)
  ultimately show "installed lk g'"
    using page(6) range(2,3) by (simp add: installed_def Let_def rsi shadow perm set_prot_def)
qed

section \<open>The whole set-up\<close>

text \<open>
  The circumstances in which the set-up is expected to work: the kernel grants its requests, the
  global pointer fits, \<open>/proc/self/maps\<close> lists the mappings \<open>vs\<close>, and those of the C library's code, a
  whole number of pages each, overlap neither each other nor the new page nor the variable.
\<close>

definition libc_code :: "mapping list \<Rightarrow> u64 \<Rightarrow> bool" where
  "libc_code vs x \<longleftrightarrow> (\<exists>v \<in> set (filter libc_text vs). in_mapping v x)"

definition new_page :: "os \<Rightarrow> u64 \<Rightarrow> bool" where
  "new_page os x \<longleftrightarrow> in_range (os_mmap os (os_page_size os)) (unat (os_page_size os)) x"

definition rgp_variable :: "link \<Rightarrow> u64 \<Rightarrow> bool" where
  "rgp_variable lk x \<longleftrightarrow> in_range (sym_relocated_global_pointer lk) 8 x"

definition maps_ok :: "os \<Rightarrow> capstone \<Rightarrow> link \<Rightarrow> mapping list \<Rightarrow> bool" where
  "maps_ok os cs lk vs \<longleftrightarrow>
     list_all mapping_ok vs \<and> list_all (rewritable os cs (os_page_size os)) (filter libc_text vs) \<and>
     sorted_wrt apart (filter libc_text vs) \<and>
     (\<forall>x. libc_code vs x \<longrightarrow> \<not> new_page os x \<and> \<not> rgp_variable lk x)"

definition init_ok :: "os \<Rightarrow> capstone \<Rightarrow> link \<Rightarrow> mapping list \<Rightarrow> u64 \<Rightarrow> bool" where
  "init_ok os cs lk vs v \<longleftrightarrow>
     page_size_ok os \<and> mmap_ok os \<and> kernel_grants os v \<and> gp_fits os v \<and> var_apart os lk \<and>
     disasm_ok (cs_disasm_iter cs) \<and> maps_ok os cs lk vs"

text \<open>A loader that, like any code that follows the calling convention, leaves \<open>gp\<close> and the bytes and
  protections in \<open>keep\<close> alone; and a hook library that answers with the hook \<open>hfn\<close>.\<close>

definition leaves :: "(u64 \<Rightarrow> bool) \<Rightarrow> machine \<Rightarrow> machine \<Rightarrow> bool" where
  "leaves keep c c' \<longleftrightarrow>
     rreg c' GP = rreg c GP \<and> (\<forall>x. keep x \<longrightarrow> mem c' x = mem c x \<and> perm c' x = perm c x)"

definition loader_ok :: "(u64 \<Rightarrow> bool) \<Rightarrow> loader \<Rightarrow> bool" where
  "loader_ok keep ld \<longleftrightarrow>
     (\<forall>filename c. leaves keep c (fst (ld_dlopen ld filename c))) \<and>
     (\<forall>f a b p c c' r. ld_hook_init ld f a b p c = Inr (c', r) \<longrightarrow> leaves keep c c')"

definition hook_ready :: "loader \<Rightarrow> link \<Rightarrow> u64 \<Rightarrow> bool" where
  "hook_ready ld lk hfn \<longleftrightarrow>
     (case ld_getenv ld ''LIBVPHOOK'' of
        None \<Rightarrow> hfn = 0
      | Some filename \<Rightarrow>
          (\<forall>c. let handle = snd (ld_dlopen ld filename c); f = ld_dlsym ld handle ''__hook_init'' in
             handle \<noteq> 0 \<and> f \<noteq> 0 \<and>
             (\<forall>c'. \<exists>c''. ld_hook_init ld f 0 (sym_syscall_no_intercept lk) 0 c' = Inr (c'', 0, hfn))))"

text \<open>The library's code is in place, the handler registered and \<open>gp\<close> relocated.\<close>

definition ready :: "link \<Rightarrow> lib \<Rightarrow> bool" where
  "ready lk g \<longleftrightarrow> installed lk g \<and> trap_handler g \<and> rreg (cpu g) GP = relocated_gp (rsi g)"

text \<open>A process that is set up.\<close>

definition armed :: "disasm \<Rightarrow> link \<Rightarrow> mapping list \<Rightarrow> memory \<Rightarrow> lib \<Rightarrow> bool" where
  "armed d lk vs m g \<longleftrightarrow>
     installed lk g \<and> trap_handler g \<and> rreg (cpu g) GP = relocated_gp (rsi g) \<and>
     (\<forall>a \<in> set (all_sites d m (filter libc_text vs)). load32 (mem (cpu g)) a = 0x000181e7) \<and>
     (\<forall>x. libc_code vs x \<longrightarrow> (\<forall>a \<in> set (all_sites d m (filter libc_text vs)). \<not> in_range a 4 x) \<longrightarrow> mem (cpu g) x = m x) \<and>
     (\<forall>v \<in> set (filter libc_text vs). \<forall>x. in_mapping v x \<longrightarrow> perm (cpu g) x = prot_of v)"

lemma leaves_trans: "leaves keep a b \<Longrightarrow> leaves keep b c \<Longrightarrow> leaves keep a c"
  by (simp add: leaves_def)

lemma load_hook_lib_ready:
  assumes "hook_ready ld lk hfn" and "loader_ok keep ld" and "hook_fn g = 0"
  shows "\<exists>c. load_hook_lib ld lk g = Inr (g\<lparr>cpu := c, hook_fn := hfn\<rparr>) \<and> leaves keep (cpu g) c"
proof (cases "ld_getenv ld ''LIBVPHOOK''")
  case None
  then show ?thesis
    using assms(1,3) by (intro exI [of _ "cpu g"]) (simp add: load_hook_lib_def hook_ready_def leaves_def)
next
  case (Some filename)
  obtain c h where o1: "ld_dlopen ld filename (cpu g) = (c, h)" by fastforce
  let ?f = "ld_dlsym ld h ''__hook_init''"
  have "\<forall>c. let handle = snd (ld_dlopen ld filename c); f = ld_dlsym ld handle ''__hook_init'' in
      handle \<noteq> 0 \<and> f \<noteq> 0 \<and> (\<forall>c'. \<exists>c''. ld_hook_init ld f 0 (sym_syscall_no_intercept lk) 0 c' = Inr (c'', 0, hfn))"
    using assms(1) Some by (simp add: hook_ready_def)
  from spec [OF this, of "cpu g"] have ready: "h \<noteq> 0" "?f \<noteq> 0"
      "\<forall>c'. \<exists>c''. ld_hook_init ld ?f 0 (sym_syscall_no_intercept lk) 0 c' = Inr (c'', 0, hfn)"
    using o1 by (simp_all add: Let_def)
  from spec [OF ready(3), of c] obtain c' where o2: "ld_hook_init ld ?f 0 (sym_syscall_no_intercept lk) 0 c = Inr (c', 0, hfn)" ..
  have "leaves keep (cpu g) c" "leaves keep c c'"
    using assms(2) o1 o2 unfolding loader_ok_def by (metis fst_conv, blast)
  then have "leaves keep (cpu g) c'" by (rule leaves_trans)
  moreover have "load_hook_lib ld lk g = Inr (g\<lparr>cpu := c', hook_fn := hfn\<rparr>)"
    using Some o1 o2 ready(1,2) by (simp add: load_hook_lib_def Let_def)
  ultimately show ?thesis by blast
qed

lemma all_sites_cong:
  assumes "disasm_ok d" and "\<And>x. libc_code vs x \<Longrightarrow> m x = m' x"
  shows "all_sites d m (filter libc_text vs) = all_sites d m' (filter libc_text vs)"
proof -
  have "mapping_sites d m v = mapping_sites d m' v" if "v \<in> set (filter libc_text vs)" for v
    by (rule mapping_sites_cong [OF assms(1)], rule assms(2)) (use that in \<open>auto simp: libc_code_def\<close>)
  then have "map (mapping_sites d m) (filter libc_text vs) = map (mapping_sites d m') (filter libc_text vs)"
    by (intro map_cong) auto
  then show ?thesis by (simp only: all_sites_def)
qed

lemma site_in_libc:
  assumes "disasm_ok d" and "a \<in> set (all_sites d m (filter libc_text vs))" and "in_range a 4 x"
  shows "libc_code vs x"
proof -
  obtain v where v: "v \<in> set (filter libc_text vs)" "a \<in> set (mapping_sites d m v)"
    using assms(2) by (auto simp: all_sites_def)
  then have "in_mapping v x"
    using ecall_sites_range [OF assms(1), of "unat (vm_size v)" a m "vm_start v" x] assms(3) unat_lt_64
    by (simp add: mapping_sites_def in_mapping_def)
  with v show ?thesis by (auto simp: libc_code_def)
qed

text \<open>Being set up survives code that leaves \<open>gp\<close>, the library's code, its variable and libc's code alone.\<close>

lemma armed_leaves:
  assumes "armed d lk vs m g" and ok: "disasm_ok d" and "rsi g' = rsi g" and "trap_handler g' = trap_handler g"
    and "virtual_global_pointer g' = virtual_global_pointer g" and leaves: "leaves keep (cpu g) (cpu g')"
    and keep: "\<And>x. shadow_page g x \<or> rgp_variable lk x \<or> libc_code vs x \<Longrightarrow> keep x"
  shows "armed d lk vs m g'"
proof -
  have same: "mem (cpu g') x = mem (cpu g) x" "perm (cpu g') x = perm (cpu g) x"
    if "shadow_page g x \<or> rgp_variable lk x \<or> libc_code vs x" for x
    using keep [OF that] leaves by (simp_all add: leaves_def)
  have "installed lk g'"
  proof (rule installed_frame)
    show "installed lk g" "rsi g' = rsi g" "virtual_global_pointer g' = virtual_global_pointer g"
      using assms(1,3,5) by (simp_all add: armed_def)
  qed (use same in \<open>simp_all add: rgp_variable_def\<close>)
  moreover have "load32 (mem (cpu g')) a = 0x000181e7"
    if a: "a \<in> set (all_sites d m (filter libc_text vs))" for a
  proof -
    have "load32 (mem (cpu g')) a = load32 (mem (cpu g)) a"
      by (rule mem32.ld_cong) (simp add: same(1) site_in_libc [OF ok a])
    with a assms(1) show ?thesis by (simp add: armed_def)
  qed
  moreover have "mem (cpu g') x = m x"
    if "libc_code vs x" "\<forall>a \<in> set (all_sites d m (filter libc_text vs)). \<not> in_range a 4 x" for x
    using that same(1) [of x] assms(1) by (simp add: armed_def)
  moreover have "perm (cpu g') x = prot_of v" if v: "v \<in> set (filter libc_text vs)" "in_mapping v x" for v x
  proof -
    have "libc_code vs x" using v by (auto simp: libc_code_def)
    with v assms(1) same(2) [of x] show ?thesis by (simp add: armed_def)
  qed
  moreover have "rreg (cpu g') GP = relocated_gp (rsi g')" "trap_handler g'"
    using assms(1,3,4) leaves by (simp_all add: armed_def leaves_def)
  ultimately show ?thesis unfolding armed_def by blast
qed

text \<open>The rewriting, started with the code in place and \<open>gp\<close> relocated, arms the process.\<close>

lemma rewrite_code_arms:
  assumes maps: "maps_ok os cs lk vs" and d: "disasm_ok (cs_disasm_iter cs)"
    and inst: "installed lk g" "trap_handler g" "page_size g = os_page_size os" "rreg (cpu g) GP = relocated_gp (rsi g)"
    and page: "\<And>x. shadow_page g x \<Longrightarrow> new_page os x"
  shows "\<exists>s. rewrite_code os cs (Some (concat (map maps_line vs))) g = Some (Inr (g\<lparr>cpu := s\<rparr>)) \<and>
    armed (cs_disasm_iter cs) lk vs (mem (cpu g)) (g\<lparr>cpu := s\<rparr>)"
proof -
  let ?d = "cs_disasm_iter cs" and ?libc = "filter libc_text vs"
  have ok: "list_all mapping_ok vs" "list_all (rewritable os cs (os_page_size os)) ?libc" "sorted_wrt apart ?libc"
    and off: "\<And>x. new_page os x \<or> rgp_variable lk x \<Longrightarrow> \<not> libc_code vs x"
    using maps unfolding maps_ok_def by blast+
  obtain s where s: "rewrite_mappings os cs (os_page_size os) ?libc (cpu g) = Some (Inr s)"
      "mem s = patched (all_sites ?d (mem (cpu g)) ?libc) (mem (cpu g))" "gregs s = gregs (cpu g)"
      "\<forall>x. (\<forall>v \<in> set ?libc. \<not> in_mapping v x) \<longrightarrow> perm s x = perm (cpu g) x"
      "\<forall>v \<in> set ?libc. \<forall>x. in_mapping v x \<longrightarrow> perm s x = prot_of v"
    using rewrite_mappings_ok [OF ok(2,3) d, of "cpu g"] by blast
  have frame: "mem s x = mem (cpu g) x \<and> perm s x = perm (cpu g) x" if "\<not> libc_code vs x" for x
    using that s(2,4) patched_all_frame [OF d, of ?libc x] unfolding libc_code_def by metis
  have "installed lk (g\<lparr>cpu := s\<rparr>)"
  proof (rule installed_frame [OF inst(1)])
    show "mem (cpu (g\<lparr>cpu := s\<rparr>)) x = mem (cpu g) x \<and> perm (cpu (g\<lparr>cpu := s\<rparr>)) x = perm (cpu g) x"
      if "shadow_page g x" for x
      using frame off page [OF that] by simp
    show "mem (cpu (g\<lparr>cpu := s\<rparr>)) x = mem (cpu g) x" if "in_range (sym_relocated_global_pointer lk) 8 x" for x
      using frame off that by (simp add: rgp_variable_def)
  qed simp_all
  moreover have "load32 (mem s) a = 0x000181e7" if "a \<in> set (all_sites ?d (mem (cpu g)) ?libc)" for a
    using patched_all_site [OF d ok(3) that] s(2) by simp
  moreover have "mem s x = mem (cpu g) x" if "\<forall>a \<in> set (all_sites ?d (mem (cpu g)) ?libc). \<not> in_range a 4 x" for x
    using that unfolding s(2) by (intro patched_frame) blast
  moreover have "rreg s GP = relocated_gp (rsi g)" using s(3) inst(4) by (simp add: rreg_def)
  ultimately have "armed ?d lk vs (mem (cpu g)) (g\<lparr>cpu := s\<rparr>)"
    using s(5) inst(2) unfolding armed_def by simp
  moreover have "rewrite_code os cs (Some (concat (map maps_line vs))) g = Some (Inr (g\<lparr>cpu := s\<rparr>))"
    using s(1) inst(3) by (simp add: rewrite_code_def rewrite_lines_maps [OF ok(1)])
  ultimately show ?thesis by blast
qed

lemma armed_cong:
  assumes "disasm_ok d" and "\<And>x. libc_code vs x \<Longrightarrow> m x = m' x"
  shows "armed d lk vs m g = armed d lk vs m' g"
proof -
  have "all_sites d m (filter libc_text vs) = all_sites d m' (filter libc_text vs)"
    using assms by (rule all_sites_cong)
  with assms(2) show ?thesis unfolding armed_def by simp
qed

lemma relocated_ready:
  assumes ok: "init_ok os cs lk vs (rreg (cpu g) GP)" and g1: "install os lk (save_gp g) = Inr g1"
  shows "ready lk (relocate_gp g1)" and "page_size (relocate_gp g1) = os_page_size os"
    and "shadow_page g1 x \<longleftrightarrow> new_page os x"
    and "libc_code vs x \<Longrightarrow> mem (cpu g1) x = mem (cpu g) x"
    and "hook_fn g1 = hook_fn g" and "virtual_global_pointer g1 = rreg (cpu g) GP"
    and "relocated_gp (rsi g1) = os_mmap os (os_page_size os) + rreg (cpu g) GP mod os_page_size os"
proof -
  have os: "page_size_ok os" "mmap_ok os" "gp_fits os (virtual_global_pointer (save_gp g))" "var_apart os lk"
    and maps: "maps_ok os cs lk vs"
    using ok by (simp_all add: init_ok_def save_gp_def)
  note inst = install_ok [OF os g1]
  have f: "trap_handler g1" "page_size g1 = os_page_size os" "hook_fn g1 = hook_fn (save_gp g)"
      "virtual_global_pointer g1 = virtual_global_pointer (save_gp g)"
    using install_shape [OF os(1-3) g1] by metis+
  then show "hook_fn g1 = hook_fn g" "virtual_global_pointer g1 = rreg (cpu g) GP"
    "relocated_gp (rsi g1) = os_mmap os (os_page_size os) + rreg (cpu g) GP mod os_page_size os"
    using inst(2) by (simp_all add: save_gp_def)
  have "installed lk (relocate_gp g1)"
    by (rule installed_frame [OF inst(1)]) (simp_all add: relocate_gp_def)
  then show "ready lk (relocate_gp g1)" "page_size (relocate_gp g1) = os_page_size os"
    using f(1,2) by (simp_all add: ready_def relocate_gp_def machine_simps)
  show page: "shadow_page g1 x \<longleftrightarrow> new_page os x" for x
    using inst(3) by (simp add: new_page_def)
  show "libc_code vs x \<Longrightarrow> mem (cpu g1) x = mem (cpu g) x"
    using maps inst(4) [of x] page unfolding maps_ok_def by (simp add: rgp_variable_def save_gp_def)
qed

lemma rewritten_armed:
  assumes ok: "init_ok os cs lk vs (rreg (cpu g) GP)" and g1: "install os lk (save_gp g) = Inr g1"
  shows "\<exists>s. rewrite_code os cs (Some (concat (map maps_line vs))) (relocate_gp g1) = Some (Inr ((relocate_gp g1)\<lparr>cpu := s\<rparr>)) \<and>
    armed (cs_disasm_iter cs) lk vs (mem (cpu g)) ((relocate_gp g1)\<lparr>cpu := s\<rparr>)"
proof -
  let ?d = "cs_disasm_iter cs" and ?g2 = "relocate_gp g1"
  have maps: "maps_ok os cs lk vs" and d: "disasm_ok ?d" using ok by (simp_all add: init_ok_def)
  note r = relocated_ready [OF ok g1]
  have rsi: "shadow_page ?g2 = shadow_page g1" "mem (cpu ?g2) = mem (cpu g1)"
    by (simp_all add: relocate_gp_def shadow_page_def fun_eq_iff)
  have "armed ?d lk vs (mem (cpu ?g2)) h = armed ?d lk vs (mem (cpu g)) h" for h
    using r(4) rsi(2) by (intro armed_cong [OF d]) simp
  then show ?thesis
    using rewrite_code_arms [OF maps d, of ?g2] r(1-3) rsi(1) by (simp add: ready_def)
qed

lemma vpoline_init_ok:
  assumes ok: "init_ok os cs lk vs (rreg (cpu g) GP)"
    and ld: "loader_ok (\<lambda>x. new_page os x \<or> rgp_variable lk x \<or> libc_code vs x) ld" "hook_ready ld lk hfn"
    and null: "hook_fn g = 0"
  shows "\<exists>g'. vpoline_init os cs lk ld (Some (concat (map maps_line vs))) g = Some (Inr g') \<and>
    armed (cs_disasm_iter cs) lk vs (mem (cpu g)) g' \<and> hook_fn g' = hfn \<and>
    virtual_global_pointer g' = rreg (cpu g) GP \<and> shadow_page g' = new_page os \<and>
    relocated_gp (rsi g') = os_mmap os (os_page_size os) + rreg (cpu g) GP mod os_page_size os"
proof -
  let ?d = "cs_disasm_iter cs" and ?keep = "\<lambda>x. new_page os x \<or> rgp_variable lk x \<or> libc_code vs x"
  have d: "disasm_ok ?d" using ok by (simp add: init_ok_def)
  obtain g1 where g1: "install os lk (save_gp g) = Inr g1"
    using ok install_result(1) [of os "save_gp g" lk] by (auto simp: init_ok_def save_gp_def)
  note r = relocated_ready [OF ok g1]
  obtain s where s: "rewrite_code os cs (Some (concat (map maps_line vs))) (relocate_gp g1) = Some (Inr ((relocate_gp g1)\<lparr>cpu := s\<rparr>))"
      "armed ?d lk vs (mem (cpu g)) ((relocate_gp g1)\<lparr>cpu := s\<rparr>)"
    using rewritten_armed [OF ok g1] by blast
  let ?g3 = "(relocate_gp g1)\<lparr>cpu := s\<rparr>"
  have g3: "rsi ?g3 = rsi g1" "hook_fn ?g3 = hook_fn g1" "virtual_global_pointer ?g3 = virtual_global_pointer g1"
      "shadow_page ?g3 = shadow_page g1"
    by (simp_all add: relocate_gp_def shadow_page_def fun_eq_iff)
  obtain c where c: "load_hook_lib ld lk ?g3 = Inr (?g3\<lparr>cpu := c, hook_fn := hfn\<rparr>)" "leaves ?keep s c"
    using load_hook_lib_ready [OF ld(2,1), of ?g3] g3(2) r(5) null by auto
  have "armed ?d lk vs (mem (cpu g)) (?g3\<lparr>cpu := c, hook_fn := hfn\<rparr>)"
    by (rule armed_leaves [OF s(2) d, where keep = ?keep]) (use c(2) r(3) g3(4) in auto)
  moreover have "vpoline_init os cs lk ld (Some (concat (map maps_line vs))) g = Some (Inr (?g3\<lparr>cpu := c, hook_fn := hfn\<rparr>))"
    using g1 s(1) c(1) by (simp add: vpoline_init_def)
  ultimately show ?thesis
    using r(3,6,7) g3 by (intro exI [of _ "?g3\<lparr>cpu := c, hook_fn := hfn\<rparr>"]) (simp add: shadow_page_def fun_eq_iff)
qed

section \<open>The constructor step by step\<close>

text \<open>
  The constructor once more, as the sequence of its calls: a stage per call that has returned. The
  relation makes the states between the calls visible, in which the library is only partly set up.
\<close>

datatype stage =
    Entered | Gp_saved | Layout_defined | Handler_registered | Page_allocated | Trampoline_written
  | Return_sealed | Gp_relocated | Code_rewritten | Hook_loaded | Stopped halt

fun stage_call ::
  "os \<Rightarrow> capstone \<Rightarrow> link \<Rightarrow> loader \<Rightarrow> string option \<Rightarrow> stage \<Rightarrow> lib \<Rightarrow> (stage \<times> lib result) option" where
  "stage_call os cs lk ld maps Entered g = Some (Gp_saved, Inr (save_gp g))"
| "stage_call os cs lk ld maps Gp_saved g = Some (Layout_defined, Inr (define_ret_sequence_info os g))"
| "stage_call os cs lk ld maps Layout_defined g = Some (Handler_registered, init_trap_handler os g)"
| "stage_call os cs lk ld maps Handler_registered g = Some (Page_allocated, allocate_ret_sequence_page os lk g)"
| "stage_call os cs lk ld maps Page_allocated g = Some (Trampoline_written, setup_shadow_page_trampoline lk g)"
| "stage_call os cs lk ld maps Trampoline_written g = Some (Return_sealed, setup_return os g)"
| "stage_call os cs lk ld maps Return_sealed g = Some (Gp_relocated, Inr (relocate_gp g))"
| "stage_call os cs lk ld maps Gp_relocated g =
     map_option (\<lambda>r. (Code_rewritten, r)) (rewrite_code os cs maps g)"
| "stage_call os cs lk ld maps Code_rewritten g = Some (Hook_loaded, load_hook_lib ld lk g)"
| "stage_call os cs lk ld maps Hook_loaded g = None"
| "stage_call os cs lk ld maps (Stopped h) g = None"

inductive init_step ::
  "os \<Rightarrow> capstone \<Rightarrow> link \<Rightarrow> loader \<Rightarrow> string option \<Rightarrow> stage \<times> lib \<Rightarrow> stage \<times> lib \<Rightarrow> bool"
  for os cs lk ld maps where
  returns: "stage_call os cs lk ld maps st g = Some (st', Inr g') \<Longrightarrow> init_step os cs lk ld maps (st, g) (st', g')"
| stops: "stage_call os cs lk ld maps st g = Some (st', Inl h) \<Longrightarrow> init_step os cs lk ld maps (st, g) (Stopped h, g)"

inductive_cases init_stepE: "init_step os cs lk ld maps (st, g) p"

text \<open>What has happened when a stage is reached.\<close>

fun stage_state ::
  "os \<Rightarrow> capstone \<Rightarrow> link \<Rightarrow> loader \<Rightarrow> string option \<Rightarrow> lib \<Rightarrow> stage \<times> lib \<Rightarrow> bool" where
  "stage_state os cs lk ld maps g0 (Entered, g) \<longleftrightarrow> g = g0"
| "stage_state os cs lk ld maps g0 (Gp_saved, g) \<longleftrightarrow> g = save_gp g0"
| "stage_state os cs lk ld maps g0 (Layout_defined, g) \<longleftrightarrow> g = define_ret_sequence_info os (save_gp g0)"
| "stage_state os cs lk ld maps g0 (Handler_registered, g) \<longleftrightarrow>
     init_trap_handler os (define_ret_sequence_info os (save_gp g0)) = Inr g"
| "stage_state os cs lk ld maps g0 (Page_allocated, g) \<longleftrightarrow>
     rbind (init_trap_handler os (define_ret_sequence_info os (save_gp g0))) (allocate_ret_sequence_page os lk) = Inr g"
| "stage_state os cs lk ld maps g0 (Trampoline_written, g) \<longleftrightarrow>
     rbind (init_trap_handler os (define_ret_sequence_info os (save_gp g0))) (\<lambda>g.
     rbind (allocate_ret_sequence_page os lk g) (setup_shadow_page_trampoline lk)) = Inr g"
| "stage_state os cs lk ld maps g0 (Return_sealed, g) \<longleftrightarrow> install os lk (save_gp g0) = Inr g"
| "stage_state os cs lk ld maps g0 (Gp_relocated, g) \<longleftrightarrow>
     (\<exists>g1. install os lk (save_gp g0) = Inr g1 \<and> g = relocate_gp g1)"
| "stage_state os cs lk ld maps g0 (Code_rewritten, g) \<longleftrightarrow>
     (\<exists>g1. install os lk (save_gp g0) = Inr g1 \<and> rewrite_code os cs maps (relocate_gp g1) = Some (Inr g))"
| "stage_state os cs lk ld maps g0 (Hook_loaded, g) \<longleftrightarrow> vpoline_init os cs lk ld maps g0 = Some (Inr g)"
| "stage_state os cs lk ld maps g0 (Stopped h, g) \<longleftrightarrow> vpoline_init os cs lk ld maps g0 = Some (Inl h)"

text \<open>The stages left.\<close>

fun stage_rank :: "stage \<Rightarrow> nat" where
  "stage_rank Entered = 9"
| "stage_rank Gp_saved = 8"
| "stage_rank Layout_defined = 7"
| "stage_rank Handler_registered = 6"
| "stage_rank Page_allocated = 5"
| "stage_rank Trampoline_written = 4"
| "stage_rank Return_sealed = 3"
| "stage_rank Gp_relocated = 2"
| "stage_rank Code_rewritten = 1"
| "stage_rank Hook_loaded = 0"
| "stage_rank (Stopped h) = 0"

lemma stage_call_rank: "stage_call os cs lk ld maps st g = Some (st', r) \<Longrightarrow> stage_rank st' < stage_rank st \<and> 0 < stage_rank st"
  by (cases st) auto

interpretation init: terminating_system "init_step os cs lk ld maps" "stage_state os cs lk ld maps g0"
  "\<lambda>(st, g). stage_rank st" "\<lambda>(st, g). stage_call os cs lk ld maps st g = None"
  for os cs lk ld maps g0
proof
  fix p q assume "stage_state os cs lk ld maps g0 p" "init_step os cs lk ld maps p q"
  then show "stage_state os cs lk ld maps g0 q"
    by (cases p; cases "fst p")
       (auto elim!: init_stepE simp: vpoline_init_def install_def rbind_eq_Inr rbind_def split: sum.splits)
next
  fix p q assume "init_step os cs lk ld maps p q"
  then show "(case q of (st, g) \<Rightarrow> stage_rank st) < (case p of (st, g) \<Rightarrow> stage_rank st)"
    by (cases rule: init_step.cases) (auto dest: stage_call_rank)
next
  fix p assume "\<not> (case p of (st, g) \<Rightarrow> stage_call os cs lk ld maps st g = None)"
  then obtain st g st' r where "p = (st, g)" "stage_call os cs lk ld maps st g = Some (st', r)"
    by (cases p) auto
  then show "\<exists>q. init_step os cs lk ld maps p q" by (cases r) (auto intro: init_step.intros)
qed

text \<open>The layout of the return-sequence page along the stages, for a program that starts with \<open>gp = v\<close>.\<close>

fun laid_out :: "os \<Rightarrow> u64 \<Rightarrow> stage \<times> lib \<Rightarrow> bool" where
  "laid_out os v (Entered, g) \<longleftrightarrow> rreg (cpu g) GP = v"
| "laid_out os v (Gp_saved, g) \<longleftrightarrow> virtual_global_pointer g = v"
| "laid_out os v (Layout_defined, g) \<longleftrightarrow>
     (\<exists>h. virtual_global_pointer h = v \<and> g = define_ret_sequence_info os h)"
| "laid_out os v (Handler_registered, g) \<longleftrightarrow>
     (\<exists>h. virtual_global_pointer h = v \<and> g = (define_ret_sequence_info os h)\<lparr>trap_handler := True\<rparr>)"
| "laid_out os v (Stopped h, g) \<longleftrightarrow> True"
| "laid_out os v (st, g) \<longleftrightarrow> layout_ok os v g"

text \<open>After the allocation only the machine and the hook change.\<close>

lemma stage_call_keeps:
  assumes "stage_call os cs lk ld maps st g = Some (st', Inr g')"
    and "st \<in> {Page_allocated, Trampoline_written, Return_sealed, Gp_relocated, Code_rewritten}"
  shows "rsi g' = rsi g \<and> page_size g' = page_size g \<and> virtual_global_pointer g' = virtual_global_pointer g"
proof (cases st)
  case Page_allocated
  with assms(1) show ?thesis by (auto simp: setup_shadow_page_trampoline_def rbind_eq_Inr)
next
  case Trampoline_written
  with assms(1) show ?thesis by (auto simp: setup_return_def Let_def rbind_eq_Inr split: if_splits)
next
  case Return_sealed
  with assms(1) show ?thesis by (auto simp: relocate_gp_def)
next
  case Gp_relocated
  with assms(1) show ?thesis by (auto simp: rewrite_code_def rbind_eq_Inr split: option.splits)
next
  case Code_rewritten
  with assms(1) show ?thesis
    by (auto simp: load_hook_lib_def Let_def rbind_eq_Inr split: option.splits prod.splits if_splits)
qed (use assms(2) in auto)

lemma stage_call_layout:
  assumes "page_size_ok os" and "mmap_ok os" and "laid_out os v (st, g)"
    and "stage_call os cs lk ld maps st g = Some (st', Inr g')"
  shows "laid_out os v (st', g')"
proof (cases st)
  case Handler_registered
  with assms(3) obtain h where "virtual_global_pointer h = v" "g = (define_ret_sequence_info os h)\<lparr>trap_handler := True\<rparr>" by auto
  then show ?thesis
    using assms(4) Handler_registered allocate_layout_ok [OF assms(1,2), of g h v lk g'] by simp
qed (use assms(3,4) stage_call_keeps [OF assms(4)] in
      \<open>auto simp: save_gp_def init_trap_handler_def layout_ok_def split: if_splits\<close>)

interpretation layout: invariant_system "init_step os cs lk ld maps" "\<lambda>p. page_size_ok os \<and> mmap_ok os \<and> laid_out os v p"
  for os cs lk ld maps v
proof
  fix p q assume inv: "page_size_ok os \<and> mmap_ok os \<and> laid_out os v p" and "init_step os cs lk ld maps p q"
  from this(2) show "page_size_ok os \<and> mmap_ok os \<and> laid_out os v q"
  proof cases
    case (returns st g st' g')
    with inv stage_call_layout show ?thesis by blast
  qed (use inv in simp)
qed

text \<open>So the states reached are those of the function, and the last one is its result.\<close>

lemma init_reaches_result:
  "(init_step os cs lk ld maps)\<^sup>*\<^sup>* (Entered, g0) (Hook_loaded, g) \<longleftrightarrow> vpoline_init os cs lk ld maps g0 = Some (Inr g)"
  "(\<exists>g. (init_step os cs lk ld maps)\<^sup>*\<^sup>* (Entered, g0) (Stopped h, g)) \<longleftrightarrow> vpoline_init os cs lk ld maps g0 = Some (Inl h)"
proof -
  let ?r = "vpoline_init os cs lk ld maps g0"
  obtain st g' where q: "(init_step os cs lk ld maps)\<^sup>*\<^sup>* (Entered, g0) (st, g')"
      "stage_state os cs lk ld maps g0 (st, g')" "stage_call os cs lk ld maps st g' = None"
    using init.reaches_final [of os cs lk ld maps g0 "(Entered, g0)"] by auto
  then have final: "?r = None \<or> st = Hook_loaded \<and> ?r = Some (Inr g') \<or> (\<exists>h. st = Stopped h \<and> ?r = Some (Inl h))"
    by (cases st) (auto simp: vpoline_init_def)
  have sound: "stage_state os cs lk ld maps g0 p" if "(init_step os cs lk ld maps)\<^sup>*\<^sup>* (Entered, g0) p" for p
    using init.reaches_inv [OF that] by simp
  show "(init_step os cs lk ld maps)\<^sup>*\<^sup>* (Entered, g0) (Hook_loaded, g) \<longleftrightarrow> ?r = Some (Inr g)"
  proof
    show "?r = Some (Inr g)" if "(init_step os cs lk ld maps)\<^sup>*\<^sup>* (Entered, g0) (Hook_loaded, g)"
      using sound [OF that] by simp
    show "(init_step os cs lk ld maps)\<^sup>*\<^sup>* (Entered, g0) (Hook_loaded, g)" if "?r = Some (Inr g)"
      using final q(1) that by auto
  qed
  show "(\<exists>g. (init_step os cs lk ld maps)\<^sup>*\<^sup>* (Entered, g0) (Stopped h, g)) \<longleftrightarrow> ?r = Some (Inl h)"
  proof
    show "?r = Some (Inl h)" if "\<exists>g. (init_step os cs lk ld maps)\<^sup>*\<^sup>* (Entered, g0) (Stopped h, g)"
      using that by (auto dest: sound)
    show "\<exists>g. (init_step os cs lk ld maps)\<^sup>*\<^sup>* (Entered, g0) (Stopped h, g)" if "?r = Some (Inl h)"
      using final q(1) that by auto
  qed
qed

lemma ready_or_untouched:
  assumes ok: "init_ok os cs lk vs (rreg (cpu g0) GP)"
    and ld: "loader_ok (\<lambda>x. new_page os x \<or> rgp_variable lk x \<or> libc_code vs x) ld" "hook_ready ld lk hfn"
    and null: "hook_fn g0 = 0"
    and st: "stage_state os cs lk ld (Some (concat (map maps_line vs))) g0 (st, g)"
  shows "ready lk g \<or> (\<forall>x. libc_code vs x \<longrightarrow> mem (cpu g) x = mem (cpu g0) x)"
proof -
  have os: "page_size_ok os" "gp_fits os (virtual_global_pointer (save_gp g0))"
    and off: "\<And>x. libc_code vs x \<Longrightarrow> \<not> new_page os x \<and> \<not> rgp_variable lk x"
    using ok by (simp_all add: init_ok_def save_gp_def maps_ok_def)
  have armed: "ready lk h" if "armed d lk vs m h" for d m h using that by (simp add: armed_def ready_def)
  have alloc: "mem (cpu g1) x = mem (cpu g0) x \<and> words_memory (relocated_gp (rsi g1)) (trampoline_words w) (mem (cpu g1)) x = mem (cpu g0) x"
    if "allocate_ret_sequence_page os lk (define_ret_sequence_info os (save_gp g0)) = Inr g1" "libc_code vs x" for g1 x w
  proof -
    note a = allocated_range [OF os that(1)]
    have "mem (cpu g1) x = mem (cpu g0) x"
      using a(4) [of x] off [OF that(2)] by (simp add: new_page_def rgp_variable_def save_gp_def)
    moreover have "\<not> in_range (relocated_gp (rsi g1)) 80 x"
      using a(2,3) off [OF that(2)] in_range_inner [of 56 80 136 "relocated_gp (rsi g1) - 56" x] by (auto simp: new_page_def)
    ultimately show ?thesis by (simp add: words_memory_frame length_words)
  qed
  from st show ?thesis
  proof (cases st)
    case Page_allocated
    with st alloc show ?thesis
      by (auto simp: init_trap_handler_def allocate_trap rbind_eq_Inr split: if_splits)
  next
    case Trampoline_written
    with st alloc show ?thesis
      by (auto simp: init_trap_handler_def allocate_trap rbind_eq_Inr trampoline_emitted [OF os] split: if_splits)
  next
    case Return_sealed
    with st relocated_ready(4) [OF ok] show ?thesis by auto
  next
    case Gp_relocated
    with st relocated_ready(1) [OF ok] show ?thesis by auto
  next
    case Code_rewritten
    with st rewritten_armed [OF ok] armed show ?thesis by fastforce
  next
    case Hook_loaded
    with st vpoline_init_ok [OF ok ld null] armed show ?thesis by auto
  next
    case (Stopped h)
    with st vpoline_init_ok [OF ok ld null] show ?thesis by auto
  qed (auto simp: save_gp_def init_trap_handler_def define_ret_sequence_info_sel split: if_splits)
qed

section \<open>Properties\<close>

text \<open>C4: when the kernel grants its requests and the hook library initialises, the constructor succeeds.
  Afterwards both code sequences stand around the relocated global pointer in execute-only memory,
  \<open>gp\<close> holds that pointer, which has the page offset of the original one, the fault handler is
  registered, every \<open>ecall\<close> of the C library is \<open>jalr gp, gp, 0\<close> and no other byte of its code has
  changed, the protections of its mappings are what they were, and \<open>hook_fn\<close> is the hook the library
  gave.\<close>

theorem vpoline_init_arms:
  assumes "init_ok os cs lk vs (rreg (cpu g) GP)"
    and "loader_ok (\<lambda>x. new_page os x \<or> rgp_variable lk x \<or> libc_code vs x) ld" and "hook_ready ld lk hfn"
    and "hook_fn g = 0"
  shows "\<exists>g'. vpoline_init os cs lk ld (Some (concat (map maps_line vs))) g = Some (Inr g') \<and>
    armed (cs_disasm_iter cs) lk vs (mem (cpu g)) g' \<and> hook_fn g' = hfn \<and>
    virtual_global_pointer g' = rreg (cpu g) GP \<and>
    relocated_gp (rsi g') mod os_page_size os = rreg (cpu g) GP mod os_page_size os"
proof -
  obtain k where k: "k < 32" "os_page_size os = 2 ^ k"
    using assms(1) page_size_okE unfolding init_ok_def by metis
  have "os_mmap os (os_page_size os) mod os_page_size os = 0"
    using assms(1) by (simp add: init_ok_def kernel_grants_def mmap_ok_def)
  then have "(os_mmap os (os_page_size os) + rreg (cpu g) GP mod os_page_size os) mod os_page_size os =
      rreg (cpu g) GP mod os_page_size os"
    using page_plus_offset [of "os_mmap os (os_page_size os)" k "rreg (cpu g) GP"] k by simp
  then show ?thesis using vpoline_init_ok [OF assms] by auto
qed

text \<open>C15: the order of the set-up is safe. At every point the constructor passes, either no byte of the C
  library's code has been changed yet, or the code the patched instructions jump to is in place, the
  fault handler is registered and \<open>gp\<close> holds the relocated value; so the library's own calls into the
  C library are sound throughout.\<close>

theorem patched_only_when_ready:
  assumes "init_ok os cs lk vs (rreg (cpu g0) GP)"
    and "loader_ok (\<lambda>x. new_page os x \<or> rgp_variable lk x \<or> libc_code vs x) ld" and "hook_ready ld lk hfn"
    and "hook_fn g0 = 0"
    and "(init_step os cs lk ld (Some (concat (map maps_line vs))))\<^sup>*\<^sup>* (Entered, g0) (st, g)"
  shows "ready lk g \<or> (\<forall>x. libc_code vs x \<longrightarrow> mem (cpu g) x = mem (cpu g0) x)"
  using init.reaches_inv [OF assms(5)] by (intro ready_or_untouched [OF assms(1-4)]) simp

text \<open>C16: the structure \<open>rsi\<close> is well-formed. From the moment its page is allocated, in every state of the
  constructor up to the last, it describes a page-aligned mapping of one or two pages, a relocated global
  pointer at the offset the original one has in its page, a return sequence in the 56 bytes before it,
  and the pages of the 56 bytes before the original one.\<close>

theorem layout_well_formed:
  assumes "page_size_ok os" and "mmap_ok os" and "(init_step os cs lk ld maps)\<^sup>*\<^sup>* (Entered, g0) (st, g)"
    and "st \<in> {Page_allocated, Trampoline_written, Return_sealed, Gp_relocated, Code_rewritten, Hook_loaded}"
  shows "layout_ok os (rreg (cpu g0) GP) g"
  using layout.reaches_inv [OF assms(3), of "rreg (cpu g0) GP"] assms(1,2,4) by auto



text \<open>C29: the wrapper of \<open>__libc_start_main\<close> gives \<open>gp\<close> the relocated value again, whatever the start-up
  code of the executable left in it, and changes nothing else before it goes on to the real function:
  an armed process in which only \<open>gp\<close> was set anew is armed again.\<close>

theorem libc_start_main_rearms:
  assumes "armed d lk vs m g" and "ld_next ld ''__libc_start_main'' \<noteq> 0"
  shows "libc_start_main ld (g\<lparr>cpu := wreg GP v (cpu g)\<rparr>) = Inr (ld_next ld ''__libc_start_main'', g)"
proof -
  have "wreg GP (relocated_gp (rsi g)) (wreg GP v (cpu g)) = wreg GP (rreg (cpu g) GP) (cpu g)"
    using assms(1) by (simp add: armed_def wreg_wreg)
  then have "wreg GP (relocated_gp (rsi g)) (wreg GP v (cpu g)) = cpu g"
    by (cases "cpu g") (simp add: wreg_def rreg_def fun_upd_idem)
  then show ?thesis using assms(2) by (simp add: libc_start_main_def relocate_gp_def)
qed

text \<open>C40: in a debug build a program that is not the target skips the set-up, but the wrapper of
  \<open>__libc_start_main\<close> still loads \<open>gp\<close> from the structure the set-up would have filled: the program
  starts with a null global pointer and no fault handler.\<close>

theorem debug_skip_clears_gp:
  assumes "\<not> is_target ld pr" and "relocated_gp (rsi g) = 0" and "\<not> trap_handler g"
    and "ld_next ld ''__libc_start_main'' \<noteq> 0"
  shows "\<exists>g' g''. vpoline_init_debug os cs lk ld pr maps g = Some (Inr g') \<and> rreg (cpu g') GP = rreg (cpu g) GP \<and>
    libc_start_main ld g' = Inr (ld_next ld ''__libc_start_main'', g'') \<and>
    rreg (cpu g'') GP = 0 \<and> \<not> trap_handler g''"
  using assms by (simp add: vpoline_init_debug_def save_gp_def libc_start_main_def relocate_gp_def machine_simps Let_def)

section \<open>Instances\<close>

text \<open>A process with one mapping of the C library's code and the global pointer in the middle of a page,
  and a loader that finds a hook library.\<close>

definition sample_loader :: loader where
  "sample_loader = \<lparr>ld_getenv = (\<lambda>v. if v = ''LIBVPHOOK'' then Some ''hook.so'' else None),
     ld_dlopen = (\<lambda>f c. (c, 0x7000)), ld_dlsym = (\<lambda>h n. 0x7100),
     ld_hook_init = (\<lambda>f a b p c. Inr (c, 0, 0x2000)), ld_next = (\<lambda>n. 0x9000)\<rparr>"

definition sample_process :: lib where
  "sample_process = (sample_lib 0)\<lparr>cpu := wreg GP 0x50800 sample_text\<rparr>"

abbreviation "sample_maps \<equiv> [sample_heap, sample_libc]"

lemma sample_process_sel:
  "rreg (cpu sample_process) GP = 0x50800" "mem (cpu sample_process) = mem sample_text" "hook_fn sample_process = 0"
  by (simp_all add: sample_process_def machine_simps sample_lib_def)

lemma sample_init_ok: "init_ok sample_os sample_capstone sample_link sample_maps 0x50800"
proof -
  have "os_page_size sample_os = page_size sample_loaded" by (simp add: sample_os_def sample_loaded_def)
  moreover have "\<not> new_page sample_os x \<and> \<not> rgp_variable sample_link x" if "in_mapping sample_libc x" for x
  proof -
    from that have "0x10000 \<le> unat x" "unat x < 0x11000"
      by (auto simp: in_mapping_def in_range_def sample_libc_def vm_size_def unat_diff_cases split: if_splits)
    then show ?thesis
      by (simp add: new_page_def rgp_variable_def in_range_def sample_os_def sample_link_def unat_diff_cases)
  qed
  ultimately have "maps_ok sample_os sample_capstone sample_link sample_maps"
    using sample_mappings_ok sample_rewritable
    by (simp add: maps_ok_def sample_libc_text libc_code_def del: filter.simps)
  moreover have "kernel_grants sample_os 0x50800" "gp_fits sample_os 0x50800"
    by (simp_all add: kernel_grants_def gp_fits_def sample_os_def MAP_FAILED_def)
  moreover have "var_apart sample_os sample_link"
    by (auto simp: var_apart_def sample_os_def sample_link_def in_range_def unat_diff_cases split: if_splits)
  ultimately show ?thesis using sample_os_ok isa_disasm_ok by (simp add: init_ok_def sample_capstone_def)
qed

lemma sample_loader_ok: "loader_ok keep sample_loader" "hook_ready sample_loader lk 0x2000"
  by (simp_all add: loader_ok_def leaves_def hook_ready_def sample_loader_def)

theorem vpoline_init_arms_witness:
  "\<exists>g'. vpoline_init sample_os sample_capstone sample_link sample_loader (Some (concat (map maps_line sample_maps))) sample_process =
       Some (Inr g') \<and> hook_fn g' = 0x2000 \<and> load32 (mem (cpu g')) 0x10000 = 0x000181e7 \<and>
     rreg (cpu g') GP mod 0x1000 = 0x800 \<and> trap_handler g'"
proof -
  from vpoline_init_arms [of sample_os sample_capstone sample_link sample_maps sample_process, OF _ sample_loader_ok]
  obtain g' where g': "vpoline_init sample_os sample_capstone sample_link sample_loader
        (Some (concat (map maps_line sample_maps))) sample_process = Some (Inr g')" "hook_fn g' = 0x2000"
      "armed (cs_disasm_iter sample_capstone) sample_link sample_maps (mem (cpu sample_process)) g'"
      "relocated_gp (rsi g') mod os_page_size sample_os = rreg (cpu sample_process) GP mod os_page_size sample_os"
    using sample_init_ok by (auto simp: sample_process_sel)
  have "0x10000 \<in> set (all_sites (cs_disasm_iter sample_capstone) (mem (cpu sample_process)) (filter libc_text sample_maps))"
    using sample_site by (simp add: sample_process_sel sample_libc_text sample_capstone_def del: filter.simps)
  then have "load32 (mem (cpu g')) 0x10000 = 0x000181e7" "rreg (cpu g') GP = relocated_gp (rsi g')" "trap_handler g'"
    using g'(3) unfolding armed_def by blast+
  moreover have "relocated_gp (rsi g') mod 0x1000 = 0x800"
    using g'(4) by (simp add: sample_process_sel) (simp add: sample_os_def)
  ultimately show ?thesis using g'(1,2) by auto
qed

theorem patched_only_when_ready_witness:
  "(init_step sample_os sample_capstone sample_link sample_loader (Some (concat (map maps_line sample_maps))))\<^sup>*\<^sup>*
     (Entered, sample_process) (Gp_saved, save_gp sample_process) \<and>
   (ready sample_link (save_gp sample_process) \<or>
    (\<forall>x. libc_code sample_maps x \<longrightarrow> mem (cpu (save_gp sample_process)) x = mem (cpu sample_process) x))"
proof -
  have "(init_step sample_os sample_capstone sample_link sample_loader (Some (concat (map maps_line sample_maps))))\<^sup>*\<^sup>*
     (Entered, sample_process) (Gp_saved, save_gp sample_process)"
    by (intro r_into_rtranclp init_step.intros) simp
  with patched_only_when_ready [OF _ sample_loader_ok _ this] sample_init_ok show ?thesis
    by (simp only: sample_process_sel)
qed

theorem layout_well_formed_witness:
  "\<exists>g. vpoline_init sample_os sample_capstone sample_link sample_loader (Some (concat (map maps_line sample_maps)))
       sample_process = Some (Inr g) \<and> layout_ok sample_os 0x50800 g"
proof -
  let ?maps = "Some (concat (map maps_line sample_maps))"
  obtain g where g: "vpoline_init sample_os sample_capstone sample_link sample_loader ?maps sample_process = Some (Inr g)"
    using vpoline_init_ok [of sample_os sample_capstone sample_link sample_maps sample_process, OF _ sample_loader_ok]
      sample_init_ok by (auto simp: sample_process_sel)
  then have "(init_step sample_os sample_capstone sample_link sample_loader ?maps)\<^sup>*\<^sup>* (Entered, sample_process) (Hook_loaded, g)"
    by (simp add: init_reaches_result)
  from layout_well_formed [OF sample_os_ok this] g show ?thesis by (auto simp: sample_process_sel)
qed


theorem debug_skip_clears_gp_witness:
  "\<exists>g' g''. vpoline_init_debug sample_os sample_capstone sample_link sample_loader
       \<lparr>proc_exe = Some ''/bin/bash'', proc_cmdline = Some ''./target''\<rparr> None sample_process = Some (Inr g') \<and>
     libc_start_main sample_loader g' = Inr (0x9000, g'') \<and> rreg (cpu g') GP = 0x50800 \<and> rreg (cpu g'') GP = 0"
proof -
  let ?pr = "\<lparr>proc_exe = Some ''/bin/bash'', proc_cmdline = Some ''./target''\<rparr>"
  have "\<not> is_target sample_loader ?pr"
    by (simp add: is_target_def expected_target_def after_slash_def c_string_def sample_loader_def)
  moreover have "relocated_gp (rsi sample_process) = 0" "\<not> trap_handler sample_process"
    "ld_next sample_loader ''__libc_start_main'' = 0x9000"
    by (simp_all add: sample_process_def sample_lib_def sample_loader_def)
  ultimately show ?thesis
    using debug_skip_clears_gp [of sample_loader ?pr sample_process sample_os sample_capstone sample_link None]
    by (auto simp: sample_process_sel)
qed

theorem libc_start_main_rearms_witness:
  "\<exists>g'. vpoline_init sample_os sample_capstone sample_link sample_loader (Some (concat (map maps_line sample_maps))) sample_process =
       Some (Inr g') \<and> libc_start_main sample_loader (g'\<lparr>cpu := wreg GP 0x50800 (cpu g')\<rparr>) = Inr (0x9000, g')"
proof -
  obtain g' where g': "vpoline_init sample_os sample_capstone sample_link sample_loader
        (Some (concat (map maps_line sample_maps))) sample_process = Some (Inr g')"
      "armed (cs_disasm_iter sample_capstone) sample_link sample_maps (mem (cpu sample_process)) g'"
    using vpoline_init_ok [of sample_os sample_capstone sample_link sample_maps sample_process, OF _ sample_loader_ok]
      sample_init_ok by (auto simp: sample_process_sel)
  have "ld_next sample_loader ''__libc_start_main'' = 0x9000" by (simp add: sample_loader_def)
  then show ?thesis using g'(1) libc_start_main_rearms [OF g'(2), of sample_loader "0x50800"] by auto
qed

end
