(* ===== verification/Process.thy ===== *)
theory Process
  imports Interception Vp_Init
begin

text \<open>
  A whole program under the library. The reference is the same program without it: the same machine
  with the original global pointer and the original \<open>ecall\<close>s, in which every system call is answered
  by the hook or by the kernel. The theorem is a simulation: the program under the library follows
  the reference step by step, through faults and intercepted calls, with the same events.
\<close>

section \<open>The two machines\<close>

text \<open>One instruction, of 32 or 16 bits.\<close>

definition isa_step :: "machine \<Rightarrow> outcome" where
  "isa_step s =
     (case fetch s of
        (None, n) \<Rightarrow> Illegal s
      | (Some i, n) \<Rightarrow> if allowed (perm s) PROT_EXEC (pc s) (unat n) then exec i n s else Fault (pc s) s)"

text \<open>The answer to a system call: the result, and the bytes and protections that change.\<close>

record reply =
  rep_a0 :: u64
  rep_mem :: "u64 \<rightharpoonup> u8"
  rep_perm :: "u64 \<rightharpoonup> u32"

definition written :: "('a \<rightharpoonup> 'b) \<Rightarrow> ('a \<Rightarrow> 'b) \<Rightarrow> 'a \<Rightarrow> 'b" where
  "written ws f x = (case ws x of None \<Rightarrow> f x | Some b \<Rightarrow> b)"

definition answered :: "reply \<Rightarrow> machine \<Rightarrow> machine" where
  "answered p s =
     advance 4 (wreg A0 (rep_a0 p) (s\<lparr>mem := written (rep_mem p) (mem s), perm := written (rep_perm p) (perm s)\<rparr>))"

text \<open>What is observed: nothing, a call the hook answered, or a call the kernel answered, each with the
  number and the six arguments.\<close>

datatype event = Silent | Hooked "u64 list" reply | Kernel "u64 list" reply

definition call_args :: "machine \<Rightarrow> u64 list" where
  "call_args s = map (rreg s) [A7, A0, A1, A2, A3, A4, A5]"

inductive native_step :: "machine \<Rightarrow> event \<Rightarrow> machine \<Rightarrow> bool" where
  native_plain: "isa_step n = Next n' \<Longrightarrow> native_step n Silent n'"
| native_hooked: "isa_step n = Ecall n \<Longrightarrow> native_step n (Hooked (call_args n) p) (answered p n)"
| native_kernel: "isa_step n = Ecall n \<Longrightarrow> native_step n (Kernel (call_args n) p) (answered p n)"

text \<open>
  Under the library a step is an instruction, an instruction whose fault the handler resolves, or an
  intercepted call: from the patched instruction through the trampoline and \<open>asm_syscall_hook\<close> back
  to the next instruction. \<open>D\<close> holds the bytes that are not the program's to look at.
\<close>

inductive vp_step :: "hook_env \<Rightarrow> lib \<Rightarrow> (u64 \<Rightarrow> bool) \<Rightarrow> machine \<Rightarrow> event \<Rightarrow> machine \<Rightarrow> bool" for env g D where
  vp_plain: "isa_step s = Next s' \<Longrightarrow> load32 (mem s) (pc s) \<noteq> 0x000181e7 \<Longrightarrow> vp_step env g D s Silent s'"
| vp_fault: "isa_step s = Fault a s \<Longrightarrow> segfault_handler (g\<lparr>cpu := s\<rparr>) 11 a (ctx_of s) = Inr (g', ctx) \<Longrightarrow>
    vp_step env g D s Silent (resume (cpu g') ctx)"
| vp_hooked: "load32 (mem s) (pc s) = 0x000181e7 \<Longrightarrow> intercepted env s = Some u \<Longrightarrow> cpu_run 5 u = Next v \<Longrightarrow>
    rreg v A0 = rep_a0 p \<Longrightarrow> rep_perm p = Map.empty \<Longrightarrow> \<forall>x. \<not> D x \<longrightarrow> mem v x = written (rep_mem p) (mem s) x \<Longrightarrow>
    vp_step env g D s (Hooked (call_args s) p) v"
| vp_kernel: "load32 (mem s) (pc s) = 0x000181e7 \<Longrightarrow> intercepted env s = Some u \<Longrightarrow> cpu_run 1 u = Ecall u \<Longrightarrow>
    cpu_run 5 (answered p u) = Next v \<Longrightarrow> vp_step env g D s (Kernel (call_args u) p) v"

section \<open>The simulation relation\<close>

text \<open>The bytes both machines have in common, and what else relates them.\<close>

definition seen :: "link \<Rightarrow> lib \<Rightarrow> u64 set \<Rightarrow> (u64 \<Rightarrow> bool) \<Rightarrow> u64 \<Rightarrow> bool" where
  "seen lk g sites D x \<longleftrightarrow>
     \<not> D x \<and> \<not> shadow_page g x \<and> \<not> rgp_variable lk x \<and> (\<forall>t \<in> sites. \<not> in_range t 4 x)"

definition visible :: "link \<Rightarrow> lib \<Rightarrow> u64 set \<Rightarrow> (u64 \<Rightarrow> bool) \<Rightarrow> u64 \<Rightarrow> nat \<Rightarrow> bool" where
  "visible lk g sites D a k \<longleftrightarrow> (\<forall>x. in_range a k x \<longrightarrow> seen lk g sites D x)"

definition library_only :: "link \<Rightarrow> lib \<Rightarrow> u64 set \<Rightarrow> (u64 \<Rightarrow> bool) \<Rightarrow> bool" where
  "library_only lk g sites D \<longleftrightarrow> (\<forall>x. D x \<longrightarrow> seen lk g sites (\<lambda>_. False) x)"

definition same_regs :: "lib \<Rightarrow> machine \<Rightarrow> machine \<Rightarrow> bool" where
  "same_regs g n s \<longleftrightarrow>
     pc n = pc s \<and> rreg n GP = virtual_global_pointer g \<and> rreg s GP = relocated_gp (rsi g) \<and>
     (\<forall>r < 32. r \<noteq> GP \<longrightarrow> rreg n r = rreg s r) \<and> (\<forall>f < 32. fregs n f = fregs s f)"

definition same_mem :: "link \<Rightarrow> lib \<Rightarrow> u64 set \<Rightarrow> (u64 \<Rightarrow> bool) \<Rightarrow> machine \<Rightarrow> machine \<Rightarrow> bool" where
  "same_mem lk g sites D n s \<longleftrightarrow>
     (\<forall>x. seen lk g sites D x \<longrightarrow> mem n x = mem s x) \<and> (\<forall>x. \<not> shadow_page g x \<longrightarrow> perm n x = perm s x) \<and>
     (\<forall>t \<in> sites. load32 (mem n) t = 0x73 \<and> load32 (mem s) t = 0x000181e7) \<and>
     installed lk (g\<lparr>cpu := s\<rparr>) \<and> library_only lk g sites D"

definition mirrors :: "link \<Rightarrow> lib \<Rightarrow> u64 set \<Rightarrow> (u64 \<Rightarrow> bool) \<Rightarrow> machine \<Rightarrow> machine \<Rightarrow> bool" where
  "mirrors lk g sites D n s \<longleftrightarrow> same_regs g n s \<and> same_mem lk g sites D n s"

lemma seen_sites_off: "visible lk g sites D a k \<Longrightarrow> t \<in> sites \<Longrightarrow> in_range t 4 x \<Longrightarrow> \<not> in_range a k x"
  by (auto simp: visible_def seen_def)

text \<open>What is visible is fetched, read and accessed alike.\<close>

lemma visible_same:
  assumes "same_mem lk g sites D n s" and "visible lk g sites D a k" and "in_range a k x"
  shows "mem n x = mem s x" and "perm n x = perm s x"
  using assms by (auto simp: same_mem_def visible_def seen_def)

lemma visible_allowed:
  "same_mem lk g sites D n s \<Longrightarrow> visible lk g sites D a k \<Longrightarrow> allowed (perm n) w a k = allowed (perm s) w a k"
  by (rule allowed_cong) (rule visible_same(2))

text \<open>A change of both memories that agrees on what is seen and leaves the rest alone.\<close>

lemma same_mem_update:
  assumes same: "same_mem lk g sites D n s"
    and "\<And>x. seen lk g sites D' x \<Longrightarrow> mem n' x = mem s' x" and "\<And>x. \<not> shadow_page g x \<Longrightarrow> perm n' x = perm s' x"
    and keep: "\<And>x. \<not> seen lk g sites (\<lambda>_. False) x \<Longrightarrow> mem n' x = mem n x \<and> mem s' x = mem s x"
    and page: "\<And>x. shadow_page g x \<Longrightarrow> perm s' x = perm s x" and "library_only lk g sites D'"
  shows "same_mem lk g sites D' n' s'"
proof -
  have off: "\<not> seen lk g sites (\<lambda>_. False) x" if "shadow_page g x \<or> rgp_variable lk x \<or> (\<exists>t \<in> sites. in_range t 4 x)" for x
    using that by (auto simp: seen_def)
  have "installed lk (g\<lparr>cpu := s'\<rparr>)"
  proof (rule installed_frame)
    show "installed lk (g\<lparr>cpu := s\<rparr>)" using same by (simp add: same_mem_def)
  qed (use keep page off in \<open>simp_all add: shadow_page_def rgp_variable_def\<close>)
  moreover have "load32 (mem n') t = load32 (mem n) t" "load32 (mem s') t = load32 (mem s) t" if "t \<in> sites" for t
    using keep off that by (intro mem32.ld_cong; blast)+
  ultimately show ?thesis using assms unfolding same_mem_def by auto
qed

section \<open>Instructions\<close>

text \<open>The registers of an instruction: the base of an access, and the others.\<close>

fun base_reg :: "instr \<Rightarrow> nat option" where
  "base_reg (LOAD k rd rs1 off) = Some rs1"
| "base_reg (FLOAD k rd rs1 off) = Some rs1"
| "base_reg (STORE k rs2 rs1 off) = Some rs1"
| "base_reg (FSTORE k rs2 rs1 off) = Some rs1"
| "base_reg i = None"

fun data_regs :: "instr \<Rightarrow> nat set" where
  "data_regs (LUI rd imm) = {rd}"
| "data_regs (ADDI rd rs imm) = {rd, rs}"
| "data_regs (SLLI rd rs sh) = {rd, rs}"
| "data_regs (SRLI rd rs sh) = {rd, rs}"
| "data_regs (ORI rd rs imm) = {rd, rs}"
| "data_regs (ORR rd rs1 rs2) = {rd, rs1, rs2}"
| "data_regs (ANDR rd rs1 rs2) = {rd, rs1, rs2}"
| "data_regs (LOAD k rd rs1 off) = {rd}"
| "data_regs (STORE k rs2 rs1 off) = {rs2}"
| "data_regs (JAL rd off) = {rd}"
| "data_regs (JALR rd rs off) = {rd, rs}"
| "data_regs (AUIPC rd imm) = {rd}"
| "data_regs (OPI k rd rs imm) = {rd, rs}"
| "data_regs (OPR k rd rs1 rs2) = {rd, rs1, rs2}"
| "data_regs (BRANCH c rs1 rs2 off) = {rs1, rs2}"
| "data_regs i = {}"

fun fp_regs :: "instr \<Rightarrow> nat set" where
  "fp_regs (FLOAD k rd rs1 off) = {rd}"
| "fp_regs (FSTORE k rs2 rs1 off) = {rs2}"
| "fp_regs i = {}"

lemma fld_5: "fld lo 5 w < 32" and fld_3: "8 + fld lo 3 w < 32"
  using fld_less [of lo 5 w] fld_less [of lo 3 w] by simp_all

lemma fetch_regs:
  assumes "fetch s = (Some i, k)"
  shows "data_regs i \<subseteq> {..<32}" and "fp_regs i \<subseteq> {..<32}" and "base_reg i = Some r \<Longrightarrow> r < 32"
proof -
  have "data_regs i \<subseteq> {..<32} \<and> fp_regs i \<subseteq> {..<32} \<and> (\<forall>r. base_reg i = Some r \<longrightarrow> r < 32)"
    if "decode32 w = Some i" for w
    using that by (auto simp: decode32_def decode_imm_def decode_imm32_def decode_op_def Let_def fld_5 split: if_splits)
  moreover have "data_regs i \<subseteq> {..<32} \<and> fp_regs i \<subseteq> {..<32} \<and> (\<forall>r. base_reg i = Some r \<longrightarrow> r < 32)"
    if "decode16 c = Some i" for c
    using that by (auto simp: decode16_defs Let_def fld_5 fld_3 split: if_splits)
  moreover have "(\<exists>w. decode32 w = Some i) \<or> (\<exists>c. decode16 c = Some i)"
    using assms by (auto simp: fetch_def Let_def split: if_splits)
  ultimately show "data_regs i \<subseteq> {..<32}" "fp_regs i \<subseteq> {..<32}" "base_reg i = Some r \<Longrightarrow> r < 32"
    by blast+
qed

lemma fetch_length: "fetch s = (i, k) \<Longrightarrow> k = 2 \<or> k = 4"
  by (auto simp: fetch_def Let_def split: if_splits)

lemma fetch_same:
  assumes "same_regs g n s" and "same_mem lk g sites D n s" and "fetch n = (Some i, k)"
    and "visible lk g sites D (pc n) (unat k)"
  shows "fetch s = (Some i, k)"
proof -
  have pc: "pc s = pc n" using assms(1) by (simp add: same_regs_def)
  have "load16 (mem s) (pc n) = load16 (mem n) (pc n)"
    using fetch_length [OF assms(3)]
    by (intro mem16.ld_cong visible_same(1) [OF assms(2,4), symmetric]) (auto simp: in_range_def)
  moreover have "load32 (mem s) (pc n) = load32 (mem n) (pc n)" if "k = 4"
    using that by (intro mem32.ld_cong visible_same(1) [OF assms(2,4), symmetric]) simp
  ultimately show ?thesis using assms(3) pc by (auto simp: fetch_def Let_def split: if_splits)
qed

lemma same_regs_rreg: "same_regs g n s \<Longrightarrow> r < 32 \<Longrightarrow> r \<noteq> GP \<Longrightarrow> rreg n r = rreg s r"
  by (simp add: same_regs_def)

lemma same_regs_wreg: "same_regs g n s \<Longrightarrow> r \<noteq> GP \<Longrightarrow> same_regs g (wreg r v n) (wreg r v s)"
  by (auto simp: same_regs_def machine_simps)

lemma same_regs_pc: "same_regs g n s \<Longrightarrow> same_regs g (n\<lparr>pc := a\<rparr>) (s\<lparr>pc := a\<rparr>)"
  by (simp add: same_regs_def rreg_update)

lemma same_regs_advance: "same_regs g n s \<Longrightarrow> same_regs g (advance k n) (advance k s)"
  by (simp add: same_regs_def rreg_advance)

lemma same_mem_sel:
  "mem n' = mem n \<Longrightarrow> perm n' = perm n \<Longrightarrow> mem s' = mem s \<Longrightarrow> perm s' = perm s \<Longrightarrow>
   same_mem lk g sites D n s \<Longrightarrow> same_mem lk g sites D n' s'"
  by (rule same_mem_update [of lk g sites D n s]) (auto simp: same_mem_def)

text \<open>Loads of visible bytes agree, and stores to them leave the machines alike.\<close>

lemma store_mirrors:
  assumes m: "mirrors lk g sites D n s" and v: "visible lk g sites D a k"
    and frame: "\<And>f x. \<not> in_range a k x \<Longrightarrow> st f x = f x" and cong: "\<And>f f' x. f x = f' x \<Longrightarrow> st f x = st f' x"
  shows "mirrors lk g sites D (n\<lparr>mem := st (mem n)\<rparr>) (s\<lparr>mem := st (mem s)\<rparr>)"
proof -
  have same: "same_mem lk g sites D n s" using m by (simp add: mirrors_def)
  have off: "\<not> in_range a k x" if "\<not> seen lk g sites (\<lambda>_. False) x" for x
    using that v by (auto simp: visible_def seen_def)
  have "same_mem lk g sites D (n\<lparr>mem := st (mem n)\<rparr>) (s\<lparr>mem := st (mem s)\<rparr>)"
  proof (rule same_mem_update [OF same])
    show "mem (n\<lparr>mem := st (mem n)\<rparr>) x = mem (s\<lparr>mem := st (mem s)\<rparr>) x" if "seen lk g sites D x" for x
      using same that cong [of "mem n" x "mem s"] by (simp add: same_mem_def)
  qed (use same off frame in \<open>simp_all add: same_mem_def\<close>)
  moreover have "same_regs g (n\<lparr>mem := st (mem n)\<rparr>) (s\<lparr>mem := st (mem s)\<rparr>)"
    using m by (simp add: mirrors_def same_regs_def)
  ultimately show ?thesis by (simp add: mirrors_def)
qed

lemma access_mirrors:
  assumes m: "mirrors lk g sites D n s" and i: "is_access i" "GP \<notin> data_regs i"
    and regs: "data_regs i \<subseteq> {..<32}" "fp_regs i \<subseteq> {..<32}" and v: "visible lk g sites D a (access_width i)"
  shows "mirrors lk g sites D (access_at i a n) (access_at i a s)"
proof -
  have same: "same_regs g n s" "same_mem lk g sites D n s" using m by (simp_all add: mirrors_def)
  have eq: "mem n x = mem s x" if "in_range a (access_width i) x" for x
    using visible_same(1) [OF same(2) v that] .
  show ?thesis
  proof (cases i)
    case (LOAD kd rd rs off)
    have "load_value kd (mem n) a = load_value kd (mem s) a"
      using eq unfolding LOAD by (rule load_value_cong)
    with LOAD i same show ?thesis
      by (auto simp: mirrors_def intro!: same_regs_wreg elim: same_mem_sel [rotated -1])
  next
    case (FLOAD kd rd rs off)
    have "fload_value kd (mem n) a = fload_value kd (mem s) a"
      using eq unfolding FLOAD by (rule fload_value_cong)
    with FLOAD same show ?thesis
      by (auto simp: mirrors_def same_regs_def wfreg_def elim: same_mem_sel [rotated -1])
  next
    case (STORE kd rs2 rs off)
    have "rreg n rs2 = rreg s rs2" using same_regs_rreg [OF same(1)] i regs STORE by auto
    moreover have "mirrors lk g sites D (n\<lparr>mem := store_value kd (mem n) a w\<rparr>) (s\<lparr>mem := store_value kd (mem s) a w\<rparr>)" for w
    proof (rule store_mirrors [OF m v])
      show "store_value kd f a w x = f x" if "\<not> in_range a (access_width i) x" for f x
        using that unfolding STORE by (rule store_value_frame)
    qed (rule store_value_cong)
    ultimately show ?thesis by (simp add: STORE)
  next
    case (FSTORE kd rs2 rs off)
    have "fregs n rs2 = fregs s rs2" using same(1) regs FSTORE by (auto simp: same_regs_def)
    moreover have "mirrors lk g sites D (n\<lparr>mem := fstore_value kd (mem n) a w\<rparr>) (s\<lparr>mem := fstore_value kd (mem s) a w\<rparr>)" for w
    proof (rule store_mirrors [OF m v])
      show "fstore_value kd f a w x = f x" if "\<not> in_range a (access_width i) x" for f x
        using that unfolding FSTORE by (rule store_value_frame)
    qed (rule store_value_cong)
    ultimately show ?thesis by (simp add: FSTORE)
  qed (use i in simp_all)
qed

lemma advance_mirrors: "mirrors lk g sites D n s \<Longrightarrow> mirrors lk g sites D (advance k n) (advance k s)"
  by (auto simp: mirrors_def intro: same_regs_advance elim: same_mem_sel [rotated -1])

text \<open>An instruction that does not name \<open>gp\<close> and accesses visible bytes does the same in both machines.\<close>

lemma exec_mirrors:
  assumes m: "mirrors lk g sites D n s" and gp: "GP \<notin> data_regs i" "base_reg i \<noteq> Some GP"
    and regs: "data_regs i \<subseteq> {..<32}" "fp_regs i \<subseteq> {..<32}" "\<And>r. base_reg i = Some r \<Longrightarrow> r < 32"
    and v: "is_access i \<Longrightarrow> visible lk g sites D (eff_addr i n) (access_width i)"
    and run: "exec i k n = Next n'"
  shows "\<exists>s'. exec i k s = Next s' \<and> mirrors lk g sites D n' s'"
proof (cases "is_access i")
  case True
  have same: "same_regs g n s" "same_mem lk g sites D n s" using m by (simp_all add: mirrors_def)
  have "eff_addr i s = eff_addr i n"
    using True gp(2) regs(3) same_regs_rreg [OF same(1)] by (cases i) auto
  moreover have "allowed (perm n) (access_prot i) (eff_addr i n) (access_width i)"
    "n' = advance k (access_at i (eff_addr i n) n)"
    using run True by (auto simp: exec_access Let_def split: if_splits)
  ultimately show ?thesis
    using True visible_allowed [OF same(2) v] advance_mirrors [OF access_mirrors [OF m True gp(1) regs(1,2) v]]
    by (simp add: exec_access Let_def)
next
  case False
  have same: "same_regs g n s" "same_mem lk g sites D n s" using m by (simp_all add: mirrors_def)
  have r: "rreg n r = rreg s r" if "r \<in> data_regs i" for r
    using that same_regs_rreg [OF same(1), of r] gp(1) regs(1) by auto
  have w: "mirrors lk g sites D (wreg rd x n) (wreg rd x s)" if "rd \<noteq> GP" for rd x
    using same that by (auto simp: mirrors_def intro: same_regs_wreg elim: same_mem_sel [rotated -1])
  have p: "mirrors lk g sites D (a\<lparr>pc := x\<rparr>) (b\<lparr>pc := x\<rparr>)" "mirrors lk g sites D (advance x a) (advance x b)"
    if "mirrors lk g sites D a b" for x a b
    using that by (auto simp: mirrors_def intro: same_regs_pc same_regs_advance elim: same_mem_sel [rotated -1])
  have "pc n = pc s" using same(1) by (simp add: same_regs_def)
  then show ?thesis
    using run False gp(1) r m by (cases i) (auto intro!: p w split: if_splits)
qed

text \<open>The instruction may be fetched.\<close>

lemma isa_step_Next:
  assumes "isa_step s = Next s'"
  obtains i k where "fetch s = (Some i, k)" "allowed (perm s) PROT_EXEC (pc s) (unat k)" "exec i k s = Next s'"
  using assms by (auto simp: isa_step_def split: prod.splits option.splits if_splits)

lemma plain_simulated:
  assumes m: "mirrors lk g sites D n s" and step: "isa_step n = Next n'"
    and f: "fetch n = (Some i, k)" and v: "visible lk g sites D (pc n) (unat k)"
    and gp: "GP \<notin> data_regs i" "base_reg i \<noteq> Some GP"
    and acc: "is_access i \<Longrightarrow> visible lk g sites D (eff_addr i n) (access_width i)"
  shows "\<exists>s'. vp_step env g D' s Silent s' \<and> mirrors lk g sites D n' s'"
proof -
  have same: "same_regs g n s" "same_mem lk g sites D n s" using m by (simp_all add: mirrors_def)
  have fs: "fetch s = (Some i, k)" using fetch_same [OF same f v] .
  have pc: "pc s = pc n" using same(1) by (simp add: same_regs_def)
  have ex: "allowed (perm n) PROT_EXEC (pc n) (unat k)" "exec i k n = Next n'"
    using step f by (auto simp: isa_step_def split: if_splits)
  obtain s' where s': "exec i k s = Next s'" "mirrors lk g sites D n' s'"
    using exec_mirrors [OF m gp fetch_regs(1,2) [OF f] _ acc ex(2)] fetch_regs(3) [OF f] by blast
  have "isa_step s = Next s'"
    using fs s'(1) ex(1) pc visible_allowed [OF same(2) v] by (simp add: isa_step_def)
  moreover have "load32 (mem s) (pc s) \<noteq> 0x000181e7"
  proof
    assume "load32 (mem s) (pc s) = 0x000181e7"
    then have "fetch s = (decode32 0x000181e7, 4)" by (simp add: fetch_def Let_def load16_low)
    moreover have "decode32 0x000181e7 = Some (JALR GP GP 0)" by (simp add: decode_defs)
    ultimately show False using fs gp(1) by simp
  qed
  ultimately show ?thesis using s'(2) by (blast intro: vp_step.intros)
qed

text \<open>An access relative to \<open>gp\<close> faults in the execute-only page, and the handler does to the original
  page what the reference does.\<close>

lemma fault_simulated:
  assumes m: "mirrors lk g sites D n s" and step: "isa_step n = Next n'"
    and f: "fetch n = (Some i, k)" and v: "visible lk g sites D (pc n) (unat k)"
    and i: "is_access i" "base_reg i = Some GP" "GP \<notin> data_regs i"
    and acc: "visible lk g sites D (eff_addr i n) (access_width i)"
    and page: "shadow_page g (eff_addr i s)" and readable: "allowed (perm n) PROT_READ (pc n) (unat k)"
  shows "\<exists>s'. vp_step env g D' s Silent s' \<and> mirrors lk g sites D n' s'"
proof -
  have same: "same_regs g n s" "same_mem lk g sites D n s" using m by (simp_all add: mirrors_def)
  have fs: "fetch s = (Some i, k)" using fetch_same [OF same f v] .
  have pc: "pc s = pc n" and gp: "rreg n GP = virtual_global_pointer g" "rreg s GP = relocated_gp (rsi g)"
    using same(1) by (simp_all add: same_regs_def)
  have ex: "allowed (perm n) PROT_EXEC (pc n) (unat k)" "exec i k n = Next n'"
    using step f by (auto simp: isa_step_def split: if_splits)
  have n': "allowed (perm n) (access_prot i) (eff_addr i n) (access_width i)"
    "n' = advance k (access_at i (eff_addr i n) n)"
    using ex(2) i(1) by (auto simp: exec_access Let_def split: if_splits)
  have inst: "installed lk (g\<lparr>cpu := s\<rparr>)" using same(2) by (simp add: same_mem_def)
  then have "perm s (eff_addr i s) = PROT_EXEC" "shadows (g\<lparr>cpu := s\<rparr>)"
    using page by (simp_all add: installed_def Let_def shadow_page_def)
  have "\<not> allowed (perm s) (access_prot i) (eff_addr i s) (access_width i)"
    using access_width_pos [OF i(1)] \<open>perm s (eff_addr i s) = PROT_EXEC\<close> i(1)
    by (cases i) (auto simp: allowed_iff prot_defs intro!: exI [of _ 0])
  then have fault: "isa_step s = Fault (eff_addr i s) s"
    using fs ex(1) pc visible_allowed [OF same(2) v] i(1) by (simp add: isa_step_def exec_access Let_def)
  obtain d where d: "eff_addr i n = virtual_global_pointer g + d" "eff_addr i s = relocated_gp (rsi g) + d"
    using i(1,2) gp by (cases i) auto
  let ?h = "g\<lparr>cpu := s\<rparr>"
  have backup: "backup_of ?h (eff_addr i s) = eff_addr i n" "in_xom ?h (eff_addr i s)"
    using \<open>shadows ?h\<close> d page by (simp_all add: shadows_def shadow_page_def)
  have "allowed (perm s) PROT_READ (pc s) (unat k)"
    using readable pc visible_allowed [OF same(2) v] by simp
  moreover have "allowed (perm s) (access_prot i) (eff_addr i n) (access_width i)"
    using n'(1) visible_allowed [OF same(2) acc] by simp
  ultimately obtain t ctx where t: "segfault_handler ?h 11 (eff_addr i s) (ctx_of s) = Inr (?h\<lparr>cpu := t\<rparr>, ctx)"
      "resume t ctx = advance k (access_at i (eff_addr i n) s)"
    using segfault_handler_ok [of ?h i k "eff_addr i s" 11] fs i(1) backup by auto
  have "vp_step env g D' s Silent (resume t ctx)"
    using vp_fault [OF fault t(1)] by simp
  moreover have "mirrors lk g sites D n' (resume t ctx)"
    unfolding n'(2) t(2) using fetch_regs(1,2) [OF f] by (intro advance_mirrors access_mirrors [OF m i(1,3) _ _ acc])
  ultimately show ?thesis by blast
qed

section \<open>System calls\<close>

lemma separateI:
  assumes "\<And>x. in_range a n x \<Longrightarrow> \<not> in_range b k x" and "0 < n" and "0 < k"
  shows "separate a n b k"
  using assms(1) [of a] assms(1) [of b] assms(2,3) by (force simp: separate_def in_range_def)

text \<open>
  What a system call needs: aligned code, 304 bytes below the stack pointer that the program does not
  look at, and the library's variable readable.
\<close>

definition call_ok :: "hook_env \<Rightarrow> link \<Rightarrow> lib \<Rightarrow> u64 set \<Rightarrow> (u64 \<Rightarrow> bool) \<Rightarrow> machine \<Rightarrow> bool" where
  "call_ok env lk g sites D n \<longleftrightarrow>
     (let frame = rreg n SP - 304; rgp = relocated_gp (rsi g); var = sym_relocated_global_pointer lk in
      env_rgp_addr env = var \<and> rgp AND NOT 1 = rgp \<and> (pc n + 4) AND NOT 1 = pc n + 4 \<and>
      library_only lk g sites D \<and> (\<forall>x. in_range frame 304 x \<longrightarrow> D x) \<and>
      (\<forall>x. in_range (pc n) 4 x \<or> rgp_variable lk x \<longrightarrow> \<not> shadow_page g x) \<and>
      allowed (perm n) PROT_WRITE frame 304 \<and> allowed (perm n) PROT_READ frame 304 \<and> allowed (perm n) PROT_READ var 8)"

text \<open>How the hook of the library answers the call made in \<open>s\<close>: the verdict, the result, and what it has
  done to memory outside \<open>D\<close>. It leaves its caller's frame alone.\<close>

definition hook_does :: "hook_env \<Rightarrow> (u64 \<Rightarrow> bool) \<Rightarrow> machine \<Rightarrow> u64 \<Rightarrow> (u64 \<rightharpoonup> u8) \<Rightarrow> bool" where
  "hook_does env D s verdict ws \<longleftrightarrow>
     ret_a1 (snd (hook_answer env s)) = verdict \<and> answer_keeps env s (rreg s SP - 304) 304 \<and>
     (\<forall>x. \<not> D x \<longrightarrow> env_frame env (rreg s SP - 304) (fst (hook_answer env s)) x = written ws (mem s) x)"

lemma call_intercept_ok:
  assumes m: "mirrors lk g sites D n s" and site: "pc n \<in> sites" and ok: "call_ok env lk g sites D' n"
    and ex: "allowed (perm n) PROT_EXEC (pc n) 4"
    and hook: "hook_does env D' s verdict ws" "\<And>x. \<not> seen lk g sites D' x \<Longrightarrow> ws x = None"
  shows "intercept_ok env (sym_asm_syscall_hook lk) (relocated_gp (rsi g)) s"
proof -
  let ?rgp = "relocated_gp (rsi g)" and ?frame = "rreg s SP - 304"
  have same: "same_regs g n s" "same_mem lk g sites D n s" using m by (simp_all add: mirrors_def)
  have regs: "pc n = pc s" "rreg n SP = rreg s SP" "rreg s GP = ?rgp" using same(1) by (simp_all add: same_regs_def)
  have perm: "allowed (perm s) w a k" if "allowed (perm n) w a k" "\<And>x. in_range a k x \<Longrightarrow> \<not> shadow_page g x" for w a k
    using that same(2) allowed_cong [of a k "perm n" "perm s" w] by (auto simp: same_mem_def)
  have D': "library_only lk g sites D'" "\<And>x. in_range ?frame 304 x \<Longrightarrow> D' x"
    and off: "\<And>x. in_range (pc s) 4 x \<or> rgp_variable lk x \<Longrightarrow> \<not> shadow_page g x"
    using ok regs by (auto simp: call_ok_def Let_def)
  have frame: "\<not> shadow_page g x \<and> \<not> rgp_variable lk x" if "in_range ?frame 304 x" for x
    using D' that by (auto simp: library_only_def seen_def)
  have "installed lk (g\<lparr>cpu := s\<rparr>)" using same(2) by (simp add: same_mem_def)
  then have inst: "code_at (mem s) (?rgp - 56) (return_words @ trampoline_words (sym_asm_syscall_hook lk))"
      "\<And>x. in_range (?rgp - 56) 136 x \<Longrightarrow> shadow_page g x" "\<And>x. shadow_page g x \<Longrightarrow> perm s x = PROT_EXEC"
      "load64 (mem s) (sym_relocated_global_pointer lk) = ?rgp"
    by (simp_all add: installed_def Let_def shadow_page_def)
  have "allowed (perm s) PROT_EXEC (?rgp - 56) 136" using inst(2,3) by (intro allowed_range) simp_all
  with inst(1) have "runnable s (?rgp - 56) (return_words @ trampoline_words (sym_asm_syscall_hook lk))"
    by (simp add: runnable_def length_words)
  moreover have "runnable s (pc s) [0x000181e7]"
    using same(2) site regs(1) perm [OF ex] off by (simp add: runnable_def same_mem_def)
  moreover have "separate ?frame 304 (?rgp - 56) 136" "separate ?frame 304 (sym_relocated_global_pointer lk) 8"
    using frame inst(2) by (auto intro!: separateI simp: rgp_variable_def)
  moreover have "allowed (perm s) PROT_WRITE ?frame 304" "allowed (perm s) PROT_READ ?frame 304"
    "allowed (perm s) PROT_READ (sym_relocated_global_pointer lk) 8"
    using ok regs frame off by (auto simp: call_ok_def Let_def rgp_variable_def intro!: perm)
  moreover have "env_frame env ?frame (fst (hook_answer env s)) x = call_mem s x" if "shadow_page g x \<or> rgp_variable lk x" for x
  proof -
    have "\<not> D' x" "\<not> in_range ?frame 304 x" "\<not> seen lk g sites D' x"
      using that D'(1) frame by (auto simp: library_only_def seen_def)
    then show ?thesis using hook call_mem_frame [of s x] by (simp add: hook_does_def written_def)
  qed
  then have "answer_keeps env s (sym_relocated_global_pointer lk) 8" "answer_keeps env s (?rgp - 56) 56"
    using inst(2) by (auto simp: answer_keeps_def rgp_variable_def in_range_def)
  ultimately show ?thesis
    using ok regs inst(4) hook(1) by (simp add: intercept_ok_def call_ok_def hook_does_def Let_def)
qed

text \<open>The answer to a call, given to both machines.\<close>

definition reply_ok :: "link \<Rightarrow> lib \<Rightarrow> u64 set \<Rightarrow> (u64 \<Rightarrow> bool) \<Rightarrow> reply \<Rightarrow> bool" where
  "reply_ok lk g sites D p \<longleftrightarrow> (\<forall>x. \<not> seen lk g sites D x \<longrightarrow> rep_mem p x = None \<and> rep_perm p x = None)"

lemma answered_sel:
  "pc (answered p s) = pc s + 4" "mem (answered p s) = written (rep_mem p) (mem s)"
  "perm (answered p s) = written (rep_perm p) (perm s)" "fregs (answered p s) = fregs s"
  "rreg (answered p s) r = (if r = A0 then rep_a0 p else rreg s r)"
  by (simp_all add: answered_def machine_simps)

lemma written_None: "ws x = None \<Longrightarrow> written ws f x = f x"
  by (simp add: written_def)

lemma written_empty [simp]: "written Map.empty f = f"
  by (simp add: fun_eq_iff written_def)

lemma mirrors_answer:
  assumes m: "mirrors lk g sites D n s" and p: "reply_ok lk g sites D' p"
    and D': "library_only lk g sites D'" "\<And>x. D x \<Longrightarrow> D' x"
    and v: "pc v = pc s + 4" "rreg v A0 = rep_a0 p" "\<forall>r < 32. r \<noteq> A0 \<longrightarrow> rreg v r = rreg s r"
      "\<forall>f < 32. fregs v f = fregs s f" "perm v = written (rep_perm p) (perm s)"
    and mem: "\<And>x. \<not> D' x \<Longrightarrow> mem v x = written (rep_mem p) (mem s) x"
  shows "mirrors lk g sites D' (answered p n) v"
proof -
  have same: "same_regs g n s" "same_mem lk g sites D n s" using m by (simp_all add: mirrors_def)
  have seen: "seen lk g sites D x \<and> \<not> D' x" if "seen lk g sites D' x" for x
    using that D'(2) by (auto simp: seen_def)
  have hid: "\<not> D' x \<and> rep_mem p x = None \<and> rep_perm p x = None" if "\<not> seen lk g sites (\<lambda>_. False) x" for x
    using that p D'(1) by (auto simp: reply_ok_def library_only_def seen_def)
  have "same_mem lk g sites D' (answered p n) v"
  proof (rule same_mem_update [OF same(2)])
    show "mem (answered p n) x = mem v x" if "seen lk g sites D' x" for x
      using seen [OF that] same(2) mem [of x] by (simp add: answered_sel same_mem_def written_def split: option.splits)
    show "perm (answered p n) x = perm v x" if "\<not> shadow_page g x" for x
      using that same(2) v(5) by (simp add: answered_sel same_mem_def written_def split: option.splits)
    show "mem (answered p n) x = mem n x \<and> mem v x = mem s x" if "\<not> seen lk g sites (\<lambda>_. False) x" for x
      using hid [OF that] mem [of x] by (simp add: answered_sel written_None)
    show "perm v x = perm s x" if "shadow_page g x" for x
      using that hid [of x] v(5) by (simp add: seen_def written_None)
  qed (rule D'(1))
  moreover have "same_regs g (answered p n) v"
    using same(1) v by (auto simp: same_regs_def answered_sel)
  ultimately show ?thesis by (simp add: mirrors_def)
qed

lemma call_args_same:
  "same_regs g n s \<Longrightarrow> call_args n = call_args s"
  by (simp add: call_args_def same_regs_def)

lemma ecall_step:
  assumes m: "mirrors lk g sites D n s" and site: "pc n \<in> sites" and step: "isa_step n = Ecall n"
  shows "allowed (perm n) PROT_EXEC (pc n) 4" and "load32 (mem s) (pc s) = 0x000181e7"
proof -
  have w: "load32 (mem n) (pc n) = 0x73" "pc n = pc s" "load32 (mem s) (pc s) = 0x000181e7"
    using m site by (auto simp: mirrors_def same_mem_def same_regs_def)
  then have "fetch n = (decode32 0x73, 4)" by (simp add: fetch_def Let_def load16_low)
  moreover have "decode32 0x73 = Some ECALL" by (simp add: decode_defs)
  ultimately show "allowed (perm n) PROT_EXEC (pc n) 4"
    using step by (auto simp: isa_step_def split: if_splits)
  show "load32 (mem s) (pc s) = 0x000181e7" by (rule w)
qed

lemma hooked_simulated:
  assumes m: "mirrors lk g sites D n s" and site: "pc n \<in> sites" and step: "isa_step n = Ecall n"
    and ok: "call_ok env lk g sites D' n" and D': "\<And>x. D x \<Longrightarrow> D' x" and nr: "rreg n A7 \<noteq> 139"
    and hook: "hook_does env D' s 1 (rep_mem p)" "rep_a0 p = ret_a0 (snd (hook_answer env s))"
    and p: "reply_ok lk g sites D' p" "rep_perm p = Map.empty"
  shows "\<exists>s'. vp_step env g D' s (Hooked (call_args n) p) s' \<and> mirrors lk g sites D' (answered p n) s'"
proof -
  have same: "same_regs g n s" using m by (simp add: mirrors_def)
  have off: "rep_mem p x = None" if "\<not> seen lk g sites D' x" for x using p(1) that by (simp add: reply_ok_def)
  note e = ecall_step [OF m site step] and icpt = call_intercept_ok [OF m site ok ecall_step(1) [OF m site step] hook(1) off]
  have "rreg s A7 \<noteq> 139" using nr same by (simp add: same_regs_def)
  then obtain u where u: "intercepted env s = Some u" "at_return (relocated_gp (rsi g)) 56 s u"
      "rreg u A0 = rep_a0 p" "mem u = env_frame env (rreg s SP - 304) (fst (hook_answer env s))"
    using intercepted_return [OF icpt] hook by (auto simp: hook_does_def exit_offset_def)
  obtain v where v: "cpu_run 5 u = Next v" "pc v = pc s + 4" "rreg v A0 = rep_a0 p"
      "\<forall>r < 32. r \<noteq> A0 \<longrightarrow> rreg v r = rreg s r" "\<forall>f < 32. fregs v f = fregs s f" "mem v = mem u" "perm v = perm s"
    using handled_return [OF icpt u(2)] u(3) by auto
  have mem: "mem v x = written (rep_mem p) (mem s) x" if "\<not> D' x" for x
    using that hook(1) u(4) v(6) by (simp add: hook_does_def)
  have "vp_step env g D' s (Hooked (call_args s) p) v"
    using e(2) u(1) v(1,3) p(2) mem by (intro vp_hooked) auto
  moreover have "mirrors lk g sites D' (answered p n) v"
    using ok v(2-5,7) p(2) mem D'
    by (intro mirrors_answer [OF m p(1)]) (simp_all add: call_ok_def Let_def)
  ultimately show ?thesis using call_args_same [OF same] by auto
qed

lemma reply_off:
  assumes m: "mirrors lk g sites D n s" and ok: "call_ok env lk g sites D' n" and p: "reply_ok lk g sites D' p"
    and x: "in_range (relocated_gp (rsi g) - 56) 136 x \<or> in_range (rreg n SP - 304) 304 x"
  shows "rep_mem p x = None \<and> rep_perm p x = None"
proof -
  have "shadow_page g x \<or> D' x"
    using m ok x by (auto simp: mirrors_def same_mem_def installed_def Let_def shadow_page_def call_ok_def)
  then have "\<not> seen lk g sites D' x" by (auto simp: seen_def)
  with p show ?thesis by (simp add: reply_ok_def)
qed

lemma kernel_simulated:
  assumes m: "mirrors lk g sites D n s" and site: "pc n \<in> sites" and step: "isa_step n = Ecall n"
    and ok: "call_ok env lk g sites D' n" and D': "\<And>x. D x \<Longrightarrow> D' x" and nr: "rreg n A7 \<notin> {139, 220, 435}"
    and hook: "hook_does env D' s 0 Map.empty" and p: "reply_ok lk g sites D' p"
  shows "\<exists>s'. vp_step env g D' s (Kernel (call_args n) p) s' \<and> mirrors lk g sites D' (answered p n) s'"
proof -
  let ?rgp = "relocated_gp (rsi g)"
  have same: "same_regs g n s" using m by (simp add: mirrors_def)
  note e = ecall_step [OF m site step] and icpt = call_intercept_ok [OF m site ok ecall_step(1) [OF m site step] hook refl]
  have "rreg s A7 \<notin> {139, 220, 435}" using nr same by (simp add: same_regs_def)
  then obtain u where u: "intercepted env s = Some u" "at_return ?rgp 40 s u" "rreg u A0 = rreg s A0"
      "mem u = env_frame env (rreg s SP - 304) (fst (hook_answer env s))"
    using intercepted_return [OF icpt] hook hook_answer_forward [of env s]
    by (auto simp: hook_does_def exit_offset_def)
  have ret: "cpu_run 1 u = Ecall u"
    using u(2) by (intro return_ecall [of u "?rgp - 56"]) (simp_all add: at_return_def)
  have args: "call_args u = call_args n"
    using u(2,3) call_args_same [OF same] by (simp add: call_args_def at_return_def)
  have "rep_mem p x = None \<and> rep_perm p x = None" if "in_range (?rgp - 56) 56 x \<or> in_range (rreg u SP) 304 x" for x
    using that reply_off [OF m ok p, of x] u(2) same by (auto simp: at_return_def same_regs_def in_range_def)
  then have "kernel_returns ?rgp u (answered p u)"
    by (simp add: kernel_returns_def answered_sel written_None)
  then obtain v where v: "cpu_run 5 (answered p u) = Next v" "pc v = pc s + 4" "rreg v A0 = rep_a0 p"
      "\<forall>r < 32. r \<noteq> A0 \<longrightarrow> rreg v r = rreg s r" "\<forall>f < 32. fregs v f = fregs s f"
      "mem v = written (rep_mem p) (mem u)" "perm v = written (rep_perm p) (perm s)"
    using kernel_return [OF icpt u(2)] u(2) by (force simp: answered_sel at_return_def)
  have mem: "mem v x = written (rep_mem p) (mem s) x" if "\<not> D' x" for x
    using that hook u(4) v(6) by (simp add: hook_does_def written_def split: option.splits)
  have "vp_step env g D' s (Kernel (call_args u) p) v"
    using e(2) u(1) ret v(1) by (rule vp_kernel)
  moreover have "mirrors lk g sites D' (answered p n) v"
    using ok v(2-5,7) mem D' by (intro mirrors_answer [OF m p]) (simp_all add: call_ok_def Let_def)
  ultimately show ?thesis using args by auto
qed

section \<open>The simulation\<close>

text \<open>
  The steps the library is made for. Instructions and the bytes they access are visible, and \<open>gp\<close> serves
  only as the base of accesses to its own page, from readable code. System calls are made at patched
  sites; the hook answers as the event says; \<open>rt_sigreturn\<close> is excluded, and so are \<open>clone\<close> and \<open>clone3\<close>
  when they are forwarded, since they return in two processes.
\<close>

definition covered ::
  "hook_env \<Rightarrow> link \<Rightarrow> lib \<Rightarrow> u64 set \<Rightarrow> (u64 \<Rightarrow> bool) \<Rightarrow> (u64 \<Rightarrow> bool) \<Rightarrow> machine \<Rightarrow> machine \<Rightarrow> event \<Rightarrow> bool" where
  "covered env lk g sites D D' n s e \<longleftrightarrow>
     (case e of
        Silent \<Rightarrow>
          D' = D \<and>
          (case fetch n of
             (None, k) \<Rightarrow> False
           | (Some i, k) \<Rightarrow>
               visible lk g sites D (pc n) (unat k) \<and> GP \<notin> data_regs i \<and>
               (is_access i \<longrightarrow> visible lk g sites D (eff_addr i n) (access_width i)) \<and>
               (base_reg i = Some GP \<longrightarrow> shadow_page g (eff_addr i s) \<and> allowed (perm n) PROT_READ (pc n) (unat k)))
      | Hooked args p \<Rightarrow>
          pc n \<in> sites \<and> rreg n A7 \<noteq> 139 \<and> call_ok env lk g sites D' n \<and> (\<forall>x. D x \<longrightarrow> D' x) \<and>
          hook_does env D' s 1 (rep_mem p) \<and> rep_a0 p = ret_a0 (snd (hook_answer env s)) \<and>
          reply_ok lk g sites D' p \<and> rep_perm p = Map.empty
      | Kernel args p \<Rightarrow>
          pc n \<in> sites \<and> rreg n A7 \<notin> {139, 220, 435} \<and> call_ok env lk g sites D' n \<and> (\<forall>x. D x \<longrightarrow> D' x) \<and>
          hook_does env D' s 0 Map.empty \<and> reply_ok lk g sites D' p)"

lemma base_reg_access: "base_reg i = Some r \<Longrightarrow> is_access i"
  by (cases i) auto

lemma native_step_simulated:
  assumes m: "mirrors lk g sites D n s" and step: "native_step n e n'" and c: "covered env lk g sites D D' n s e"
  shows "\<exists>s'. vp_step env g D' s e s' \<and> mirrors lk g sites D' n' s'"
  using step
proof cases
  case native_plain
  then obtain i k where i: "fetch n = (Some i, k)" "visible lk g sites D (pc n) (unat k)" "GP \<notin> data_regs i" "D' = D"
      "is_access i \<Longrightarrow> visible lk g sites D (eff_addr i n) (access_width i)"
      "base_reg i = Some GP \<Longrightarrow> shadow_page g (eff_addr i s) \<and> allowed (perm n) PROT_READ (pc n) (unat k)"
    using c by (auto simp: covered_def split: prod.splits option.splits)
  show ?thesis
  proof (cases "base_reg i = Some GP")
    case True
    with i native_plain fault_simulated [OF m] base_reg_access show ?thesis by metis
  next
    case False
    with i native_plain plain_simulated [OF m] show ?thesis by metis
  qed
next
  case (native_hooked p)
  with c show ?thesis unfolding covered_def by (auto intro!: hooked_simulated [OF m])
next
  case (native_kernel p)
  with c show ?thesis unfolding covered_def by (auto intro!: kernel_simulated [OF m])
qed

inductive_cases vp_stepE: "vp_step env g D s e s'"

lemma vp_step_det: "vp_step env g D s e s1 \<Longrightarrow> vp_step env g D s e s2 \<Longrightarrow> s1 = s2"
  by (elim vp_stepE) auto

text \<open>Both machines together.\<close>

inductive joint_step ::
  "hook_env \<Rightarrow> link \<Rightarrow> lib \<Rightarrow> u64 set \<Rightarrow> (u64 \<Rightarrow> bool) \<times> machine \<times> machine \<Rightarrow> (u64 \<Rightarrow> bool) \<times> machine \<times> machine \<Rightarrow> bool"
  for env lk g sites where
  joint: "native_step n e n' \<Longrightarrow> vp_step env g D' s e s' \<Longrightarrow> covered env lk g sites D D' n s e \<Longrightarrow>
    joint_step env lk g sites (D, n, s) (D', n', s')"

interpretation process: invariant_system "joint_step env lk g sites" "\<lambda>(D, n, s). mirrors lk g sites D n s"
  for env lk g sites
proof
  fix p q assume inv: "case p of (D, n, s) \<Rightarrow> mirrors lk g sites D n s" and step: "joint_step env lk g sites p q"
  from step show "case q of (D, n, s) \<Rightarrow> mirrors lk g sites D n s"
  proof cases
    case (joint n e n' D' s s' D)
    with inv native_step_simulated [of lk g sites D n s e n' env D'] obtain t
      where "vp_step env g D' s e t" "mirrors lk g sites D' n' t" by auto
    with joint show ?thesis using vp_step_det by fastforce
  qed
qed

section \<open>The program the library was loaded into\<close>

text \<open>The process as it would be without the library: the original global pointer, and the original code
  of the C library.\<close>

definition sites_of :: "disasm \<Rightarrow> memory \<Rightarrow> mapping list \<Rightarrow> u64 set" where
  "sites_of d m vs = set (all_sites d m (filter libc_text vs))"

definition unpatched :: "mapping list \<Rightarrow> memory \<Rightarrow> lib \<Rightarrow> machine" where
  "unpatched vs m g =
     (wreg GP (virtual_global_pointer g) (cpu g))\<lparr>mem := (\<lambda>x. if libc_code vs x then m x else mem (cpu g) x)\<rparr>"

lemma sweep_ecall: "disasm_ok d \<Longrightarrow> (b, l, True) \<in> set (sweep d m a n) \<Longrightarrow> load32 m b = 0x73"
proof (induction d m a n rule: sweep.induct)
  case (1 d m a n)
  have here: "load32 m a = 0x73" if "d m a n = Some (l, True)" for l
    using that 1(3) unfolding disasm_ok_def by blast
  show ?case
  proof (cases "n = 0 \<or> d m a n = None")
    case True
    with 1 show ?thesis by (subst (asm) (3) sweep.simps) (auto split: if_splits)
  next
    case False
    then obtain k e where "d m a n = Some (k, e)" "n \<noteq> 0" by auto
    with 1 here show ?thesis by (subst (asm) (3) sweep.simps) auto
  qed
qed

lemma site_ecall: "disasm_ok d \<Longrightarrow> t \<in> sites_of d m vs \<Longrightarrow> load32 m t = 0x73"
  using sweep_ecall by (fastforce simp: sites_of_def all_sites_def mapping_sites_def ecall_sites_def)

lemma armed_mirrors:
  assumes armed: "armed d lk vs m g" and d: "disasm_ok d"
  shows "mirrors lk g (sites_of d m vs) (\<lambda>_. False) (unpatched vs m g) (cpu g)"
proof -
  let ?n = "unpatched vs m g" and ?sites = "sites_of d m vs"
  have g: "g\<lparr>cpu := cpu g\<rparr> = g" by (cases g) simp
  have "mem ?n x = mem (cpu g) x" if "seen lk g ?sites (\<lambda>_. False) x" for x
    using that armed by (simp add: unpatched_def seen_def armed_def sites_of_def)
  moreover have "load32 (mem ?n) t = 0x73 \<and> load32 (mem (cpu g)) t = 0x000181e7" if t: "t \<in> ?sites" for t
  proof -
    have "load32 (mem ?n) t = load32 m t"
      by (rule mem32.ld_cong) (use t site_in_libc [OF d, of t m vs] in \<open>simp add: unpatched_def sites_of_def\<close>)
    then show ?thesis using site_ecall [OF d t] t armed by (simp add: armed_def sites_of_def)
  qed
  moreover have "perm ?n = perm (cpu g)" by (simp add: unpatched_def)
  ultimately have "same_mem lk g ?sites (\<lambda>_. False) ?n (cpu g)"
    using armed by (simp add: same_mem_def armed_def library_only_def g)
  moreover have "same_regs g ?n (cpu g)"
    using armed by (simp add: same_regs_def unpatched_def machine_simps armed_def)
  ultimately show ?thesis by (simp add: mirrors_def)
qed

text \<open>The relation does not depend on where the program is.\<close>

lemma mirrors_state:
  assumes "mirrors lk g sites D n s"
  shows "mirrors lk g sites D
    (n\<lparr>pc := a, gregs := r(GP := virtual_global_pointer g), fregs := f, perm := p\<rparr>)
    (s\<lparr>pc := a, gregs := r(GP := relocated_gp (rsi g)), fregs := f, perm := (\<lambda>x. if shadow_page g x then perm s x else p x)\<rparr>)"
    (is "mirrors lk g sites D ?n ?s")
proof -
  have same: "same_mem lk g sites D n s" using assms by (simp add: mirrors_def)
  then have "same_mem lk g sites D ?n ?s"
    by (rule same_mem_update) (use same in \<open>auto simp: same_mem_def\<close>)
  moreover have "same_regs g ?n ?s" by (simp add: same_regs_def rreg_def)
  ultimately show ?thesis by (simp add: mirrors_def)
qed

end
