(* ===== verification/Threads.thy ===== *)
theory Threads
  imports Process
begin

text \<open>
  Several threads of a program under the library, next to the same threads without it. They share memory
  and take their steps in any order; \<open>clone\<close> and \<open>clone3\<close> start new ones. A step of a thread is that of
  \<open>Process\<close>, an intercepted call being one step; what other threads may do inside one is the subject of
  \<open>Interference\<close>.
\<close>

section \<open>A forwarded clone\<close>

abbreviation (input) "TP \<equiv> 4 :: nat"

text \<open>What the kernel gives the child: its stack pointer and its thread pointer. It returns 0 there, and
  the child has the caller's other registers.\<close>

record child =
  ch_sp :: u64
  ch_tp :: u64

definition spawned :: "child \<Rightarrow> reply \<Rightarrow> machine \<Rightarrow> machine" where
  "spawned c p s = wreg TP (ch_tp c) (wreg SP (ch_sp c) (wreg A0 0 (answered p s)))"

text \<open>Under the library: up to the environment call, and from there parent and child each through the
  last instruction of the return sequence.\<close>

definition vp_clone :: "hook_env \<Rightarrow> machine \<Rightarrow> u64 list \<Rightarrow> reply \<Rightarrow> child \<Rightarrow> machine \<Rightarrow> machine \<Rightarrow> bool" where
  "vp_clone env s args p c v w \<longleftrightarrow>
     load32 (mem s) (pc s) = 0x000181e7 \<and>
     (\<exists>u e. intercepted env s = Some u \<and> cpu_run 4 u = Ecall e \<and> call_args e = args \<and>
        cpu_run 1 (answered p e) = Next v \<and> cpu_run 1 (spawned c p e) = Next w)"

lemma mirrors_wreg: "mirrors lk g sites D n s \<Longrightarrow> r \<noteq> GP \<Longrightarrow> mirrors lk g sites D (wreg r x n) (wreg r x s)"
  by (auto simp: mirrors_def intro: same_regs_wreg elim: same_mem_sel [rotated -1])

lemma mirrors_spawned:
  assumes "mirrors lk g sites D (answered p n) v"
  shows "mirrors lk g sites D (spawned c p n) (wreg TP (ch_tp c) (wreg SP (ch_sp c) (wreg A0 0 v)))"
  unfolding spawned_def using assms by (intro mirrors_wreg) simp_all

lemma clone_simulated:
  assumes m: "mirrors lk g sites D n s" and site: "pc n \<in> sites" and step: "isa_step n = Ecall n"
    and ok: "call_ok env lk g sites D' n" and D': "\<And>x. D x \<Longrightarrow> D' x" and nr: "rreg n A7 \<in> {220, 435}"
    and hook: "hook_does env D' s 0 Map.empty" and p: "reply_ok lk g sites D' p"
  shows "\<exists>v w. vp_clone env s (call_args n) p c v w \<and> mirrors lk g sites D' (answered p n) v \<and>
    mirrors lk g sites D' (spawned c p n) w"
proof -
  let ?rgp = "relocated_gp (rsi g)"
  have same: "same_regs g n s" using m by (simp add: mirrors_def)
  note e0 = ecall_step [OF m site step] and icpt = call_intercept_ok [OF m site ok ecall_step(1) [OF m site step] hook refl]
  have "rreg s A7 \<in> {220, 435}" using nr same by (simp add: same_regs_def)
  then obtain u where u: "intercepted env s = Some u" "at_return ?rgp 20 s u" "rreg u A0 = rreg s A0"
      "mem u = env_frame env (rreg s SP - 304) (fst (hook_answer env s))"
    using intercepted_return [OF icpt] hook hook_answer_forward [of env s]
    by (auto simp: hook_does_def exit_offset_def)
  from clone_return [OF icpt u(2,3)] obtain e where e: "cpu_run 4 u = Ecall e"
      "\<forall>r < 32. r \<noteq> GP \<longrightarrow> rreg e r = rreg s r" "\<forall>f < 32. fregs e f = fregs s f" "mem e = mem u" "perm e = perm s"
      "rreg e GP = pc s + 4" "runnable e (?rgp - 56) return_words"
      and jump: "\<And>k. pc k = pc e + 4 \<Longrightarrow> rreg k GP = pc s + 4 \<Longrightarrow> runnable k (?rgp - 56) return_words \<Longrightarrow>
        cpu_run 1 k = Next ((wreg GP ?rgp k)\<lparr>pc := pc s + 4\<rparr>)"
    by metis
  have "mem (answered p e) x = mem e x \<and> perm (answered p e) x = perm e x" if "in_range (?rgp - 56) 56 x" for x
    using that reply_off [OF m ok p, of x] by (simp add: answered_sel written_None in_range_def)
  then have code: "runnable (answered p e) (?rgp - 56) return_words"
    using runnable_local [OF e(7)] by (simp add: length_words)
  then have code': "runnable (spawned c p e) (?rgp - 56) return_words" by (simp add: spawned_def runnable_def)
  let ?v = "(wreg GP ?rgp (answered p e))\<lparr>pc := pc s + 4\<rparr>" and ?w = "(wreg GP ?rgp (spawned c p e))\<lparr>pc := pc s + 4\<rparr>"
  have "cpu_run 1 (answered p e) = Next ?v"
    by (rule jump [OF _ _ code]) (simp_all add: answered_sel e(6))
  moreover have "cpu_run 1 (spawned c p e) = Next ?w"
    by (rule jump [OF _ _ code']) (simp_all add: spawned_def answered_sel machine_simps e(6))
  moreover have args: "call_args e = call_args n"
    using e(2) call_args_same [OF same] by (simp add: call_args_def)
  ultimately have "vp_clone env s (call_args n) p c ?v ?w"
    using e0(2) u(1) e(1) by (auto simp: vp_clone_def)
  moreover have v: "mirrors lk g sites D' (answered p n) ?v"
  proof (rule mirrors_answer [OF m p])
    show "\<forall>r < 32. r \<noteq> A0 \<longrightarrow> rreg ?v r = rreg s r"
      using e(2) same by (auto simp: machine_simps answered_sel same_regs_def)
    show "mem ?v x = written (rep_mem p) (mem s) x" if "\<not> D' x" for x
      using that hook u(4) e(4) by (simp add: hook_does_def answered_sel written_def split: option.splits)
  qed (use ok e D' in \<open>simp_all add: call_ok_def Let_def answered_sel machine_simps\<close>)
  moreover have "?w = wreg TP (ch_tp c) (wreg SP (ch_sp c) (wreg A0 0 ?v))"
    by (simp add: spawned_def wreg_def fun_upd_twist)
  ultimately show ?thesis using mirrors_spawned [OF v, of c] by metis
qed

section \<open>Pools of threads\<close>

record thread =
  t_gregs :: "nat \<Rightarrow> u64"
  t_fregs :: "nat \<Rightarrow> u64"
  t_pc :: u64

record pool =
  threads :: "thread list"
  p_mem :: memory
  p_perm :: protection

text \<open>The machine a thread runs on, and the pool after one or, at a \<open>clone\<close>, two threads have run.\<close>

definition focus :: "pool \<Rightarrow> nat \<Rightarrow> machine" where
  "focus p i =
     (let t = threads p ! i in
      \<lparr>gregs = t_gregs t, fregs = t_fregs t, pc = t_pc t, mem = p_mem p, perm = p_perm p\<rparr>)"

definition regs_of :: "machine \<Rightarrow> thread" where
  "regs_of m = \<lparr>t_gregs = gregs m, t_fregs = fregs m, t_pc = pc m\<rparr>"

definition park :: "nat \<Rightarrow> machine \<Rightarrow> thread list \<Rightarrow> pool \<Rightarrow> pool" where
  "park i m new p = \<lparr>threads = (threads p)[i := regs_of m] @ new, p_mem = mem m, p_perm = perm m\<rparr>"

lemma focus_park:
  assumes "i < length (threads p)"
  shows "focus (park i m new p) i = m"
    and "j < length (threads p) \<Longrightarrow> j \<noteq> i \<Longrightarrow> focus (park i m new p) j = (focus p j)\<lparr>mem := mem m, perm := perm m\<rparr>"
    and "focus (park i m [regs_of c] p) (length (threads p)) = c\<lparr>mem := mem m, perm := perm m\<rparr>"
  using assms by (simp_all add: focus_def park_def regs_of_def nth_append Let_def)

lemma length_park [simp]: "length (threads (park i m new p)) = length (threads p) + length new"
  by (simp add: park_def)

text \<open>A move of the scheduler: a step of thread \<open>i\<close>, or a \<open>clone\<close> by it. Compiled code leaves different
  values in scratch registers each time, so that every move has its own \<open>hook_env\<close>.\<close>

datatype move = Move nat hook_env event | Spawn nat hook_env "u64 list" reply child

inductive native_pool :: "pool \<Rightarrow> move \<Rightarrow> pool \<Rightarrow> bool" where
  native_move: "i < length (threads p) \<Longrightarrow> native_step (focus p i) e n \<Longrightarrow> native_pool p (Move i env e) (park i n [] p)"
| native_spawn: "i < length (threads p) \<Longrightarrow> isa_step (focus p i) = Ecall (focus p i) \<Longrightarrow>
    native_pool p (Spawn i env (call_args (focus p i)) r c)
      (park i (answered r (focus p i)) [regs_of (spawned c r (focus p i))] p)"

inductive vp_pool :: "lib \<Rightarrow> (u64 \<Rightarrow> bool) \<Rightarrow> pool \<Rightarrow> move \<Rightarrow> pool \<Rightarrow> bool" for g D where
  vp_move: "i < length (threads q) \<Longrightarrow> vp_step env g D (focus q i) e s \<Longrightarrow> vp_pool g D q (Move i env e) (park i s [] q)"
| vp_spawn: "i < length (threads q) \<Longrightarrow> vp_clone env (focus q i) args r c v w \<Longrightarrow>
    vp_pool g D q (Spawn i env args r c) (park i v [regs_of w] q)"

definition pool_mirrors :: "link \<Rightarrow> lib \<Rightarrow> u64 set \<Rightarrow> (u64 \<Rightarrow> bool) \<Rightarrow> pool \<Rightarrow> pool \<Rightarrow> bool" where
  "pool_mirrors lk g sites D p q \<longleftrightarrow>
     length (threads p) = length (threads q) \<and>
     (\<forall>i < length (threads p). mirrors lk g sites D (focus p i) (focus q i))"

text \<open>The moves the library is made for: the steps of \<open>covered\<close>, and a \<open>clone\<close> at a patched site that the
  hook forwards.\<close>

definition pool_covered ::
  "link \<Rightarrow> lib \<Rightarrow> u64 set \<Rightarrow> (u64 \<Rightarrow> bool) \<Rightarrow> (u64 \<Rightarrow> bool) \<Rightarrow> pool \<Rightarrow> pool \<Rightarrow> move \<Rightarrow> bool" where
  "pool_covered lk g sites D D' p q l \<longleftrightarrow>
     (case l of
        Move i env e \<Rightarrow> covered env lk g sites D D' (focus p i) (focus q i) e
      | Spawn i env args r c \<Rightarrow>
          pc (focus p i) \<in> sites \<and> rreg (focus p i) A7 \<in> {220, 435} \<and> call_ok env lk g sites D' (focus p i) \<and>
          (\<forall>x. D x \<longrightarrow> D' x) \<and> hook_does env D' (focus q i) 0 Map.empty \<and> reply_ok lk g sites D' r)"

text \<open>A thread that did not move sees the memory that the one that did has left.\<close>

lemma mirrors_other:
  assumes "mirrors lk g sites D n s" and "mirrors lk g sites D' n' s'"
  shows "mirrors lk g sites D' (n\<lparr>mem := mem n', perm := perm n'\<rparr>) (s\<lparr>mem := mem s', perm := perm s'\<rparr>)"
proof -
  have "same_mem lk g sites D' n' s'" using assms(2) by (simp add: mirrors_def)
  then have "same_mem lk g sites D' (n\<lparr>mem := mem n', perm := perm n'\<rparr>) (s\<lparr>mem := mem s', perm := perm s'\<rparr>)"
    by (rule same_mem_sel [rotated -1]) simp_all
  with assms(1) show ?thesis by (simp add: mirrors_def same_regs_def)
qed

lemma pool_mirrors_park:
  assumes p: "pool_mirrors lk g sites D p q" and i: "i < length (threads p)" and m: "mirrors lk g sites D' n s"
  shows "pool_mirrors lk g sites D' (park i n [] p) (park i s [] q)"
proof -
  have "mirrors lk g sites D' (focus (park i n [] p) j) (focus (park i s [] q) j)" if "j < length (threads p)" for j
    using p i m that by (cases "j = i") (auto simp: focus_park pool_mirrors_def intro: mirrors_other)
  then show ?thesis using p by (simp add: pool_mirrors_def)
qed

lemma pool_mirrors_park_new:
  assumes p: "pool_mirrors lk g sites D p q" and i: "i < length (threads p)"
    and m: "mirrors lk g sites D' n s" and c: "mirrors lk g sites D' c d"
  shows "pool_mirrors lk g sites D' (park i n [regs_of c] p) (park i s [regs_of d] q)"
proof -
  have "mirrors lk g sites D' (focus (park i n [regs_of c] p) j) (focus (park i s [regs_of d] q) j)"
    if j: "j < Suc (length (threads p))" for j
  proof (cases "j = length (threads p)")
    case True
    with p i m c show ?thesis
      using focus_park(3) [of i p n c] focus_park(3) [of i q s d] by (auto simp: pool_mirrors_def intro: mirrors_other)
  next
    case False
    with j have "j < length (threads p)" by simp
    with p i m show ?thesis by (cases "j = i") (auto simp: focus_park pool_mirrors_def intro: mirrors_other)
  qed
  then show ?thesis using p by (simp add: pool_mirrors_def)
qed

lemma native_pool_simulated:
  assumes p: "pool_mirrors lk g sites D p q" and step: "native_pool p l p'"
    and c: "pool_covered lk g sites D D' p q l"
  shows "\<exists>q'. vp_pool g D' q l q' \<and> pool_mirrors lk g sites D' p' q'"
  using step
proof cases
  case (native_move i e n env)
  have m: "mirrors lk g sites D (focus p i) (focus q i)" and i: "i < length (threads q)"
    using p native_move(3) by (simp_all add: pool_mirrors_def)
  from c native_move(1) have "covered env lk g sites D D' (focus p i) (focus q i) e" by (simp add: pool_covered_def)
  from native_step_simulated [OF m native_move(4) this] obtain s
    where "vp_step env g D' (focus q i) e s" "mirrors lk g sites D' n s" by blast
  then show ?thesis
    using vp_move [OF i] pool_mirrors_park [OF p native_move(3)] native_move(1,2) by blast
next
  case (native_spawn i env r c')
  have m: "mirrors lk g sites D (focus p i) (focus q i)" and i: "i < length (threads q)"
    using p native_spawn(3) by (simp_all add: pool_mirrors_def)
  from c native_spawn(1) have "pc (focus p i) \<in> sites" "rreg (focus p i) A7 \<in> {220, 435}"
    "call_ok env lk g sites D' (focus p i)" "\<And>x. D x \<Longrightarrow> D' x" "hook_does env D' (focus q i) 0 Map.empty"
    "reply_ok lk g sites D' r" by (simp_all add: pool_covered_def)
  from clone_simulated [OF m this(1) native_spawn(4) this(3,4,2,5,6), of c'] obtain v w
    where "vp_clone env (focus q i) (call_args (focus p i)) r c' v w"
      "mirrors lk g sites D' (answered r (focus p i)) v" "mirrors lk g sites D' (spawned c' r (focus p i)) w" by blast
  then show ?thesis
    using vp_spawn [OF i] pool_mirrors_park_new [OF p native_spawn(3)] native_spawn(1,2) by blast
qed

interpretation pool: guarded_simulation native_pool "vp_pool g" "pool_mirrors lk g sites" "pool_covered lk g sites"
  for lk g sites
  by unfold_locales (rule native_pool_simulated)

end
