(* ===== verification/Hooks.thy ===== *)
theory Hooks
  imports Vp_Init Interception
begin

text \<open>
  The hook libraries of \<open>test/\<close>, clients of the interface of \<open>include/libvpoline.h\<close>: the hooks of
  \<open>hook_write_test.c\<close>, \<open>hook_fcntl_test.c\<close>, \<open>hook_template.c\<close> and \<open>syscall_tracker.c\<close>,
  \<open>safe_syscall_tracker.c\<close> and \<open>hook_wrapper_test.c\<close>, the test harness the last one works with, and their
  \<open>__hook_init\<close> functions. What \<open>syscall_no_intercept\<close> and \<open>openat\<close> do is a parameter.
\<close>

section \<open>Bytes in memory\<close>

fun put_bytes :: "u64 \<Rightarrow> u8 list \<Rightarrow> memory \<Rightarrow> memory" where
  "put_bytes a [] m = m"
| "put_bytes a (b # bs) m = put_bytes (a + 1) bs (m(a := b))"


definition ascii :: "string \<Rightarrow> u8 list" where
  "ascii str = map of_char str"

definition strlen :: "u8 list \<Rightarrow> nat" where
  "strlen bs = length (takeWhile (\<lambda>b. b \<noteq> 0) bs)"




section \<open>The hooks\<close>

text \<open>\<open>syscall_no_intercept_t\<close>: the number and the arguments passed; the memory afterwards and the result.
  Arguments that are not passed are whatever the registers hold.\<close>

type_synonym no_intercept = "memory \<Rightarrow> u64 \<Rightarrow> u64 list \<Rightarrow> memory \<times> u64"



text \<open>\<open>hook_fcntl_test.c\<close>: \<open>fcntl\<close> on another file. The result passes through an \<open>int\<close>.\<close>

type_synonym openat = "memory \<Rightarrow> u32 \<Rightarrow> string \<Rightarrow> u32 \<Rightarrow> u32 \<Rightarrow> memory \<times> u32"

definition fcntl_hook :: "openat \<Rightarrow> no_intercept \<Rightarrow> hook" where
  "fcntl_hook openat sni m syscall_number args result =
     (if syscall_number = 25 then
        let (m1, fd) = openat m (- 100) ''testfile.txt'' 0x242 0x1b6;
            (m2, r) = sni m1 syscall_number (scast fd # drop 1 args);
            ret = (ucast r :: u32)
        in (m2, scast ret, 0)
      else (m, result, 1))"

text \<open>\<open>sprintf\<close> with \<open>%ld\<close>, and the line the tracing hooks print.\<close>

fun digits :: "nat \<Rightarrow> u8 list" where
  "digits n = (if n = 0 then [] else digits (n div 10) @ [of_nat (48 + n mod 10)])"

declare digits.simps [simp del]

definition decimal :: "nat \<Rightarrow> u8 list" where
  "decimal n = (if n = 0 then [48] else digits n)"

definition show_long :: "u64 \<Rightarrow> u8 list" where
  "show_long v = (if sint v < 0 then 45 # decimal (nat (- sint v)) else decimal (nat (sint v)))"

definition message :: "u8 list" where
  "message = ascii ''output from hook_function: syscall number ''"

definition report :: "u64 \<Rightarrow> u8 list" where
  "report nr = message @ show_long nr @ [10]"






text \<open>\<open>hook_wrapper_test.c\<close> and the globals of \<open>wrapper_test.c\<close> it works on.\<close>

record syscall_test_data =
  expected_sys_nr :: u32
  matched :: u32
  test_name :: string

record wrapper_test =
  tracker :: "syscall_test_data list"
  current_test_idx :: nat
  inside_test :: bool

definition MAX_TESTS :: nat where
  "MAX_TESTS = 500"

definition wrapper_hook ::
  "u64 \<Rightarrow> no_intercept \<Rightarrow> wrapper_test \<Rightarrow> memory \<Rightarrow> u64 \<Rightarrow> u64 list \<Rightarrow> u64 \<Rightarrow> wrapper_test \<times> memory \<times> u64 \<times> u32" where
  "wrapper_hook buf sni w m syscall_number args result =
     (if syscall_number = 64 \<and> args ! 0 = 1 then (w, m, result, 1)
      else if syscall_number = 94 \<or> syscall_number = 93 then (w, m, result, 1)
      else if inside_test w then
        let line = report syscall_number @ [0];
            (m', _) = sni (put_bytes buf line m) 64 [1, buf, of_nat (strlen line)];
            i = current_test_idx w;
            w' = (if i < MAX_TESTS then
                    if matched (tracker w ! i) = 0 then
                      if syscall_number = scast (expected_sys_nr (tracker w ! i))
                      then w\<lparr>tracker := (tracker w)[i := (tracker w ! i)\<lparr>matched := 1\<rparr>]\<rparr>
                      else w
                    else w
                  else w)
        in (w', m', - 38, 0)
      else (w, m, result, 1))"

text \<open>The macro \<open>TEST_LIBC_WRAPPER\<close>. \<open>func_call\<close>, a function of the C library, makes a sequence of system
  calls that reach the hook; each gets the same answer.\<close>

fun func_call ::
  "u64 \<Rightarrow> no_intercept \<Rightarrow> (u64 \<times> u64 list) list \<Rightarrow> wrapper_test \<times> memory \<Rightarrow> wrapper_test \<times> memory" where
  "func_call buf sni [] (w, m) = (w, m)"
| "func_call buf sni ((nr, args) # calls) (w, m) =
     (let (w', m', _, _) = wrapper_hook buf sni w m nr args 0 in func_call buf sni calls (w', m'))"

definition TEST_LIBC_WRAPPER ::
  "u64 \<Rightarrow> no_intercept \<Rightarrow> u32 \<Rightarrow> string \<Rightarrow> (u64 \<times> u64 list) list \<Rightarrow> wrapper_test \<times> memory \<Rightarrow> (wrapper_test \<times> memory) result" where
  "TEST_LIBC_WRAPPER buf sni sys_nr name calls = (\<lambda>(w, m).
     let i = current_test_idx w in
     if i < MAX_TESTS then
       let test = (tracker w ! i)\<lparr>test_name := name, expected_sys_nr := sys_nr\<rparr>;
           w = w\<lparr>tracker := (tracker w)[i := test], inside_test := True\<rparr>;
           (w, m) = func_call buf sni calls (w, m)
       in Inr (w\<lparr>inside_test := False, current_test_idx := current_test_idx w + 1\<rparr>, m)
     else Inl (Exit 1))"

section \<open>Initialisation\<close>

text \<open>The symbols of a hook library: \<open>hook_function\<close> and the static pointer \<open>syscall_no_intercept\<close>.\<close>

record hook_lib =
  sym_hook_function :: u64
  sym_no_intercept_ptr :: u64

text \<open>\<open>__hook_init(placeholder, no_intercept_ptr, &out)\<close>: the machine, the \<open>int\<close> returned and the value of
  \<open>out\<close>.\<close>

definition hook_init :: "hook_lib \<Rightarrow> u64 \<Rightarrow> u64 \<Rightarrow> u64 \<Rightarrow> machine \<Rightarrow> (machine \<times> u32 \<times> u64) result" where
  "hook_init hl placeholder no_intercept_ptr out s =
     Inr (s\<lparr>mem := store64 (mem s) (sym_no_intercept_ptr hl) no_intercept_ptr\<rparr>, 0, sym_hook_function hl)"

text \<open>That of \<open>safe_syscall_tracker.c\<close> takes its second argument for the address of a pointer, which it reads
  and overwrites, and has no third.\<close>

definition safe_hook_init :: "hook_lib \<Rightarrow> u64 \<Rightarrow> u64 \<Rightarrow> u64 \<Rightarrow> machine \<Rightarrow> (machine \<times> u32 \<times> u64) result" where
  "safe_hook_init hl placeholder sys_call_hook_ptr out s =
     (if \<not> allowed (perm s) PROT_READ sys_call_hook_ptr 8 then Inl (Segv sys_call_hook_ptr)
      else
        let m = store64 (mem s) (sym_no_intercept_ptr hl) (load64 (mem s) sys_call_hook_ptr) in
        if \<not> allowed (perm s) PROT_WRITE sys_call_hook_ptr 8 then Inl (Segv sys_call_hook_ptr)
        else Inr (s\<lparr>mem := store64 m sys_call_hook_ptr (sym_hook_function hl)\<rparr>, 0, out))"

section \<open>The lines they print\<close>

lemma length_message [simp]: "length message = 42"
  by (simp add: message_def ascii_def)











section \<open>The harness\<close>

text \<open>The calls that count for the test: not those the hook lets through.\<close>

definition observed :: "u64 \<times> u64 list \<Rightarrow> bool" where
  "observed = (\<lambda>(nr, args). \<not> (nr = 64 \<and> args ! 0 = 1) \<and> nr \<notin> {93, 94})"

lemma wrapper_hook_step:
  assumes "inside_test w" and "current_test_idx w = i" and "i < length (tracker w)" and "length (tracker w) = MAX_TESTS"
    and "wrapper_hook buf sni w m nr args r = (w', m', r', v)"
  shows "w' = (if observed (nr, args) \<and> nr = scast (expected_sys_nr (tracker w ! i)) \<and> matched (tracker w ! i) = 0
     then w\<lparr>tracker := (tracker w)[i := (tracker w ! i)\<lparr>matched := 1\<rparr>]\<rparr> else w)"
  using assms by (auto simp: wrapper_hook_def observed_def Let_def split: prod.splits if_splits)

lemma func_call_tracks:
  assumes "inside_test w" and "current_test_idx w = i" and "i < length (tracker w)" and "length (tracker w) = MAX_TESTS"
    and "func_call buf sni calls (w, m) = (w', m')" and "matched (tracker w ! i) \<in> {0, 1}"
  shows "current_test_idx w' = i \<and> length (tracker w') = MAX_TESTS \<and> (\<forall>j. j \<noteq> i \<longrightarrow> tracker w' ! j = tracker w ! j) \<and>
    tracker w' ! i = (tracker w ! i)\<lparr>matched :=
      if matched (tracker w ! i) = 1 \<or> (\<exists>c \<in> set calls. observed c \<and> fst c = scast (expected_sys_nr (tracker w ! i))) then 1 else 0\<rparr>"
  using assms
proof (induction calls arbitrary: w m)
  case Nil
  then show ?case by (cases "tracker w ! i") auto
next
  case (Cons c calls)
  obtain nr args where c: "c = (nr, args)" by (cases c)
  obtain w1 m1 r v where w1: "wrapper_hook buf sni w m nr args 0 = (w1, m1, r, v)" by (cases "wrapper_hook buf sni w m nr args 0")
  then have "func_call buf sni calls (w1, m1) = (w', m')" using Cons.prems(5) by (simp add: c)
  moreover note step = wrapper_hook_step [OF Cons.prems(1-4) w1]
  moreover from step have "inside_test w1" "current_test_idx w1 = i" "i < length (tracker w1)" "length (tracker w1) = MAX_TESTS"
    "matched (tracker w1 ! i) \<in> {0, 1}" using Cons.prems(1-4,6) by auto
  ultimately show ?case using Cons.IH [of w1 m1] Cons.prems(3,6) by (auto simp: c)
qed

section \<open>Loading\<close>

text \<open>A library with the usual \<open>__hook_init\<close> is one that the constructor can work with.\<close>

lemma hook_library_ready:
  assumes "ld_getenv dl ''LIBVPHOOK'' = Some filename" and "\<And>n c. leaves keep c (fst (ld_dlopen dl n c))"
    and "\<And>c. snd (ld_dlopen dl filename c) = h" and "h \<noteq> 0" and "ld_dlsym dl h ''__hook_init'' \<noteq> 0"
    and "\<And>f. ld_hook_init dl f = hook_init hl" and "\<And>x. in_range (sym_no_intercept_ptr hl) 8 x \<Longrightarrow> \<not> keep x"
  shows "loader_ok keep dl" and "hook_ready dl lk (sym_hook_function hl)"
proof -
  have "store64 m (sym_no_intercept_ptr hl) v x = m x" if "keep x" for m v x
    using assms(7) that by (intro mem64.st_frame) blast
  then show "loader_ok keep dl" using assms(2,6) by (auto simp: loader_ok_def hook_init_def leaves_def)
  show "hook_ready dl lk (sym_hook_function hl)"
    using assms(1,3-6) by (simp add: hook_ready_def hook_init_def Let_def)
qed


lemma int_detour:
  fixes r :: u64
  assumes "- (2 ^ 31) \<le> sint r" and "sint r < 2 ^ 31"
  shows "(scast (ucast r :: u32) :: u64) = r"
proof -
  have "sint (ucast r :: u32) = signed_take_bit 31 (uint r)" by (simp add: signed_ucast_eq)
  also have "\<dots> = signed_take_bit 31 (sint r)" by (simp add: sint_uint signed_take_bit_signed_take_bit)
  also have "\<dots> = sint r" using assms by (simp add: signed_take_bit_int_eq_self)
  finally have s: "sint (ucast r :: u32) = sint r" .
  have "(scast (ucast r :: u32) :: u64) = word_of_int (sint (ucast r :: u32))" by simp
  also have "\<dots> = r" unfolding s by simp
  finally show ?thesis .
qed

text \<open>\<open>hook_fcntl_test\<close> makes the call on the file it has opened and answers with the kernel's result, which
  the detour through an \<open>int\<close> does not change as long as it is one; it forwards every other call.\<close>

lemma fcntl_hook_result:
  assumes "opn m (- 100) ''testfile.txt'' 0x242 0x1b6 = (m1, fd)" and "sni m1 25 (scast fd # drop 1 args) = (m2, r)"
    and "- (2 ^ 31) \<le> sint r" and "sint r < 2 ^ 31"
  shows "fcntl_hook opn sni m 25 args result = (m2, r, 0)"
    and "nr \<noteq> 25 \<Longrightarrow> fcntl_hook opn sni m nr args result = (m, result, 1)"
proof -
  have "(scast (ucast r :: u32) :: u64) = r" using assms(3,4) by (rule int_detour)
  then show "fcntl_hook opn sni m 25 args result = (m2, r, 0)" using assms(1,2) by (simp add: fcntl_hook_def)
qed (simp add: fcntl_hook_def)

section \<open>Properties\<close>


text \<open>C30: the coverage test reports what it means to. One \<open>TEST_LIBC_WRAPPER\<close> marks its entry of the tracker
  as matched exactly when the function of the C library makes a system call with the expected number that
  reaches the hook, calls the hook lets through aside; the other entries are as they were, and the
  harness is ready for the next test. Beyond \<open>MAX_TESTS\<close> tests it exits.\<close>

theorem wrapper_test_exact:
  assumes "length (tracker w) = MAX_TESTS" and "matched (tracker w ! current_test_idx w) = 0"
  shows "if current_test_idx w < MAX_TESTS then
      \<exists>w' m'. TEST_LIBC_WRAPPER buf sni sys_nr name calls (w, m) = Inr (w', m') \<and>
        current_test_idx w' = Suc (current_test_idx w) \<and> \<not> inside_test w' \<and> length (tracker w') = MAX_TESTS \<and>
        (\<forall>j. j \<noteq> current_test_idx w \<longrightarrow> tracker w' ! j = tracker w ! j) \<and>
        tracker w' ! current_test_idx w =
          \<lparr>expected_sys_nr = sys_nr, matched = if \<exists>c \<in> set calls. observed c \<and> fst c = scast sys_nr then 1 else 0, test_name = name\<rparr>
    else TEST_LIBC_WRAPPER buf sni sys_nr name calls (w, m) = Inl (Exit 1)"
proof (cases "current_test_idx w < MAX_TESTS")
  case True
  let ?i = "current_test_idx w"
  let ?w = "w\<lparr>tracker := (tracker w)[?i := (tracker w ! ?i)\<lparr>test_name := name, expected_sys_nr := sys_nr\<rparr>], inside_test := True\<rparr>"
  obtain w1 m1 where run: "func_call buf sni calls (?w, m) = (w1, m1)" by (cases "func_call buf sni calls (?w, m)")
  have "TEST_LIBC_WRAPPER buf sni sys_nr name calls (w, m) =
      Inr (w1\<lparr>inside_test := False, current_test_idx := current_test_idx w1 + 1\<rparr>, m1)"
    using True run by (simp add: TEST_LIBC_WRAPPER_def Let_def)
  moreover have "tracker ?w ! ?i = \<lparr>expected_sys_nr = sys_nr, matched = 0, test_name = name\<rparr>"
    using True assms by (cases "tracker w ! ?i") simp
  ultimately show ?thesis
    using func_call_tracks [of ?w ?i buf sni calls m w1 m1] run True assms by simp
qed (simp add: TEST_LIBC_WRAPPER_def)


text \<open>C35: \<open>safe_syscall_tracker\<close> does not work with this library. Its \<open>__hook_init\<close> writes through the
  pointer to \<open>syscall_no_intercept\<close>: with that code mapped as code is, the constructor dies of a
  segmentation fault at its address; were it writable, the constructor would return with no hook set and the
  first eight bytes of \<open>syscall_no_intercept\<close> overwritten.\<close>

theorem safe_tracker_init_faults:
  assumes "install os lk (save_gp g) = Inr g1" and "rewrite_code os cs maps (relocate_gp g1) = Some (Inr g2)"
    and "ld_getenv dl ''LIBVPHOOK'' = Some filename" and "ld_dlopen dl filename (cpu g2) = (c, h)" and "h \<noteq> 0"
    and "ld_dlsym dl h ''__hook_init'' = f" and "f \<noteq> 0" and "ld_hook_init dl f = safe_hook_init hl"
    and "allowed (perm c) PROT_READ (sym_syscall_no_intercept lk) 8"
  shows "if allowed (perm c) PROT_WRITE (sym_syscall_no_intercept lk) 8
    then \<exists>g'. vpoline_init os cs lk dl maps g = Some (Inr g') \<and> hook_fn g' = 0 \<and>
      load64 (mem (cpu g')) (sym_syscall_no_intercept lk) = sym_hook_function hl
    else vpoline_init os cs lk dl maps g = Some (Inl (Segv (sym_syscall_no_intercept lk)))"
  using assms by (simp add: vpoline_init_def load_hook_lib_def safe_hook_init_def Let_def mem64.ld_st)

section \<open>Instances\<close>

text \<open>A kernel whose \<open>write\<close> takes every byte.\<close>

definition sample_sni :: no_intercept where
  "sample_sni m nr args = (m, args ! 2)"








text \<open>Three tests made, and a function that makes the calls 57 and 63.\<close>

definition sample_tests :: wrapper_test where
  "sample_tests = \<lparr>tracker = replicate 500 \<lparr>expected_sys_nr = 0, matched = 0, test_name = []\<rparr>,
     current_test_idx = 3, inside_test = False\<rparr>"

theorem wrapper_test_exact_witness:
  "\<exists>w' m'. TEST_LIBC_WRAPPER 0x7000 sample_sni 63 ''read'' [(57, [0]), (63, [0])] (sample_tests, \<lambda>_. 0) = Inr (w', m') \<and>
     current_test_idx w' = 4 \<and> tracker w' ! 3 = \<lparr>expected_sys_nr = 63, matched = 1, test_name = ''read''\<rparr>"
proof -
  have "length (tracker sample_tests) = MAX_TESTS" "matched (tracker sample_tests ! current_test_idx sample_tests) = 0"
    by (simp_all add: MAX_TESTS_def sample_tests_def)
  from wrapper_test_exact [OF this, of "0x7000" sample_sni 63 "''read''" "[(57, [0]), (63, [0])]" "\<lambda>_. 0"]
  have "\<exists>w' m'. TEST_LIBC_WRAPPER 0x7000 sample_sni 63 ''read'' [(57, [0]), (63, [0])] (sample_tests, \<lambda>_. 0) = Inr (w', m') \<and>
     current_test_idx w' = Suc 3 \<and> tracker w' ! 3 = \<lparr>expected_sys_nr = 63, matched = 1, test_name = ''read''\<rparr>"
    by (auto simp: MAX_TESTS_def observed_def sample_tests_def)
  then show ?thesis by simp
qed

text \<open>\<open>safe_syscall_tracker\<close> loaded into the sample process, with every page readable and executable only.\<close>

definition sample_hook_lib :: hook_lib where
  "sample_hook_lib = \<lparr>sym_hook_function = 0x7200, sym_no_intercept_ptr = 0x7300\<rparr>"

definition sample_safe_loader :: loader where
  "sample_safe_loader = sample_loader\<lparr>ld_dlopen := (\<lambda>f c. (c\<lparr>perm := (\<lambda>_. 5)\<rparr>, 0x7000)),
     ld_hook_init := (\<lambda>f. safe_hook_init sample_hook_lib)\<rparr>"

theorem safe_tracker_init_faults_witness:
  "vpoline_init sample_os sample_capstone sample_link sample_safe_loader (Some (concat (map maps_line sample_maps))) sample_process =
     Some (Inl (Segv (sym_syscall_no_intercept sample_link)))"
proof -
  let ?maps = "Some (concat (map maps_line sample_maps))"
  obtain g where "vpoline_init sample_os sample_capstone sample_link sample_loader ?maps sample_process = Some (Inr g)"
    using vpoline_init_ok [of sample_os sample_capstone sample_link sample_maps sample_process, OF _ sample_loader_ok]
      sample_init_ok by (auto simp: sample_process_sel)
  then obtain g1 g2 where g: "install sample_os sample_link (save_gp sample_process) = Inr g1"
      "rewrite_code sample_os sample_capstone ?maps (relocate_gp g1) = Some (Inr g2)"
    by (auto simp: vpoline_init_def rbind_eq_Inr split: sum.splits)
  let ?c = "(cpu g2)\<lparr>perm := (\<lambda>_. 5)\<rparr>" and ?a = "sym_syscall_no_intercept sample_link"
  have "allowed (perm ?c) PROT_READ ?a 8" "\<not> allowed (perm ?c) PROT_WRITE ?a 8" by (auto simp: allowed_iff prot_defs intro: exI [of _ 0])
  with safe_tracker_init_faults [OF g, of sample_safe_loader "''hook.so''" ?c "0x7000" "0x7100" sample_hook_lib]
  show ?thesis by (simp add: sample_safe_loader_def sample_loader_def)
qed

end
