(* ===== verification/Spec2Isabelle.thy ===== *)
theory Spec2Isabelle
  imports Interference Threads Hooks
begin

text \<open>
  \<^bold>\<open>vpoline\<close> intercepts the system calls of a dynamically linked RISC-V program. It is preloaded into the
  process. Its constructor patches every \<open>ecall\<close> of the C library into \<open>jalr gp, gp, 0\<close>, having moved
  the global pointer to the middle of a page of its own in which two code sequences stand: at the
  pointer the trampoline, which a patched instruction jumps to, and in the 56 bytes before it the return
  sequence. The page can be executed but neither read nor written, so that every access of the program
  relative to its global pointer faults and is done by a signal handler on the original page.

  This development models the library's C code, the machine code it emits, its inline assembly and the
  program that runs under it, and proves, under the conditions named with each theorem, that the program
  does not notice; where it does, the theorems say how.

  \<^bold>\<open>The theories.\<close>
  \<^item> \<open>VP_Prelude\<close>: fixed-width words, address ranges, byte memory with the contract of an access
    width (locale \<open>word_access\<close>, and \<open>double_access\<close>, which builds the next width), page
    protections, the ways a program can stop (\<open>halt\<close>), transition systems (locales
    \<open>invariant_system\<close>, \<open>terminating_system\<close> and \<open>guarded_simulation\<close>).
  \<^item> \<open>RV_Isa\<close>, \<open>RV_Run\<close>: the machine (registers, program counter, memory, protections), the
    instructions of RV64I with multiplication and division and the loads and stores of F and D, their
    32-bit and compressed encodings, and running code from memory.
  \<^item> \<open>Lib_State\<close>: the globals of \<open>src/main.c\<close> and \<open>src/main.h\<close> (\<open>ReturnSequenceInfo\<close>, \<open>lib\<close>),
    symbol addresses (\<open>link\<close>), and the kernel's answers as parameters (\<open>os\<close>).
  \<^item> \<open>Utils\<close>: \<open>src/utils.c\<close>, the layout of the page.
  \<^item> \<open>Patcher\<close>, \<open>Trampoline\<close>: \<open>src/patcher.c\<close>. \<open>Patcher\<close> holds the emitted words, \<open>Trampoline\<close> what
    they do when run.
  \<^item> \<open>Syscall_Entry\<close>: \<open>____asm_impl\<close> and \<open>syscall_hook\<close> of \<open>src/main.c\<close>; the assembly is a list of
    instructions run with its labels.
  \<^item> \<open>Interception\<close>: one system call from the patched instruction to the next instruction.
  \<^item> \<open>Sigsegv_Handler\<close>: \<open>src/sigsegv_handler.c\<close> and \<open>src/rv_opcodes.h\<close>.
  \<^item> \<open>Rewriter\<close>, \<open>Maps_Parser\<close>: \<open>intercept_disasm_*\<close>, \<open>disassemble_and_rewrite\<close> and \<open>rewrite_code\<close> of
    \<open>src/main.c\<close>; \<open>fgets\<close>, \<open>strstr\<close>, \<open>strtok\<close> and \<open>strtol\<close> as the C library documents them.
  \<^item> \<open>Vp_Init\<close>: \<open>__vpoline_init\<close>, \<open>load_hook_lib\<close> and \<open>__libc_start_main\<close> of \<open>src/main.c\<close>.
  \<^item> \<open>Hooks\<close>: the hook libraries of \<open>test/\<close> and the harness of the coverage test (\<open>hook_*.c\<close>,
    \<open>syscall_tracker.c\<close>, \<open>safe_syscall_tracker.c\<close>, \<open>wrapper_test.h\<close> and the macro of \<open>wrapper_test.c\<close>), clients
    of \<open>include/libvpoline.h\<close>.
  \<^item> \<open>Interference\<close>: an intercepted call whose every instruction other threads may run before.
  \<^item> \<open>Process\<close>: a program under the library, next to the same program without it.
  \<^item> \<open>Threads\<close>: the same for several threads that share memory and start new ones.
  \<^item> This theory: the properties of the whole.

  \<^bold>\<open>State and effects.\<close> A C function is a function on \<open>lib\<close>, the library's globals together with the
  machine, with a result \<open>halt + 'a\<close>: \<open>Inl\<close> for every \<open>exit\<close>, failed assertion and fault of the library's own
  accesses. Stores check the protection of the page. Machine integers keep their width. The variable
  \<open>relocated_global_pointer\<close> lives in byte memory because the assembly reads it there; the other
  globals are fields. The loop of \<open>disassemble_and_rewrite\<close> is a \<open>partial_function\<close>, so that not
  ending would be \<open>None\<close>, and is proved to end. Fuel occurs in the runners of straight-line code only
  (\<open>cpu_run\<close>, \<open>asm_run\<close>): the trampoline is 20 instructions and the jump into it, the longest way
  through \<open>asm_syscall_hook\<close> 85 operations, a return path at most 6, and the theorems state that these
  numbers suffice.

  \<^bold>\<open>What is proved.\<close>
  \<^item> Layout: the structure \<open>rsi\<close> is well-formed (\<open>layout_ok\<close>) in every state of the constructor from its
    allocation on; where both code sequences lie inside the new mapping, and what happens for a global
    pointer too close to the start of its page.
  \<^item> Emitted code: the trampoline reaches \<open>asm_syscall_hook\<close> at any 64-bit address; the return
    sequences restore what they must; sealing the page, and its failures.
  \<^item> Interception: a handled, a forwarded and a cloning call are transparent but for \<open>a0\<close>;
    \<open>rt_sigreturn\<close> reaches the kernel with a lowered stack pointer. The call survives whatever other
    threads do meanwhile to memory that is not its own.
  \<^item> Fault handler: it refines the ISA, for every load and store of the modelled extensions, at the
    redirected address; the bounds of the redirection.
  \<^item> Rewriting: exactly the \<open>ecall\<close>s of a linear sweep are patched, a second sweep finds none, the
    memory map is parsed back to the mappings it was printed from, exactly the executable mappings of the
    C library are rewritten, and all of it ends.
  \<^item> Set-up: the constructor succeeds and leaves the process armed, or ends the program with status 1; no
    patched instruction is ever visible before the code it needs is in place; a step relation
    (\<open>init_step\<close>) makes the intermediate states explicit and agrees with the constructor.
  \<^item> Hooks: the write test end to end through the interception; the two ways of printing a system call
    agree and stay inside their buffers; one test of the coverage harness marks what it should;
    \<open>safe_syscall_tracker\<close> cannot be loaded.
  \<^item> Whole program, below: the program under the library simulates the program without it, one step, any run,
    any schedule of its threads, and for ever. A step of a thread is one instruction, the emulation of one
    faulting access, or one intercepted call, taken as a whole. For the intercepted call, \<open>Interference\<close> has
    the theorem about its single instructions; that interleavings of single instructions reduce to
    interleavings of whole steps is not proved.

  \<^bold>\<open>Parameters and what is assumed of them.\<close> The kernel (\<open>page_size_ok\<close>, \<open>mmap_ok\<close>, \<open>kernel_grants\<close>,
  \<open>kernel_returns\<close>), Capstone (\<open>disasm_ok\<close>: instructions of two or four bytes, decoded from their own
  bytes, and \<open>ecall\<close> recognised; \<open>isa_disasm\<close> is an instance), the dynamic loader and the hook
  library (\<open>loader_ok\<close>, \<open>hook_ready\<close>; \<open>hook_library_ready\<close> shows that the usual \<open>__hook_init\<close> satisfies them),
  compiled C code called from the assembly (calling convention in \<open>call_syscall_hook\<close>; for the call at hand
  it leaves its caller's frame, the library's variable and code alone, \<open>answer_keeps\<close>, \<open>hook_spares\<close>), and, for the
  hooks, what \<open>syscall_no_intercept\<close> and \<open>openat\<close> do.

  \<^bold>\<open>Not modelled.\<close> Messages, and the traps of a debug build, whose choice of the target program is
  modelled (\<open>vpoline_init_debug\<close>). Signals other than the faults above. Instructions outside the subset of
  \<open>RV_Isa\<close>, that is atomics, floating-point arithmetic and control registers; a program that computes an
  address from \<open>gp\<close> other than as the base of an access gets one in the execute-only page, and the
  whole-program theorem excludes such instructions. C objects that are not globals of the library are
  values, not bytes of memory. So is the context of the disassembler: the page that
  \<open>intercept_disasm_init\<close> maps for it and \<open>intercept_disasm_destroy\<close> unmaps does not appear in the memory or the
  protections of the model. The prototypes of \<open>utils.h\<close>, \<open>patcher.h\<close> and \<open>sigsegv_handler.h\<close>. The test programs, the list of calls and the report of \<open>wrapper_test.c\<close>, and
  the benchmark programs, which print what they observe.
\<close>

section \<open>Properties\<close>

text \<open>C1: a program under the library behaves as it would without it, with the hook in front of the kernel.
  Whenever the reference takes a step of the kind the library is made for, be it an ordinary
  instruction, an access relative to \<open>gp\<close>, or a system call the hook or the kernel answers, the program
  under the library takes a step with the same event, the system call number and arguments included,
  and the two machines agree again on every register but \<open>gp\<close> and on all memory that is the program's.\<close>

theorem program_simulated:
  assumes "mirrors lk g sites D n s" and "native_step n e n'" and "covered env lk g sites D D' n s e"
  shows "\<exists>s'. vp_step env g D' s e s' \<and> mirrors lk g sites D' n' s'"
  using assms by (rule native_step_simulated)

text \<open>C14: along any run of such steps the two machines stay in agreement; in particular \<open>gp\<close> holds the
  relocated value between the program's steps, the library's code and the patched instructions stay in
  place, and the page around the relocated global pointer stays execute-only.\<close>

theorem program_stays_mirrored:
  assumes "mirrors lk g sites D n s" and "(joint_step env lk g sites)\<^sup>*\<^sup>* (D, n, s) (D', n', s')"
  shows "mirrors lk g sites D' n' s' \<and> ready lk (g\<lparr>cpu := s', trap_handler := True\<rparr>)"
proof -
  have "mirrors lk g sites D' n' s'" using process.reaches_inv [OF assms(2)] assms(1) by simp
  moreover from this have "installed lk (g\<lparr>cpu := s'\<rparr>)" "rreg s' GP = relocated_gp (rsi g)"
    by (simp_all add: mirrors_def same_mem_def same_regs_def)
  moreover have "installed lk (g\<lparr>cpu := s', trap_handler := True\<rparr>)"
    using calculation(2) by (rule installed_frame) simp_all
  ultimately show ?thesis by (simp add: ready_def)
qed




section \<open>Instances\<close>

text \<open>The set-up of \<open>sample_process\<close>, and both machines at the patched instruction, about to make system
  call \<open>nr\<close> with the stack pointer at \<open>0x8000\<close>.\<close>

definition sample_regs :: "u64 \<Rightarrow> nat \<Rightarrow> u64" where
  "sample_regs nr = (\<lambda>r. of_nat r)(SP := 0x8000, A7 := nr)"

definition sample_native :: "u64 \<Rightarrow> lib \<Rightarrow> machine" where
  "sample_native nr g = (unpatched sample_maps (mem sample_text) g)
     \<lparr>pc := 0x10000, gregs := (sample_regs nr)(GP := virtual_global_pointer g), fregs := of_nat, perm := (\<lambda>_. 7)\<rparr>"

definition sample_under :: "u64 \<Rightarrow> lib \<Rightarrow> machine" where
  "sample_under nr g = (cpu g)
     \<lparr>pc := 0x10000, gregs := (sample_regs nr)(GP := relocated_gp (rsi g)), fregs := of_nat,
      perm := (\<lambda>x. if shadow_page g x then perm (cpu g) x else 7)\<rparr>"

abbreviation "sample_sites \<equiv> sites_of isa_disasm (mem sample_text) sample_maps"

abbreviation "sample_frame \<equiv> in_range 0x7ed0 304"

definition sample_reply :: reply where
  "sample_reply = \<lparr>rep_a0 = 3, rep_mem = Map.empty, rep_perm = Map.empty\<rparr>"

lemma sample_set_up:
  obtains g where "vpoline_init sample_os sample_capstone sample_link sample_loader
      (Some (concat (map maps_line sample_maps))) sample_process = Some (Inr g)"
    "armed isa_disasm sample_link sample_maps (mem sample_text) g" "virtual_global_pointer g = 0x50800"
    "relocated_gp (rsi g) = 0x40000800" "shadow_page g = in_range 0x40000000 0x1000"
proof -
  obtain g where g: "vpoline_init sample_os sample_capstone sample_link sample_loader
      (Some (concat (map maps_line sample_maps))) sample_process = Some (Inr g)"
    "armed (cs_disasm_iter sample_capstone) sample_link sample_maps (mem (cpu sample_process)) g"
    "virtual_global_pointer g = rreg (cpu sample_process) GP" "shadow_page g = new_page sample_os"
    "relocated_gp (rsi g) = os_mmap sample_os (os_page_size sample_os) + rreg (cpu sample_process) GP mod os_page_size sample_os"
    using vpoline_init_ok [of sample_os sample_capstone sample_link sample_maps sample_process, OF _ sample_loader_ok]
      sample_init_ok by (auto simp: sample_process_sel)
  moreover have "new_page sample_os = in_range 0x40000000 0x1000"
    by (simp add: new_page_def sample_os_def fun_eq_iff)
  ultimately show thesis
    using that [of g] by (simp add: sample_process_sel sample_capstone_def) (simp add: sample_os_def)
qed

lemma sample_mirrors:
  assumes "armed isa_disasm sample_link sample_maps (mem sample_text) g"
  shows "mirrors sample_link g sample_sites (\<lambda>_. False) (sample_native nr g) (sample_under nr g)"
  unfolding sample_native_def sample_under_def
  by (rule mirrors_state) (rule armed_mirrors [OF assms isa_disasm_ok])

lemma sample_libc_code: "libc_code sample_maps x \<longleftrightarrow> 0x10000 \<le> unat x \<and> unat x < 0x11000"
proof -
  have "libc_code sample_maps x \<longleftrightarrow> in_mapping sample_libc x" unfolding libc_code_def sample_libc_text by simp
  then show ?thesis
    using unat_lt_64 [of x] by (auto simp: in_mapping_def in_range_def sample_libc_def vm_size_def unat_diff_cases split: if_splits)
qed

text \<open>Bytes that belong to the program.\<close>

lemma sample_seen:
  assumes "shadow_page g = in_range 0x40000000 0x1000" and "unat x < 0x40000000" and "\<not> (0x1000 \<le> unat x \<and> unat x < 0x1008)"
    and "\<not> (0x10000 \<le> unat x \<and> unat x < 0x11000)"
  shows "seen sample_link g sample_sites (\<lambda>_. False) x"
proof -
  have "\<not> libc_code sample_maps x" using assms(4) by (simp add: sample_libc_code)
  then have "\<not> in_range t 4 x" if "t \<in> sample_sites" for t
    using site_in_libc [OF isa_disasm_ok] that by (auto simp: sites_of_def)
  then show ?thesis
    using assms(2,3) by (auto simp: seen_def assms(1) rgp_variable_def sample_link_def in_range_def unat_diff_cases split: if_splits)
qed

lemma sample_regs_sel:
  assumes "virtual_global_pointer g = 0x50800"
  shows "rreg (sample_native nr g) r = (if r = GP then 0x50800 else if r = SP then 0x8000 else if r = A7 then nr else of_nat r)"
    and "pc (sample_native nr g) = 0x10000" and "perm (sample_native nr g) = (\<lambda>_. 7)"
  using assms by (auto simp: sample_native_def sample_regs_def rreg_def)


lemma sample_at_site:
  assumes g: "armed isa_disasm sample_link sample_maps (mem sample_text) g" "virtual_global_pointer g = 0x50800"
  shows "0x10000 \<in> sample_sites" and "isa_step (sample_native nr g) = Ecall (sample_native nr g)"
    and "call_args (sample_native nr g) = [nr, 10, 11, 12, 13, 14, 15]"
proof -
  show site: "0x10000 \<in> sample_sites"
    using sample_site by (simp add: sites_of_def sample_libc_text del: filter.simps)
  then have "load32 (mem (sample_native nr g)) 0x10000 = 0x73"
    using sample_mirrors [OF g(1), of nr] by (simp add: mirrors_def same_mem_def)
  then have "fetch (sample_native nr g) = (decode32 0x73, 4)"
    by (simp add: fetch_def Let_def load16_low sample_regs_sel [OF g(2)])
  moreover have "decode32 0x73 = Some ECALL" by (simp add: decode_defs)
  ultimately show "isa_step (sample_native nr g) = Ecall (sample_native nr g)"
    by (simp add: isa_step_def sample_regs_sel [OF g(2)] allowed_all)
  show "call_args (sample_native nr g) = [nr, 10, 11, 12, 13, 14, 15]"
    by (simp add: call_args_def sample_regs_sel [OF g(2)])
qed

lemma sample_call_ready:
  assumes g: "virtual_global_pointer g = 0x50800" "relocated_gp (rsi g) = 0x40000800"
    "shadow_page g = in_range 0x40000000 0x1000"
  shows "call_ok sample_env sample_link g sample_sites sample_frame (sample_native nr g)"
proof -
  have "seen sample_link g sample_sites (\<lambda>_. False) x" if "sample_frame x" for x
    using that unat_lt_64 [of x] by (intro sample_seen [OF g(3)]) (auto simp: in_range_def unat_diff_cases split: if_splits)
  moreover have "\<not> shadow_page g x" if "in_range 0x10000 4 x \<or> rgp_variable sample_link x" for x
    using that unat_lt_64 [of x]
    by (auto simp: g(3) rgp_variable_def sample_link_def in_range_def unat_diff_cases split: if_splits)
  ultimately show ?thesis
    by (simp add: call_ok_def Let_def sample_regs_sel [OF g(1)] g(2) allowed_all library_only_def)
       (simp add: sample_env_def sample_link_def)
qed

lemma sample_forwards:
  assumes "rreg s SP = 0x8000" and "rreg s A7 \<noteq> 64"
  shows "hook_does sample_env sample_frame s 0 Map.empty"
  using assms call_mem_frame(1) [of s] sample_answer_keeps
  by (simp add: hook_does_def hook_answer_def syscall_hook_def sample_env_def sample_hook_def)

lemma sample_kernel_call:
  assumes g: "armed isa_disasm sample_link sample_maps (mem sample_text) g" "virtual_global_pointer g = 0x50800"
    "relocated_gp (rsi g) = 0x40000800" "shadow_page g = in_range 0x40000000 0x1000"
  shows "native_step (sample_native 57 g) (Kernel [57, 10, 11, 12, 13, 14, 15] sample_reply) (answered sample_reply (sample_native 57 g))"
    and "covered sample_env sample_link g sample_sites (\<lambda>_. False) sample_frame (sample_native 57 g) (sample_under 57 g)
      (Kernel [57, 10, 11, 12, 13, 14, 15] sample_reply)"
proof -
  note site = sample_at_site [OF g(1,2)]
  show "native_step (sample_native 57 g) (Kernel [57, 10, 11, 12, 13, 14, 15] sample_reply) (answered sample_reply (sample_native 57 g))"
    using native_kernel [OF site(2) [of 57], where p = sample_reply] site(3) [of 57] by simp
  have "rreg (sample_under 57 g) SP = 0x8000" "rreg (sample_under 57 g) A7 = 57"
    by (simp_all add: sample_under_def sample_regs_def rreg_def)
  then show "covered sample_env sample_link g sample_sites (\<lambda>_. False) sample_frame (sample_native 57 g) (sample_under 57 g)
      (Kernel [57, 10, 11, 12, 13, 14, 15] sample_reply)"
    using site(1) sample_call_ready [OF g(2-4)] sample_forwards
    by (simp add: covered_def sample_regs_sel [OF g(2)] reply_ok_def sample_reply_def)
qed

theorem program_simulated_witness:
  "\<exists>g s'. mirrors sample_link g sample_sites (\<lambda>_. False) (sample_native 57 g) (sample_under 57 g) \<and>
     vp_step sample_env g sample_frame (sample_under 57 g) (Kernel [57, 10, 11, 12, 13, 14, 15] sample_reply) s' \<and>
     mirrors sample_link g sample_sites sample_frame (answered sample_reply (sample_native 57 g)) s' \<and>
     pc s' = 0x10004 \<and> rreg s' A0 = 3"
proof (rule sample_set_up)
  fix g assume g: "armed isa_disasm sample_link sample_maps (mem sample_text) g" "virtual_global_pointer g = 0x50800"
    "relocated_gp (rsi g) = 0x40000800" "shadow_page g = in_range 0x40000000 0x1000"
  from program_simulated [OF sample_mirrors [OF g(1)] sample_kernel_call [OF g]] obtain s'
    where s': "vp_step sample_env g sample_frame (sample_under 57 g) (Kernel [57, 10, 11, 12, 13, 14, 15] sample_reply) s'"
      "mirrors sample_link g sample_sites sample_frame (answered sample_reply (sample_native 57 g)) s'" by blast
  moreover have "rreg s' A0 = rreg (answered sample_reply (sample_native 57 g)) A0" "pc s' = pc (answered sample_reply (sample_native 57 g))"
    using s'(2) by (simp_all add: mirrors_def same_regs_def)
  then have "pc s' = 0x10004" "rreg s' A0 = 3"
    by (simp_all add: answered_sel sample_native_def sample_reply_def)
  ultimately show ?thesis using sample_mirrors [OF g(1)] by blast
qed

theorem program_stays_mirrored_witness:
  "\<exists>g s'. (joint_step sample_env sample_link g sample_sites)\<^sup>*\<^sup>* (\<lambda>_. False, sample_native 57 g, sample_under 57 g)
       (sample_frame, answered sample_reply (sample_native 57 g), s') \<and>
     mirrors sample_link g sample_sites sample_frame (answered sample_reply (sample_native 57 g)) s' \<and>
     rreg s' GP = relocated_gp (rsi g)"
proof (rule sample_set_up)
  fix g assume g: "armed isa_disasm sample_link sample_maps (mem sample_text) g" "virtual_global_pointer g = 0x50800"
    "relocated_gp (rsi g) = 0x40000800" "shadow_page g = in_range 0x40000000 0x1000"
  note call = sample_kernel_call [OF g]
  obtain s' where "vp_step sample_env g sample_frame (sample_under 57 g) (Kernel [57, 10, 11, 12, 13, 14, 15] sample_reply) s'"
    using native_step_simulated [OF sample_mirrors [OF g(1)] call] by blast
  then have "(joint_step sample_env sample_link g sample_sites)\<^sup>*\<^sup>* (\<lambda>_. False, sample_native 57 g, sample_under 57 g)
      (sample_frame, answered sample_reply (sample_native 57 g), s')"
    using joint [OF call(1) _ call(2)] by blast
  with program_stays_mirrored [OF sample_mirrors [OF g(1)] this] show ?thesis
    by (auto simp: ready_def)
qed


text \<open>Any number of threads in the same state.\<close>

definition crowd :: "nat \<Rightarrow> machine \<Rightarrow> pool" where
  "crowd k m = \<lparr>threads = replicate k (regs_of m), p_mem = mem m, p_perm = perm m\<rparr>"

lemma crowd_sel [simp]: "length (threads (crowd k m)) = k" "i < k \<Longrightarrow> focus (crowd k m) i = m"
  by (simp_all add: crowd_def focus_def regs_of_def)



text \<open>A thread at a patched site that starts another one by \<open>clone\<close>.\<close>

definition sample_child :: child where
  "sample_child = \<lparr>ch_sp = 0x9000, ch_tp = 0x9800\<rparr>"

abbreviation "sample_spawn \<equiv> Spawn 0 sample_env [220, 10, 11, 12, 13, 14, 15] sample_reply sample_child"








end
